(* ===== verification/Prelude.thy ===== *)
theory Prelude
  imports Main "HOL-Library.Word" "HOL-Library.Multiset" "HOL-Library.Monad_Syntax"
begin

text \<open>
  What the components share: the machine types, the model of a Go panic, slices with checked
  indexing, \<^verbatim>\<open>math/big\<close> values behind pointers, the loop combinator for fallible loops, the
  choice of a map's iteration order, and the locale that lifts a one-step invariant to all
  reachable states.
\<close>

section \<open>Machine types\<close>

type_synonym u8 = "8 word"
type_synonym u16 = "16 word"
type_synonym u64 = "64 word"

text \<open>A Go \<^verbatim>\<open>int\<close> or \<^verbatim>\<open>time.Duration\<close> (64 bits); it is read with \<^const>\<open>sint\<close>.\<close>

type_synonym i64 = "64 word"

type_synonym byte = "8 word"

text \<open>The fixed-size arrays \<^verbatim>\<open>common.Address\<close> (20 bytes), \<^verbatim>\<open>common.Hash\<close> (32 bytes) and
  \<^verbatim>\<open>types.Bloom\<close> (256 bytes), of which the code uses equality and the zero value.\<close>

type_synonym address = "160 word"
type_synonym hash = "256 word"
type_synonym bloom = "2048 word"

section \<open>Panics\<close>

text \<open>
  A computation that may panic (index out of range, nil dereference) has type \<open>'a go\<close>:
  \<^const>\<open>None\<close> is the panic. Returned Go errors are values and no panics.
\<close>

type_synonym 'a go = "'a option"

named_theorems go_simps \<open>rewrites for panicking computations\<close>

definition idx :: "'a list \<Rightarrow> nat \<Rightarrow> 'a go" where
  "idx xs i = (if i < length xs then Some (xs ! i) else None)"

definition set_idx :: "'a list \<Rightarrow> nat \<Rightarrow> 'a \<Rightarrow> 'a list go" where
  "set_idx xs i x = (if i < length xs then Some (xs[i := x]) else None)"

text \<open>\<^verbatim>\<open>xs[:k]\<close>. (Go also accepts \<open>k\<close> between the length and the capacity; the
  registry never slices there, and the model counts it as a panic.)\<close>

definition slice_to :: "'a list \<Rightarrow> nat \<Rightarrow> 'a list go" where
  "slice_to xs k = (if k \<le> length xs then Some (take k xs) else None)"

lemma idx_Some [simp]: "i < length xs \<Longrightarrow> idx xs i = Some (xs ! i)"
  by (simp add: idx_def)

lemma idx_eq_Some: "idx xs i = Some x \<longleftrightarrow> i < length xs \<and> x = xs ! i"
  by (auto simp: idx_def)

lemma idx_eq_None: "idx xs i = None \<longleftrightarrow> length xs \<le> i"
  by (auto simp: idx_def)

lemma set_idx_Some [simp]: "i < length xs \<Longrightarrow> set_idx xs i x = Some (xs[i := x])"
  by (simp add: set_idx_def)

lemma slice_to_Some [simp]: "k \<le> length xs \<Longrightarrow> slice_to xs k = Some (take k xs)"
  by (simp add: slice_to_def)

lemmas bind_Some_iff = bind_eq_Some_conv

section \<open>Pointers to big integers\<close>

text \<open>A \<^verbatim>\<open>*big.Int\<close> read as a value: \<^const>\<open>None\<close> is the nil pointer.\<close>

type_synonym bigptr = "int option"

text \<open>\<^verbatim>\<open>new(big.Int).Set(p)\<close> and \<^verbatim>\<open>z.Set(p)\<close> read \<open>p\<close> and panic on nil.\<close>

definition deref :: "bigptr \<Rightarrow> int go" where
  "deref p = p"

lemma deref_simps [simp]: "deref (Some v) = Some v" "deref None = None"
  by (simp_all add: deref_def)

text \<open>
  \<^verbatim>\<open>x.Cmp(y)\<close>: identical pointers compare equal before anything is read, so two nil
  pointers are equal; one nil pointer is a nil dereference.
\<close>

fun bigCmp :: "bigptr \<Rightarrow> bigptr \<Rightarrow> int go" where
  "bigCmp None None = Some 0"
| "bigCmp (Some x) (Some y) = Some (if x < y then - 1 else if x = y then 0 else 1)"
| "bigCmp None (Some y) = None"
| "bigCmp (Some x) None = None"

section \<open>Lists and optional results\<close>

lemma those_map_total:
  assumes "\<And>x. x \<in> set xs \<Longrightarrow> f x = Some (g x)"
  shows "those (map f xs) = Some (map g xs)"
  using assms by (induction xs) auto

lemma those_map_Some:
  "those (map f xs) = Some ys \<longleftrightarrow> list_all2 (\<lambda>x y. f x = Some y) xs ys"
proof (induction xs arbitrary: ys)
  case Nil
  then show ?case by auto
next
  case (Cons x xs)
  then show ?case by (cases ys) (auto split: option.splits)
qed

lemma find_append:
  "find P (xs @ ys) = (case find P xs of None \<Rightarrow> find P ys | Some x \<Rightarrow> Some x)"
  by (induction xs) auto

lemma find_SomeD: "find P xs = Some x \<Longrightarrow> x \<in> set xs \<and> P x"
  by (induction xs) (auto split: if_splits)

lemma map_nth_eq: "length xs = n \<Longrightarrow> map ((!) xs) [0..<n] = xs"
  using map_nth [of xs] by simp

text \<open>A loop over a list whose body updates a state and may panic.\<close>

fun foldM :: "('a \<Rightarrow> 's \<Rightarrow> 's go) \<Rightarrow> 'a list \<Rightarrow> 's \<Rightarrow> 's go" where
  "foldM f [] s = Some s"
| "foldM f (x # xs) s = do { s' \<leftarrow> f x s; foldM f xs s' }"

lemma foldM_append: "foldM f (xs @ ys) s = do { s' \<leftarrow> foldM f xs s; foldM f ys s' }"
  by (induction xs arbitrary: s) (auto split: Option.bind_splits)

text \<open>The invariant rule: a body that never panics under the invariant and keeps it.\<close>

lemma foldM_inv:
  assumes "P s"
    and "\<And>x t. x \<in> set xs \<Longrightarrow> P t \<Longrightarrow> \<exists>t'. f x t = Some t' \<and> P t'"
  shows "\<exists>s'. foldM f xs s = Some s' \<and> P s'"
  using assms
proof (induction xs arbitrary: s)
  case Nil
  then show ?case by simp
next
  case (Cons x xs)
  from Cons.prems(1) Cons.prems(2)[of x s] obtain t where "f x s = Some t" "P t" by auto
  with Cons.IH[of t] Cons.prems(2) show ?case by auto
qed

lemma foldM_inv_Some:
  assumes "foldM f xs s = Some s'" and "P s"
    and "\<And>x t t'. x \<in> set xs \<Longrightarrow> P t \<Longrightarrow> f x t = Some t' \<Longrightarrow> P t'"
  shows "P s'"
  using assms
proof (induction xs arbitrary: s)
  case Nil
  then show ?case by simp
next
  case (Cons x xs)
  from Cons.prems(1) obtain t where t: "f x s = Some t" "foldM f xs t = Some s'"
    by (auto simp: bind_Some_iff)
  with Cons.prems(2,3) have "P t" by auto
  from Cons.IH [OF t(2) this] Cons.prems(3) show ?case by auto
qed

lemma map_of_keyed_distinct:
  assumes "distinct (map f xs)" and "x \<in> set xs"
  shows "map_of (map (\<lambda>x. (f x, g x)) xs) (f x) = Some (g x)"
proof -
  have "distinct (map fst (map (\<lambda>x. (f x, g x)) xs))"
    using assms(1) by (simp add: comp_def)
  moreover have "(f x, g x) \<in> set (map (\<lambda>x. (f x, g x)) xs)"
    using assms(2) by auto
  ultimately show ?thesis by (rule map_of_is_SomeI)
qed

lemma map_of_keyed_None:
  "k \<notin> f ` set xs \<Longrightarrow> map_of (map (\<lambda>x. (f x, g x)) xs) k = None"
  by (induction xs) auto

lemma find_key_rev:
  assumes "distinct (map fst xs)"
  shows "find (\<lambda>(x, _). x = k) (rev xs) = map_option (Pair k) (map_of xs k)"
  using assms
proof (induction xs)
  case Nil
  then show ?case by simp
next
  case (Cons x xs)
  then show ?case
    by (cases x) (force simp: find_append map_of_eq_None_iff split: option.splits)
qed

section \<open>The iteration order of a map\<close>

text \<open>
  Ranging over a Go map visits every key once, in an order the language leaves open. A map whose
  iteration order reaches a result is kept as the list of its keys in insertion order, and the
  operation takes the order as an argument: a function that permutes the list.
\<close>

definition go_range_order :: "('a list \<Rightarrow> 'a list) \<Rightarrow> bool" where
  "go_range_order ord \<longleftrightarrow> (\<forall>ks. mset (ord ks) = mset ks)"

lemma go_range_orderD:
  assumes "go_range_order ord"
  shows "set (ord ks) = set ks" "length (ord ks) = length ks" "distinct (ord ks) = distinct ks"
proof -
  have m: "mset (ord ks) = mset ks" using assms by (simp add: go_range_order_def)
  show "set (ord ks) = set ks" using m by (rule mset_eq_setD)
  show "length (ord ks) = length ks" using m by (rule mset_eq_length)
  show "distinct (ord ks) = distinct ks" using m by (rule mset_eq_imp_distinct_iff)
qed

lemma go_range_order_id: "go_range_order (\<lambda>ks. ks)"
  by (simp add: go_range_order_def)

lemma go_range_order_rev: "go_range_order rev"
  by (simp add: go_range_order_def)

section \<open>Invariants of transition systems\<close>

text \<open>The contract of a transition system whose invariant every step keeps.\<close>

locale transition_invariant =
  fixes start :: "'s \<Rightarrow> bool"
    and step :: "'s \<Rightarrow> 's \<Rightarrow> bool"
    and inv :: "'s \<Rightarrow> bool"
  assumes inv_start: "start s \<Longrightarrow> inv s"
    and inv_step: "inv s \<Longrightarrow> step s t \<Longrightarrow> inv t"
begin

lemma inv_steps: "step\<^sup>*\<^sup>* s t \<Longrightarrow> inv s \<Longrightarrow> inv t"
  by (induction rule: rtranclp_induct) (auto intro: inv_step)

lemma inv_reachable: "start s \<Longrightarrow> step\<^sup>*\<^sup>* s t \<Longrightarrow> inv t"
  by (blast intro: inv_start inv_steps)

end

end
