(* ===== verification/Errors.thy ===== *)
theory Errors
  imports Prelude "HOL-Library.Sublist"
begin

text \<open>
  The error values of the program (\<^verbatim>\<open>src/errors.go\<close> and the error part of
  \<^verbatim>\<open>src/registry.go\<close>): the error types with their embedded fields, \<^verbatim>\<open>Unwrap\<close>,
  \<^verbatim>\<open>Error\<close>, the search of \<^verbatim>\<open>errors.As\<close> along the chain of wrapped errors, and
  \<^verbatim>\<open>determineErrorType\<close>. Its specification is a linear order on error classes: the type
  reported is the most specific class found on the chain.
\<close>

section \<open>Error values\<close>

text \<open>The parts of a formatted message: literal text, \<^verbatim>\<open>%d\<close> of a number and
  \<^verbatim>\<open>%s\<close> of \<^verbatim>\<open>Address.Hex()\<close>.\<close>

datatype piece = Lit string | Dec int | Hex address

text \<open>
  \<^verbatim>\<open>ErrorString ps\<close> is an error of \<^verbatim>\<open>errors.New\<close> or of \<^verbatim>\<open>fmt.Errorf\<close> without
  \<^verbatim>\<open>%w\<close>; \<^verbatim>\<open>Errorf ps e\<close> is \<^verbatim>\<open>fmt.Errorf\<close> with \<^verbatim>\<open>%w\<close> of \<open>e\<close> at its end, the only
  shape the code has. The struct types carry their fields in declaration order, an embedded
  \<^verbatim>\<open>SystemError\<close> or \<^verbatim>\<open>InitializationError\<close> being its fields.
\<close>

datatype go_error =
    ErrorString "piece list"
  | Errorf "piece list" go_error
  | ErrPoolExists
  | ErrPoolNotFound
  | DependencyError string address go_error
  | SystemError u64 go_error
  | InitializationError u64 go_error address
  | RegistrationError u64 go_error address address address
  | DataConsistencyError u64 go_error address string
  | UpdateError u64 go_error address u64 bigptr bigptr
  | PrunerError go_error u64

text \<open>
  \<^verbatim>\<open>Unwrap\<close>, \<^const>\<open>None\<close> for an error without the method. The types that embed
  \<^verbatim>\<open>SystemError\<close>, directly or through \<^verbatim>\<open>InitializationError\<close>, promote its method.
\<close>

fun Unwrap :: "go_error \<Rightarrow> go_error option" where
  "Unwrap (ErrorString ps) = None"
| "Unwrap (Errorf ps e) = Some e"
| "Unwrap ErrPoolExists = None"
| "Unwrap ErrPoolNotFound = None"
| "Unwrap (DependencyError d i e) = Some e"
| "Unwrap (SystemError b e) = Some e"
| "Unwrap (InitializationError b e p) = Some e"
| "Unwrap (RegistrationError b e p t0 t1) = Some e"
| "Unwrap (DataConsistencyError b e p d) = Some e"
| "Unwrap (UpdateError b e p k r0 r1) = Some e"
| "Unwrap (PrunerError e k) = Some e"

lemma Unwrap_size: "Unwrap e = Some e' \<Longrightarrow> size e' < size e"
  by (cases e) auto

text \<open>The chain \<^verbatim>\<open>errors.As\<close> walks: the error, what it wraps, and so on.\<close>

function chain :: "go_error \<Rightarrow> go_error list" where
  "chain e = e # (case Unwrap e of None \<Rightarrow> [] | Some e' \<Rightarrow> chain e')"
  by pat_completeness auto
termination
  by (relation "measure size") (auto dest: Unwrap_size)

declare chain.simps [simp del]

text \<open>\<^verbatim>\<open>errors.As(err, &target)\<close> for a target of a concrete pointer type: the type test
  \<open>is\<close> on the links of the chain, from the outside in.\<close>

function errorsAs :: "(go_error \<Rightarrow> bool) \<Rightarrow> go_error \<Rightarrow> bool" where
  "errorsAs is e =
     (if is e then True
      else (case Unwrap e of None \<Rightarrow> False | Some e' \<Rightarrow> errorsAs is e'))"
  by pat_completeness auto
termination
  by (relation "measure (\<lambda>(is, e). size e)") (auto dest: Unwrap_size)

declare errorsAs.simps [simp del]

fun is_RegistrationError :: "go_error \<Rightarrow> bool" where
  "is_RegistrationError (RegistrationError _ _ _ _ _) = True"
| "is_RegistrationError _ = False"

fun is_DataConsistencyError :: "go_error \<Rightarrow> bool" where
  "is_DataConsistencyError (DataConsistencyError _ _ _ _) = True"
| "is_DataConsistencyError _ = False"

fun is_InitializationError :: "go_error \<Rightarrow> bool" where
  "is_InitializationError (InitializationError _ _ _) = True"
| "is_InitializationError _ = False"

fun is_UpdateError :: "go_error \<Rightarrow> bool" where
  "is_UpdateError (UpdateError _ _ _ _ _ _) = True"
| "is_UpdateError _ = False"

fun is_PrunerError :: "go_error \<Rightarrow> bool" where
  "is_PrunerError (PrunerError _ _) = True"
| "is_PrunerError _ = False"

definition determineErrorType :: "go_error \<Rightarrow> string" where
  "determineErrorType err =
     (if errorsAs is_RegistrationError err then ''critical_registration''
      else if errorsAs is_DataConsistencyError err then ''critical_consistency''
      else if errorsAs is_InitializationError err then ''pool_initialization''
      else if errorsAs is_UpdateError err then ''pool_update''
      else if errorsAs is_PrunerError err then ''pruner''
      else ''unknown'')"

section \<open>Messages\<close>

text \<open>\<^verbatim>\<open>%d\<close> of a non-negative number.\<close>

fun dec :: "nat \<Rightarrow> string" where
  "dec n = (if n < 10 then [char_of (48 + n)] else dec (n div 10) @ [char_of (48 + n mod 10)])"

declare dec.simps [simp del]

definition dec_int :: "int \<Rightarrow> string" where
  "dec_int i = (if i < 0 then ''-'' @ dec (nat (- i)) else dec (nat i))"

text \<open>
  \<^verbatim>\<open>Error()\<close>. The checksummed hexadecimal form of an address (\<^verbatim>\<open>common.Address.Hex\<close>,
  also what \<^verbatim>\<open>%v\<close> prints for it) is the parameter \<open>hex\<close>.
\<close>

fun render :: "(address \<Rightarrow> string) \<Rightarrow> piece list \<Rightarrow> string" where
  "render hex [] = []"
| "render hex (Lit s # ps) = s @ render hex ps"
| "render hex (Dec n # ps) = dec_int n @ render hex ps"
| "render hex (Hex a # ps) = hex a @ render hex ps"

fun Error :: "(address \<Rightarrow> string) \<Rightarrow> go_error \<Rightarrow> string" where
  "Error hex (ErrorString ps) = render hex ps"
| "Error hex (Errorf ps e) = render hex ps @ Error hex e"
| "Error hex ErrPoolExists = ''pool already exists in registry''"
| "Error hex ErrPoolNotFound = ''pool not found in registry''"
| "Error hex (DependencyError d i e) =
     ''registry dependency '' @ [char_of (39::nat)] @ d @ [char_of (39::nat)] @
     '' failed for input '' @ [char_of (39::nat)] @ hex i @ [char_of (39::nat)] @ '': '' @
     Error hex e"
| "Error hex (SystemError b e) = ''block '' @ dec (unat b) @ '': '' @ Error hex e"
| "Error hex (InitializationError b e p) =
     (if b = 0 then ''initializer: failed to initialize pool '' @ hex p @ '': '' @ Error hex e
      else ''block '' @ dec (unat b) @ '': failed to initialize pool '' @ hex p @ '': '' @
        Error hex e)"
| "Error hex (RegistrationError b e p t0 t1) =
     (if b = 0 then ''CRITICAL initializer: failed to register new pool '' @ hex p @
        '' (tokens '' @ hex t0 @ '', '' @ hex t1 @ ''): '' @ Error hex e
      else ''CRITICAL block '' @ dec (unat b) @ '': failed to register new pool '' @ hex p @
        '' (tokens '' @ hex t0 @ '', '' @ hex t1 @ ''): '' @ Error hex e)"
| "Error hex (DataConsistencyError b e p d) =
     (if b = 0 then ''CRITICAL internal: data consistency error for pool '' @ hex p @ '': '' @ d @
        '': '' @ Error hex e
      else ''CRITICAL block '' @ dec (unat b) @ '': data consistency error for pool '' @ hex p @
        '': '' @ d @ '': '' @ Error hex e)"
| "Error hex (UpdateError b e p k r0 r1) =
     (if b = 0 then ''reconciler: failed to update reserves for pool with id '' @
        dec (unat k) @ '': '' @ Error hex e
      else ''block '' @ dec (unat b) @ '': failed to update reserves for pool '' @ hex p @
        '' (id '' @ dec (unat k) @ ''): '' @ Error hex e)"
| "Error hex (PrunerError e k) =
     ''pruner: failed to process pool ID '' @ dec (unat k) @ '': '' @ Error hex e"

section \<open>Classification\<close>

text \<open>
  The specification of \<^verbatim>\<open>determineErrorType\<close>: error classes, ordered from the most to the
  least specific as the comment in the source orders the checks, and the class of one link.
\<close>

datatype error_class =
    CriticalRegistration | CriticalConsistency | PoolInitialization | PoolUpdate | Pruner
  | UnknownClass

fun specificity :: "error_class \<Rightarrow> nat" where
  "specificity CriticalRegistration = 0"
| "specificity CriticalConsistency = 1"
| "specificity PoolInitialization = 2"
| "specificity PoolUpdate = 3"
| "specificity Pruner = 4"
| "specificity UnknownClass = 5"

lemma specificity_inj: "specificity c = specificity d \<longleftrightarrow> c = d"
  by (cases c; cases d) auto

instantiation error_class :: linorder
begin

definition less_eq_error_class :: "error_class \<Rightarrow> error_class \<Rightarrow> bool" where
  "c \<le> d \<longleftrightarrow> specificity c \<le> specificity d"

definition less_error_class :: "error_class \<Rightarrow> error_class \<Rightarrow> bool" where
  "c < d \<longleftrightarrow> specificity c < specificity d"

instance
  by standard (auto simp: less_eq_error_class_def less_error_class_def specificity_inj)

end

fun class_label :: "error_class \<Rightarrow> string" where
  "class_label CriticalRegistration = ''critical_registration''"
| "class_label CriticalConsistency = ''critical_consistency''"
| "class_label PoolInitialization = ''pool_initialization''"
| "class_label PoolUpdate = ''pool_update''"
| "class_label Pruner = ''pruner''"
| "class_label UnknownClass = ''unknown''"

fun own_class :: "go_error \<Rightarrow> error_class" where
  "own_class (RegistrationError _ _ _ _ _) = CriticalRegistration"
| "own_class (DataConsistencyError _ _ _ _) = CriticalConsistency"
| "own_class (InitializationError _ _ _) = PoolInitialization"
| "own_class (UpdateError _ _ _ _ _ _) = PoolUpdate"
| "own_class (PrunerError _ _) = Pruner"
| "own_class _ = UnknownClass"

lemma own_class_iff:
  "is_RegistrationError e \<longleftrightarrow> own_class e = CriticalRegistration"
  "is_DataConsistencyError e \<longleftrightarrow> own_class e = CriticalConsistency"
  "is_InitializationError e \<longleftrightarrow> own_class e = PoolInitialization"
  "is_UpdateError e \<longleftrightarrow> own_class e = PoolUpdate"
  "is_PrunerError e \<longleftrightarrow> own_class e = Pruner"
  by (cases e; simp)+

lemma chain_Unwrap_None: "Unwrap e = None \<Longrightarrow> chain e = [e]"
  by (subst chain.simps) simp

lemma chain_Unwrap_Some: "Unwrap e = Some e' \<Longrightarrow> chain e = e # chain e'"
  by (subst chain.simps) simp

lemma chain_nonempty [simp]: "chain e \<noteq> []"
  by (subst chain.simps) simp

lemma errorsAs_chain: "errorsAs is e \<longleftrightarrow> (\<exists>x \<in> set (chain e). is x)"
proof (induction e rule: chain.induct)
  case (1 e)
  show ?case
  proof (cases "Unwrap e")
    case None
    then show ?thesis by (subst errorsAs.simps) (simp add: chain_Unwrap_None)
  next
    case (Some e')
    with 1 have "errorsAs is e' \<longleftrightarrow> (\<exists>x \<in> set (chain e'). is x)" by blast
    with Some show ?thesis by (subst errorsAs.simps) (simp add: chain_Unwrap_Some)
  qed
qed

lemma errorsAs_class:
  "errorsAs is_RegistrationError e \<longleftrightarrow> CriticalRegistration \<in> own_class ` set (chain e)"
  "errorsAs is_DataConsistencyError e \<longleftrightarrow> CriticalConsistency \<in> own_class ` set (chain e)"
  "errorsAs is_InitializationError e \<longleftrightarrow> PoolInitialization \<in> own_class ` set (chain e)"
  "errorsAs is_UpdateError e \<longleftrightarrow> PoolUpdate \<in> own_class ` set (chain e)"
  "errorsAs is_PrunerError e \<longleftrightarrow> Pruner \<in> own_class ` set (chain e)"
  unfolding errorsAs_chain own_class_iff image_iff by metis+

lemma Min_classI:
  assumes "c \<in> S" and "finite S" and "\<And>d. d \<in> S \<Longrightarrow> specificity c \<le> specificity d"
  shows "Min S = (c :: error_class)"
  by (rule Min_eqI) (use assms in \<open>auto simp: less_eq_error_class_def\<close>)

lemma Min_class:
  assumes "finite S" and "S \<noteq> {}"
  shows "Min S =
    (if CriticalRegistration \<in> S then CriticalRegistration
     else if CriticalConsistency \<in> S then CriticalConsistency
     else if PoolInitialization \<in> S then PoolInitialization
     else if PoolUpdate \<in> S then PoolUpdate
     else if Pruner \<in> S then Pruner else UnknownClass)"
    (is "Min S = ?c")
proof (rule Min_classI)
  obtain d where "d \<in> S" using assms(2) by blast
  then show "?c \<in> S" by (cases d) auto
  show "specificity ?c \<le> specificity d" if "d \<in> S" for d
    using that by (cases d) auto
qed (rule assms(1))

text \<open>
  C27. The label of an error is that of the most specific class on its chain of wrapped errors,
  wherever on the chain it stands: for every error, \<^verbatim>\<open>determineErrorType\<close> returns the label of
  the minimum, in the order of specificity, of the classes of all links.
\<close>

theorem determineErrorType_most_specific:
  "determineErrorType e = class_label (Min (own_class ` set (chain e)))"
proof -
  have "own_class ` set (chain e) \<noteq> {}" by simp
  then show ?thesis
    by (subst Min_class) (simp_all add: determineErrorType_def errorsAs_class)
qed

text \<open>
  C28. No layer of wrapping hides the cause: the message of every error on the chain is a suffix
  of the message of the whole error, for every type of error, block number and address format.
\<close>

theorem Error_keeps_causes:
  "list_all (\<lambda>e'. suffix (Error hex e') (Error hex e)) (chain e)"
proof (induction e rule: chain.induct)
  case (1 e)
  show ?case
  proof (cases "Unwrap e")
    case None
    then show ?thesis by (simp add: chain_Unwrap_None)
  next
    case (Some e')
    have "suffix (Error hex e') (Error hex e)"
      using Some by (cases e) (auto simp: suffix_def)
    moreover have "list_all (\<lambda>e''. suffix (Error hex e'') (Error hex e')) (chain e')"
      using 1 Some by blast
    ultimately have "list_all (\<lambda>e''. suffix (Error hex e'') (Error hex e)) (chain e')"
      by (auto simp: list_all_iff intro: suffix_order.trans)
    with Some show ?thesis by (simp add: chain_Unwrap_Some)
  qed
qed

text \<open>Adding a wrapper that has no class of its own keeps the label.\<close>

lemma determineErrorType_Errorf [simp]: "determineErrorType (Errorf ps e) = determineErrorType e"
  unfolding determineErrorType_def errorsAs_chain
  by (simp add: chain_Unwrap_Some)

end
