(* ===== verification/Registry.thy ===== *)
theory Registry
  imports Errors
begin

text \<open>
  The in-memory registry of \<^verbatim>\<open>src/registry.go\<close>: seven parallel columns and an index from pool
  IDs to positions, with the operations that add, update, delete, view and find pools. The
  registry's own reserves are non-nil by construction (each is made by \<^verbatim>\<open>big.NewInt\<close> or
  \<^verbatim>\<open>new(big.Int)\<close> and changed by \<^verbatim>\<open>Set\<close>), so its reserve columns hold integers; the reserves
  of a \<^verbatim>\<open>PoolView\<close> come from and go to the outside and may be nil.
\<close>

section \<open>State and operations\<close>

record PoolView =
  ID :: u64
  Token0 :: u64
  Token1 :: u64
  Reserve0 :: bigptr
  Reserve1 :: bigptr
  Type :: u8
  FeeBps :: u16

text \<open>The columns, for any representation \<open>'r\<close> of a reserve. As a value it is an integer; the
  theory \<open>Heap_Registry\<close> takes pointers.\<close>

record 'r Columns =
  ids :: "u64 list"
  token0 :: "u64 list"
  token1 :: "u64 list"
  reserve0 :: "'r list"
  reserve1 :: "'r list"
  pooltype :: "u8 list"
  fee :: "u16 list"
  idToIndex :: "u64 \<rightharpoonup> nat"

type_synonym UniswapV2Registry = "int Columns"

definition NewUniswapV2Registry :: UniswapV2Registry where
  "NewUniswapV2Registry =
     \<lparr>ids = [], token0 = [], token1 = [], reserve0 = [], reserve1 = [], pooltype = [], fee = [],
      idToIndex = Map.empty\<rparr>"

text \<open>The loop of \<^verbatim>\<open>NewUniswapV2RegistryFromViews\<close>: view number \<open>i\<close> fills row \<open>i\<close> of the
  preallocated columns; a nil reserve in a view panics in \<^verbatim>\<open>Set\<close>.\<close>

definition fill_row :: "nat \<times> PoolView \<Rightarrow> UniswapV2Registry \<Rightarrow> UniswapV2Registry go" where
  "fill_row = (\<lambda>(i, view) r. do {
     cid \<leftarrow> set_idx (ids r) i (ID view);
     ct0 \<leftarrow> set_idx (token0 r) i (Token0 view);
     ct1 \<leftarrow> set_idx (token1 r) i (Token1 view);
     cty \<leftarrow> set_idx (pooltype r) i (Type view);
     cfee \<leftarrow> set_idx (fee r) i (FeeBps view);
     v0 \<leftarrow> deref (Reserve0 view);
     cr0 \<leftarrow> set_idx (reserve0 r) i v0;
     v1 \<leftarrow> deref (Reserve1 view);
     cr1 \<leftarrow> set_idx (reserve1 r) i v1;
     Some \<lparr>ids = cid, token0 = ct0, token1 = ct1, reserve0 = cr0, reserve1 = cr1,
           pooltype = cty, fee = cfee, idToIndex = (idToIndex r)(ID view \<mapsto> i)\<rparr> })"

definition NewUniswapV2RegistryFromViews :: "PoolView list \<Rightarrow> UniswapV2Registry go" where
  "NewUniswapV2RegistryFromViews views =
     (if views = [] then Some NewUniswapV2Registry
      else let n = length views in
        foldM fill_row (enumerate 0 views)
          \<lparr>ids = replicate n 0, token0 = replicate n 0, token1 = replicate n 0,
           reserve0 = replicate n 0, reserve1 = replicate n 0, pooltype = replicate n 0,
           fee = replicate n 0, idToIndex = Map.empty\<rparr>)"

text \<open>
  The identifier lookups the registry is given: an ID or an error. A pool lookup only reads. A
  token lookup may allocate an ID for a token it sees for the first time, as the persistence of
  the test suite does, so it takes and returns the outside world.
\<close>

type_synonym to_id = "address \<Rightarrow> go_error + u64"
type_synonym 'w token_to_id = "'w \<Rightarrow> address \<Rightarrow> 'w \<times> (go_error + u64)"

definition addPool ::
  "address \<Rightarrow> address \<Rightarrow> address \<Rightarrow> u8 \<Rightarrow> u16 \<Rightarrow> 'w token_to_id \<Rightarrow> to_id \<Rightarrow> 'w \<Rightarrow> UniswapV2Registry
     \<Rightarrow> 'w \<times> UniswapV2Registry \<times> go_error option" where
  "addPool t0 t1 pool poolType feeBps tokenAddressToID poolAddressToID w r =
     (case poolAddressToID pool of
        Inl err \<Rightarrow> (w, r, Some (DependencyError ''poolAddressToID'' pool err))
      | Inr poolID \<Rightarrow>
        if idToIndex r poolID \<noteq> None then (w, r, Some ErrPoolExists)
        else (case tokenAddressToID w t0 of
          (w1, Inl err) \<Rightarrow> (w1, r, Some (DependencyError ''tokenAddressToID'' t0 err))
        | (w1, Inr tokenID0) \<Rightarrow>
          (case tokenAddressToID w1 t1 of
            (w2, Inl err) \<Rightarrow> (w2, r, Some (DependencyError ''tokenAddressToID'' t1 err))
          | (w2, Inr tokenID1) \<Rightarrow>
            (let newIndex = length (ids r @ [poolID]) - 1 in
             (w2,
              \<lparr>ids = ids r @ [poolID], token0 = token0 r @ [tokenID0],
               token1 = token1 r @ [tokenID1], reserve0 = reserve0 r @ [0],
               reserve1 = reserve1 r @ [0], pooltype = pooltype r @ [poolType],
               fee = fee r @ [feeBps], idToIndex = (idToIndex r)(poolID \<mapsto> newIndex)\<rparr>, None)))))"

definition updatePool ::
  "bigptr \<Rightarrow> bigptr \<Rightarrow> u64 \<Rightarrow> UniswapV2Registry \<Rightarrow> (UniswapV2Registry \<times> go_error option) go" where
  "updatePool r0 r1 poolID r =
     (case idToIndex r poolID of
        None \<Rightarrow> Some (r, Some ErrPoolNotFound)
      | Some index \<Rightarrow> do {
          v0 \<leftarrow> deref r0;
          c0 \<leftarrow> set_idx (reserve0 r) index v0;
          v1 \<leftarrow> deref r1;
          c1 \<leftarrow> set_idx (reserve1 r) index v1;
          Some (r\<lparr>reserve0 := c0, reserve1 := c1\<rparr>, None) })"

text \<open>\<^verbatim>\<open>xs[i] = xs[j]\<close>\<close>

definition copy_within :: "'a list \<Rightarrow> nat \<Rightarrow> nat \<Rightarrow> 'a list go" where
  "copy_within xs i j = do { x \<leftarrow> idx xs j; set_idx xs i x }"

text \<open>The swap-with-last branch of \<^verbatim>\<open>deletePool\<close>: the last row moves into the hole.\<close>

definition move_last ::
  "nat \<Rightarrow> nat \<Rightarrow> u64 \<Rightarrow> 'r Columns \<Rightarrow> 'r Columns go" where
  "move_last i l lastPoolID r = do {
     cid \<leftarrow> set_idx (ids r) i lastPoolID;
     ct0 \<leftarrow> copy_within (token0 r) i l;
     ct1 \<leftarrow> copy_within (token1 r) i l;
     cr0 \<leftarrow> copy_within (reserve0 r) i l;
     cr1 \<leftarrow> copy_within (reserve1 r) i l;
     cty \<leftarrow> copy_within (pooltype r) i l;
     cfee \<leftarrow> copy_within (fee r) i l;
     Some \<lparr>ids = cid, token0 = ct0, token1 = ct1, reserve0 = cr0, reserve1 = cr1,
           pooltype = cty, fee = cfee, idToIndex = (idToIndex r)(lastPoolID \<mapsto> i)\<rparr> }"

text \<open>The truncation of every column to \<open>l\<close> rows.\<close>

definition truncate_columns :: "nat \<Rightarrow> 'r Columns \<Rightarrow> 'r Columns go" where
  "truncate_columns l r = do {
     cid \<leftarrow> slice_to (ids r) l;
     ct0 \<leftarrow> slice_to (token0 r) l;
     ct1 \<leftarrow> slice_to (token1 r) l;
     cr0 \<leftarrow> slice_to (reserve0 r) l;
     cr1 \<leftarrow> slice_to (reserve1 r) l;
     cty \<leftarrow> slice_to (pooltype r) l;
     cfee \<leftarrow> slice_to (fee r) l;
     Some \<lparr>ids = cid, token0 = ct0, token1 = ct1, reserve0 = cr0, reserve1 = cr1,
           pooltype = cty, fee = cfee, idToIndex = idToIndex r\<rparr> }"

text \<open>On an empty registry \<^verbatim>\<open>lastIndex\<close> is \<open>- 1\<close> in Go and \<open>0\<close> here; reading the ID
  there panics in both.\<close>

definition deletePool ::
  "u64 \<Rightarrow> 'r Columns \<Rightarrow> ('r Columns \<times> go_error option) go" where
  "deletePool poolID r =
     (case idToIndex r poolID of
        None \<Rightarrow> Some (r, Some ErrPoolNotFound)
      | Some indexToDelete \<Rightarrow> do {
          let lastIndex = length (ids r) - 1;
          lastPoolID \<leftarrow> idx (ids r) lastIndex;
          r1 \<leftarrow> (if indexToDelete \<noteq> lastIndex then move_last indexToDelete lastIndex lastPoolID r
                 else Some r);
          r2 \<leftarrow> truncate_columns lastIndex
                  (r1\<lparr>idToIndex := (idToIndex r1)(poolID := None)\<rparr>);
          Some (r2, None) })"

text \<open>The view of one row; \<^verbatim>\<open>new(big.Int).Set\<close> copies the reserves.\<close>

definition row_view :: "UniswapV2Registry \<Rightarrow> nat \<Rightarrow> PoolView go" where
  "row_view r i = do {
     k \<leftarrow> idx (ids r) i;
     t0 \<leftarrow> idx (token0 r) i;
     t1 \<leftarrow> idx (token1 r) i;
     v0 \<leftarrow> idx (reserve0 r) i;
     v1 \<leftarrow> idx (reserve1 r) i;
     ty \<leftarrow> idx (pooltype r) i;
     f \<leftarrow> idx (fee r) i;
     Some \<lparr>ID = k, Token0 = t0, Token1 = t1, Reserve0 = Some v0, Reserve1 = Some v1,
           Type = ty, FeeBps = f\<rparr> }"

text \<open>A nil slice of views is the empty list.\<close>

definition viewRegistry :: "UniswapV2Registry \<Rightarrow> PoolView list go" where
  "viewRegistry r =
     (let numPools = length (ids r) in
      if numPools = 0 then Some [] else those (map (row_view r) [0..<numPools]))"

definition getPoolById :: "u64 \<Rightarrow> UniswapV2Registry \<Rightarrow> (go_error + PoolView) go" where
  "getPoolById poolID r =
     (case idToIndex r poolID of
        None \<Rightarrow> Some (Inl ErrPoolNotFound)
      | Some index \<Rightarrow> do { v \<leftarrow> row_view r index; Some (Inr v) })"

definition hasPool :: "u64 \<Rightarrow> 'r Columns \<Rightarrow> bool" where
  "hasPool poolID r \<longleftrightarrow> idToIndex r poolID \<noteq> None"

section \<open>Invariants and closed forms\<close>

text \<open>All seven columns have as many rows as there are IDs.\<close>

definition columns_ok :: "'r Columns \<Rightarrow> bool" where
  "columns_ok r \<longleftrightarrow> length (token0 r) = length (ids r) \<and> length (token1 r) = length (ids r) \<and>
     length (reserve0 r) = length (ids r) \<and> length (reserve1 r) = length (ids r) \<and>
     length (pooltype r) = length (ids r) \<and> length (fee r) = length (ids r)"

text \<open>
  \<open>registry_safe\<close>: every index entry points at a row that holds its ID. It holds of every
  registry the code can build, also of one loaded from a snapshot that repeats an ID.
  \<open>registry_wf\<close>: moreover every row is the one its ID is mapped to, so no ID occurs twice.
\<close>

definition registry_safe :: "'r Columns \<Rightarrow> bool" where
  "registry_safe r \<longleftrightarrow> columns_ok r \<and>
     (\<forall>k i. idToIndex r k = Some i \<longrightarrow> i < length (ids r) \<and> ids r ! i = k)"

definition registry_wf :: "'r Columns \<Rightarrow> bool" where
  "registry_wf r \<longleftrightarrow> registry_safe r \<and>
     (\<forall>i < length (ids r). idToIndex r (ids r ! i) = Some i)"

lemma registry_wf_safe [intro]: "registry_wf r \<Longrightarrow> registry_safe r"
  by (simp add: registry_wf_def)

lemma registry_safeI:
  assumes "columns_ok r"
    and "\<And>k i. idToIndex r k = Some i \<Longrightarrow> i < length (ids r) \<and> ids r ! i = k"
  shows "registry_safe r"
  using assms by (simp add: registry_safe_def)

lemma registry_safe_columns_ok: "registry_safe r \<Longrightarrow> columns_ok r"
  by (simp add: registry_safe_def)

lemma registry_safe_columns [simp]:
  assumes "registry_safe r"
  shows "length (token0 r) = length (ids r)" "length (token1 r) = length (ids r)"
    "length (reserve0 r) = length (ids r)" "length (reserve1 r) = length (ids r)"
    "length (pooltype r) = length (ids r)" "length (fee r) = length (ids r)"
  using assms by (simp_all add: registry_safe_def columns_ok_def)

lemma registry_safe_indexD:
  "registry_safe r \<Longrightarrow> idToIndex r k = Some i \<Longrightarrow> i < length (ids r) \<and> ids r ! i = k"
  by (simp add: registry_safe_def)

lemma registry_wf_index:
  "registry_wf r \<Longrightarrow> idToIndex r k = Some i \<longleftrightarrow> i < length (ids r) \<and> ids r ! i = k"
  by (auto simp: registry_wf_def dest: registry_safe_indexD)

lemma registry_wf_distinct: "registry_wf r \<Longrightarrow> distinct (ids r)"
  unfolding registry_wf_def distinct_conv_nth by (metis option.inject)

lemma registry_wf_dom: "registry_wf r \<Longrightarrow> dom (idToIndex r) = set (ids r)"
  by (auto simp: registry_wf_index in_set_conv_nth dom_def)

lemma registry_wf_iff_distinct:
  assumes "registry_safe r"
  shows "registry_wf r \<longleftrightarrow> distinct (ids r) \<and> set (ids r) \<subseteq> dom (idToIndex r)"
proof
  assume "registry_wf r"
  then show "distinct (ids r) \<and> set (ids r) \<subseteq> dom (idToIndex r)"
    by (simp add: registry_wf_distinct registry_wf_dom)
next
  assume *: "distinct (ids r) \<and> set (ids r) \<subseteq> dom (idToIndex r)"
  have "idToIndex r (ids r ! i) = Some i" if i: "i < length (ids r)" for i
  proof -
    have "ids r ! i \<in> set (ids r)" using i by simp
    with * obtain j where j: "idToIndex r (ids r ! i) = Some j" by blast
    with assms have "j < length (ids r)" "ids r ! j = ids r ! i"
      by (auto dest: registry_safe_indexD)
    with i * have "j = i" by (simp add: nth_eq_iff_index_eq)
    with j show ?thesis by simp
  qed
  with assms show "registry_wf r" by (simp add: registry_wf_def)
qed

lemma NewUniswapV2Registry_wf [simp]: "registry_wf NewUniswapV2Registry"
  by (simp add: registry_wf_def registry_safe_def columns_ok_def NewUniswapV2Registry_def)

text \<open>Row \<open>i\<close> as a view, and the registry as a map from IDs to views.\<close>

definition row :: "UniswapV2Registry \<Rightarrow> nat \<Rightarrow> PoolView" where
  "row r i = \<lparr>ID = ids r ! i, Token0 = token0 r ! i, Token1 = token1 r ! i,
     Reserve0 = Some (reserve0 r ! i), Reserve1 = Some (reserve1 r ! i),
     Type = pooltype r ! i, FeeBps = fee r ! i\<rparr>"

definition pools_of :: "UniswapV2Registry \<Rightarrow> u64 \<rightharpoonup> PoolView" where
  "pools_of r k = map_option (row r) (idToIndex r k)"

lemma ID_row [simp]: "ID (row r i) = ids r ! i"
  by (simp add: row_def)

lemma reserves_row [simp]:
  "Reserve0 (row r i) = Some (reserve0 r ! i)" "Reserve1 (row r i) = Some (reserve1 r ! i)"
  by (simp_all add: row_def)

lemma row_view_eq: "registry_safe r \<Longrightarrow> i < length (ids r) \<Longrightarrow> row_view r i = Some (row r i)"
  by (simp add: row_view_def row_def)

lemma viewRegistry_eq:
  "registry_safe r \<Longrightarrow> viewRegistry r = Some (map (row r) [0..<length (ids r)])"
  using those_map_total [of "[0..<length (ids r)]" "row_view r" "row r"]
  by (simp add: viewRegistry_def row_view_eq)

lemma getPoolById_eq:
  assumes "registry_safe r"
  shows "getPoolById k r =
    Some (case pools_of r k of None \<Rightarrow> Inl ErrPoolNotFound | Some v \<Rightarrow> Inr v)"
  using assms registry_safe_indexD [OF assms, of k]
  by (auto simp: getPoolById_def pools_of_def row_view_eq split: option.split)

lemma hasPool_iff: "hasPool k r \<longleftrightarrow> pools_of r k \<noteq> None"
  by (simp add: hasPool_def pools_of_def)

lemma pools_of_ID: "registry_safe r \<Longrightarrow> pools_of r k = Some v \<Longrightarrow> ID v = k"
  by (auto simp: pools_of_def dest: registry_safe_indexD)

lemma pools_of_reserves:
  "pools_of r k = Some v \<Longrightarrow> Reserve0 v \<noteq> None \<and> Reserve1 v \<noteq> None"
  by (auto simp: pools_of_def)

text \<open>Adding a pool.\<close>

lemma pools_of_empty [simp]: "pools_of NewUniswapV2Registry = Map.empty"
  by (rule ext) (simp add: pools_of_def NewUniswapV2Registry_def)

definition append_row :: "UniswapV2Registry \<Rightarrow> u64 \<Rightarrow> u64 \<Rightarrow> u64 \<Rightarrow> u8 \<Rightarrow> u16 \<Rightarrow> UniswapV2Registry" where
  "append_row r k a b ty f =
     \<lparr>ids = ids r @ [k], token0 = token0 r @ [a], token1 = token1 r @ [b],
      reserve0 = reserve0 r @ [0], reserve1 = reserve1 r @ [0], pooltype = pooltype r @ [ty],
      fee = fee r @ [f], idToIndex = (idToIndex r)(k \<mapsto> length (ids r))\<rparr>"

lemma append_row_safe:
  assumes "registry_safe r"
  shows "registry_safe (append_row r k a b ty f)"
proof (rule registry_safeI)
  show "columns_ok (append_row r k a b ty f)"
    using assms by (simp add: columns_ok_def append_row_def)
  show "i < length (ids (append_row r k a b ty f)) \<and> ids (append_row r k a b ty f) ! i = j"
    if "idToIndex (append_row r k a b ty f) j = Some i" for i j
    using that registry_safe_indexD [OF assms, of j i]
    by (auto simp: append_row_def nth_append split: if_splits)
qed

lemma append_row_wf:
  assumes "registry_wf r" and "idToIndex r k = None"
  shows "registry_wf (append_row r k a b ty f)"
proof -
  have "ids r ! i \<noteq> k" if "i < length (ids r)" for i
    using assms that by (auto simp: registry_wf_def)
  with assms show ?thesis
    by (auto simp: registry_wf_def append_row_safe)
      (auto simp: append_row_def nth_append less_Suc_eq)
qed

lemma pools_of_append_row:
  assumes "registry_safe r"
  shows "pools_of (append_row r k a b ty f) = (pools_of r)(k \<mapsto>
     \<lparr>ID = k, Token0 = a, Token1 = b, Reserve0 = Some 0, Reserve1 = Some 0,
      Type = ty, FeeBps = f\<rparr>)"
proof
  fix j
  show "pools_of (append_row r k a b ty f) j = ((pools_of r)(k \<mapsto>
     \<lparr>ID = k, Token0 = a, Token1 = b, Reserve0 = Some 0, Reserve1 = Some 0,
      Type = ty, FeeBps = f\<rparr>)) j"
    using assms registry_safe_indexD [OF assms, of j]
    by (cases "idToIndex r j") (auto simp: pools_of_def append_row_def row_def nth_append)
qed

text \<open>Setting the reserves of row \<open>i\<close>.\<close>

definition set_reserves :: "UniswapV2Registry \<Rightarrow> nat \<Rightarrow> int \<Rightarrow> int \<Rightarrow> UniswapV2Registry" where
  "set_reserves r i a b = r\<lparr>reserve0 := (reserve0 r)[i := a], reserve1 := (reserve1 r)[i := b]\<rparr>"

lemma updatePool_eq:
  assumes "registry_safe r" and "idToIndex r k = Some i"
  shows "updatePool (Some a) (Some b) k r = Some (set_reserves r i a b, None)"
  using assms by (simp add: updatePool_def set_reserves_def registry_safe_indexD)

lemma updatePool_missing: "idToIndex r k = None \<Longrightarrow> updatePool p q k r = Some (r, Some ErrPoolNotFound)"
  by (simp add: updatePool_def)

lemma set_reserves_index [simp]:
  "ids (set_reserves r i a b) = ids r" "idToIndex (set_reserves r i a b) = idToIndex r"
  by (simp_all add: set_reserves_def)

lemma set_reserves_safe: "registry_safe r \<Longrightarrow> registry_safe (set_reserves r i a b)"
  by (rule registry_safeI) (simp_all add: columns_ok_def set_reserves_def registry_safe_indexD)

lemma set_reserves_wf: "registry_wf r \<Longrightarrow> registry_wf (set_reserves r i a b)"
  by (simp add: registry_wf_def set_reserves_safe)

lemma row_set_reserves:
  assumes "registry_safe r" and "i < length (ids r)"
  shows "row (set_reserves r i a b) j =
    (if j = i then (row r i)\<lparr>Reserve0 := Some a, Reserve1 := Some b\<rparr> else row r j)"
  using assms by (simp add: row_def set_reserves_def)

lemma pools_of_set_reserves:
  assumes "registry_safe r" and "idToIndex r k = Some i"
  shows "pools_of (set_reserves r i a b) =
    (pools_of r)(k \<mapsto> (row r i)\<lparr>Reserve0 := Some a, Reserve1 := Some b\<rparr>)"
proof
  fix j
  have "i < length (ids r)" "ids r ! i = k"
    using registry_safe_indexD [OF assms] by simp_all
  then show "pools_of (set_reserves r i a b) j =
      ((pools_of r)(k \<mapsto> (row r i)\<lparr>Reserve0 := Some a, Reserve1 := Some b\<rparr>)) j"
    using assms registry_safe_indexD [OF assms(1), of j]
    by (cases "idToIndex r j") (auto simp: pools_of_def row_set_reserves)
qed

section \<open>Deletion\<close>

text \<open>Removing position \<open>i\<close> by moving the last element into it.\<close>

definition swap_remove :: "'a list \<Rightarrow> nat \<Rightarrow> 'a list" where
  "swap_remove xs i = take (length xs - 1) (xs[i := xs ! (length xs - 1)])"

lemma length_swap_remove [simp]: "length (swap_remove xs i) = length xs - 1"
  by (simp add: swap_remove_def)

lemma nth_swap_remove:
  "j < length xs - 1 \<Longrightarrow>
   swap_remove xs i ! j = (if j = i then xs ! (length xs - 1) else xs ! j)"
  by (simp add: swap_remove_def nth_list_update)

lemma swap_remove_last: "swap_remove xs (length xs - 1) = butlast xs"
  by (simp add: swap_remove_def butlast_conv_take list_update_id)

lemma mset_swap_remove:
  assumes "i < length xs"
  shows "mset (swap_remove xs i) = mset xs - {#xs ! i#}"
proof -
  define l where "l = length xs - 1"
  have l: "l < length xs" using assms by (simp add: l_def)
  have "mset (xs[i := xs ! l]) = add_mset (xs ! l) (mset xs - {#xs ! i#})"
    using assms by (rule mset_update)
  moreover have "xs[i := xs ! l] = swap_remove xs i @ [xs ! l]"
  proof -
    have "xs[i := xs ! l] = take l (xs[i := xs ! l]) @ [xs[i := xs ! l] ! l]"
      using l by (metis append_take_drop_id take_Suc_conv_app_nth length_list_update l_def
          Suc_diff_1 length_greater_0_conv less_nat_zero_code list.size(3) take_all_iff le_refl)
    moreover have "xs[i := xs ! l] ! l = xs ! l"
      using l by (cases "i = l") simp_all
    ultimately show ?thesis by (simp add: swap_remove_def l_def)
  qed
  ultimately show ?thesis by simp
qed

text \<open>What \<^verbatim>\<open>deletePool\<close> leaves of a registry when the ID stands at position \<open>i\<close>.\<close>

definition drop_row :: "'r Columns \<Rightarrow> u64 \<Rightarrow> nat \<Rightarrow> 'r Columns" where
  "drop_row r k i =
     \<lparr>ids = swap_remove (ids r) i, token0 = swap_remove (token0 r) i,
      token1 = swap_remove (token1 r) i, reserve0 = swap_remove (reserve0 r) i,
      reserve1 = swap_remove (reserve1 r) i, pooltype = swap_remove (pooltype r) i,
      fee = swap_remove (fee r) i,
      idToIndex =
        (let l = length (ids r) - 1 in
         (if i \<noteq> l then (idToIndex r)(ids r ! l \<mapsto> i) else idToIndex r)(k := None))\<rparr>"

lemma move_last_eq:
  assumes "registry_safe r" and "i < length (ids r)"
  shows "move_last i (length (ids r) - 1) x r =
    Some \<lparr>ids = (ids r)[i := x],
      token0 = (token0 r)[i := token0 r ! (length (ids r) - 1)],
      token1 = (token1 r)[i := token1 r ! (length (ids r) - 1)],
      reserve0 = (reserve0 r)[i := reserve0 r ! (length (ids r) - 1)],
      reserve1 = (reserve1 r)[i := reserve1 r ! (length (ids r) - 1)],
      pooltype = (pooltype r)[i := pooltype r ! (length (ids r) - 1)],
      fee = (fee r)[i := fee r ! (length (ids r) - 1)],
      idToIndex = (idToIndex r)(x \<mapsto> i)\<rparr>"
proof -
  have "length (ids r) - 1 < length (ids r)" using assms(2) by simp
  with assms show ?thesis by (simp add: move_last_def copy_within_def)
qed

lemma deletePool_eq:
  assumes "registry_safe r" and "idToIndex r k = Some i"
  shows "deletePool k r = Some (drop_row r k i, None)"
proof -
  let ?l = "length (ids r) - 1"
  have i: "i < length (ids r)" using registry_safe_indexD [OF assms] by simp
  then have l: "?l < length (ids r)" by simp
  show ?thesis
  proof (cases "i = ?l")
    case True
    have "xs[i := xs ! ?l] = xs" for xs :: "'z list" using True by simp
    with True assms l show ?thesis
      by (simp add: deletePool_def truncate_columns_def drop_row_def swap_remove_def Let_def)
  next
    case False
    then show ?thesis
      using assms l i move_last_eq [OF assms(1) i, of "ids r ! ?l"]
      by (simp add: deletePool_def truncate_columns_def drop_row_def swap_remove_def Let_def)
  qed
qed

lemma deletePool_missing: "idToIndex r k = None \<Longrightarrow> deletePool k r = Some (r, Some ErrPoolNotFound)"
  by (simp add: deletePool_def)

lemma drop_row_index:
  assumes "registry_safe r" and "idToIndex r k = Some i"
    and "idToIndex (drop_row r k i) j = Some m"
  shows "j \<noteq> k" and "m < length (ids r) - 1"
    and "(m = i \<and> j = ids r ! (length (ids r) - 1)) \<or> (m \<noteq> i \<and> idToIndex r j = Some m)"
proof -
  let ?l = "length (ids r) - 1"
  have i: "i < length (ids r)" "ids r ! i = k"
    using registry_safe_indexD [OF assms(1,2)] by simp_all
  from assms(3) show jk: "j \<noteq> k" by (auto simp: drop_row_def Let_def split: if_splits)
  from assms(3) jk consider
      (moved) "i \<noteq> ?l" "j = ids r ! ?l" "m = i"
    | (kept) "i = ?l \<or> j \<noteq> ids r ! ?l" "idToIndex r j = Some m"
    by (auto simp: drop_row_def Let_def split: if_splits)
  then have "m < ?l \<and> ((m = i \<and> j = ids r ! ?l) \<or> (m \<noteq> i \<and> idToIndex r j = Some m))"
  proof cases
    case moved
    with i show ?thesis by simp
  next
    case kept
    then have "m < length (ids r)" "ids r ! m = j"
      using assms(1) by (auto dest: registry_safe_indexD)
    with kept jk i have "m \<noteq> ?l" "m \<noteq> i" by auto
    with kept \<open>m < length (ids r)\<close> show ?thesis by simp
  qed
  then show "m < ?l" "(m = i \<and> j = ids r ! ?l) \<or> (m \<noteq> i \<and> idToIndex r j = Some m)"
    by simp_all
qed

lemma ids_drop_row [simp]: "ids (drop_row r k i) = swap_remove (ids r) i"
  by (simp add: drop_row_def)

lemma row_drop_row:
  assumes "registry_safe r" and "m < length (ids r) - 1"
  shows "row (drop_row r k i) m = row r (if m = i then length (ids r) - 1 else m)"
  using assms by (simp add: row_def drop_row_def nth_swap_remove)

lemma drop_row_safe:
  assumes "registry_safe r" and "idToIndex r k = Some i"
  shows "registry_safe (drop_row r k i)"
proof (rule registry_safeI)
  show "columns_ok (drop_row r k i)"
    using assms(1) by (simp add: columns_ok_def drop_row_def)
  show "m < length (ids (drop_row r k i)) \<and> ids (drop_row r k i) ! m = j"
    if "idToIndex (drop_row r k i) j = Some m" for j m
    using drop_row_index [OF assms that] registry_safe_indexD [OF assms(1), of j m]
    by (auto simp: nth_swap_remove)
qed

lemma drop_row_wf:
  assumes "registry_wf r" and "idToIndex r k = Some i"
  shows "registry_wf (drop_row r k i)"
proof -
  let ?l = "length (ids r) - 1"
  have i: "i < length (ids r)" "ids r ! i = k"
    using assms by (simp_all add: registry_wf_index)
  have "idToIndex (drop_row r k i) (ids (drop_row r k i) ! m) = Some m" if m: "m < ?l" for m
  proof -
    let ?j = "ids r ! (if m = i then ?l else m)"
    have "?j \<noteq> k" "m \<noteq> i \<Longrightarrow> ?j \<noteq> ids r ! ?l"
      using i m registry_wf_distinct [OF assms(1)] by (auto simp: nth_eq_iff_index_eq)
    moreover have "m \<noteq> i \<Longrightarrow> idToIndex r ?j = Some m"
      using assms(1) m by (simp add: registry_wf_index)
    ultimately show ?thesis
      using m by (auto simp: drop_row_def nth_swap_remove Let_def)
  qed
  with assms show ?thesis
    by (simp add: registry_wf_def drop_row_safe)
qed

lemma pools_of_drop_row:
  assumes "registry_wf r" and "idToIndex r k = Some i"
  shows "pools_of (drop_row r k i) = (pools_of r)(k := None)"
proof
  fix j
  let ?r = "drop_row r k i" and ?l = "length (ids r) - 1"
  have safe: "registry_safe r" using assms(1) by blast
  show "pools_of ?r j = ((pools_of r)(k := None)) j"
  proof (cases "idToIndex ?r j")
    case (Some m)
    note D = drop_row_index [OF safe assms(2) Some]
    have "idToIndex r (ids r ! ?l) = Some ?l"
      using assms by (auto simp: registry_wf_index)
    with D Some show ?thesis
      by (auto simp: pools_of_def row_drop_row [OF safe])
  next
    case None
    have "idToIndex r j = None" if "j \<noteq> k"
    proof (rule ccontr)
      assume "idToIndex r j \<noteq> None"
      then obtain m where m: "idToIndex r j = Some m" by blast
      with None that show False
        by (auto simp: drop_row_def Let_def split: if_splits)
    qed
    with None show ?thesis by (simp add: pools_of_def)
  qed
qed

end
