(* ===== verification/Bytes.thy ===== *)
theory Bytes
  imports Prelude
begin

text \<open>
  The big-endian reading of byte slices, \<^verbatim>\<open>new(big.Int).SetBytes\<close> of \<^verbatim>\<open>math/big\<close>, which
  the log parser and both RPC readers apply to 32-byte ABI words, with its inverse for the
  round-trip and bound theorems.
\<close>

definition SetBytes :: "byte list \<Rightarrow> int" where
  "SetBytes bs = foldl (\<lambda>acc b. acc * 256 + uint b) 0 bs"

text \<open>The \<open>n\<close>-byte big-endian encoding of a non-negative integer, as the ABI lays out a word.\<close>

fun be_bytes :: "nat \<Rightarrow> int \<Rightarrow> byte list" where
  "be_bytes 0 x = []"
| "be_bytes (Suc n) x = be_bytes n (x div 256) @ [word_of_int (x mod 256)]"

lemma SetBytes_Nil [simp]: "SetBytes [] = 0"
  by (simp add: SetBytes_def)

lemma SetBytes_snoc [simp]: "SetBytes (bs @ [b]) = SetBytes bs * 256 + uint b"
  by (simp add: SetBytes_def)

lemma length_be_bytes [simp]: "length (be_bytes n x) = n"
  by (induction n arbitrary: x) auto

lemma uint_byte_bounds: "0 \<le> uint (b :: byte)" "uint (b :: byte) < 256"
  using uint_lt2p [of b] by simp_all

lemma uint_byte_mod: "uint (word_of_int (x mod 256) :: byte) = x mod 256"
  by (simp add: uint_word_of_int)

lemma SetBytes_be_bytes: "0 \<le> x \<Longrightarrow> x < 256 ^ n \<Longrightarrow> SetBytes (be_bytes n x) = x"
proof (induction n arbitrary: x)
  case 0
  then show ?case by simp
next
  case (Suc n)
  from Suc.prems have "0 \<le> x div 256" "x div 256 < 256 ^ n" by auto
  then have "SetBytes (be_bytes n (x div 256)) = x div 256" by (rule Suc.IH)
  then show ?case by (simp add: uint_byte_mod)
qed

lemma SetBytes_bounds: "0 \<le> SetBytes bs \<and> SetBytes bs < 256 ^ length bs"
proof (induction bs rule: rev_induct)
  case Nil
  then show ?case by simp
next
  case (snoc b bs)
  have "0 \<le> uint b" "uint b < 256" by (rule uint_byte_bounds)+
  with snoc show ?case by (simp add: power_add)
qed

lemma be_bytes_SetBytes: "be_bytes (length bs) (SetBytes bs) = bs"
proof (induction bs rule: rev_induct)
  case Nil
  then show ?case by simp
next
  case (snoc b bs)
  have "0 \<le> uint b" "uint b < 256" by (rule uint_byte_bounds)+
  then have "(SetBytes bs * 256 + uint b) div 256 = SetBytes bs"
    "(SetBytes bs * 256 + uint b) mod 256 = uint b"
    by auto
  with snoc show ?case by simp
qed

lemma SetBytes_inj: "length bs = length cs \<Longrightarrow> SetBytes bs = SetBytes cs \<Longrightarrow> bs = cs"
  by (metis be_bytes_SetBytes)

end
