(* ===== verification/Logs.thy ===== *)
theory Logs
  imports Bytes Errors "HOL-Library.AList"
begin

text \<open>
  The log parsers of \<^verbatim>\<open>src/logs\<close>: \<^verbatim>\<open>DiscoverPools\<close>, \<^verbatim>\<open>UpdatedInBlock\<close> and
  \<^verbatim>\<open>SwapEventInBloom\<close>. The event topics \<^verbatim>\<open>UniswapV2SwapEvent\<close> and \<^verbatim>\<open>UniswapV2SyncEvent\<close>
  are computed from the ABI by a third-party package and are parameters; so is the membership
  test of a bloom filter. Both parsers end by ranging over a map, so they take the iteration
  order as an argument.
\<close>

section \<open>The parsers\<close>

text \<open>The fields of \<^verbatim>\<open>types.Log\<close> the parsers read.\<close>

record Log =
  Address :: address
  Topics :: "hash list"
  Data :: "byte list"

definition SwapEventInBloom :: "(bloom \<Rightarrow> hash \<Rightarrow> bool) \<Rightarrow> hash \<Rightarrow> bloom \<Rightarrow> bool" where
  "SwapEventInBloom bloomTest swapEvent b = bloomTest b swapEvent"

text \<open>\<^verbatim>\<open>m[k] = struct{}{}\<close> on the keys of a set-like map, in insertion order.\<close>

definition add_key :: "'a \<Rightarrow> 'a list \<Rightarrow> 'a list" where
  "add_key k ks = (if k \<in> set ks then ks else ks @ [k])"

fun discover_loop :: "hash \<Rightarrow> Log list \<Rightarrow> address list \<Rightarrow> address list" where
  "discover_loop swapEvent [] discovered = discovered"
| "discover_loop swapEvent (l # ls) discovered =
     discover_loop swapEvent ls
       (if length (Topics l) > 0 \<and> Topics l ! 0 = swapEvent then add_key (Address l) discovered
        else discovered)"

definition DiscoverPools ::
  "hash \<Rightarrow> (address list \<Rightarrow> address list) \<Rightarrow> Log list \<Rightarrow> address list \<times> go_error option" where
  "DiscoverPools swapEvent ord logs = (ord (discover_loop swapEvent logs []), None)"

record syncData =
  sd_reserve0 :: int
  sd_reserve1 :: int

text \<open>The loop of \<^verbatim>\<open>UpdatedInBlock\<close>: \<^verbatim>\<open>latestSyncs\<close> as an association list in insertion
  order. With 64 bytes of data the two slices are in range.\<close>

fun sync_loop :: "hash \<Rightarrow> Log list \<Rightarrow> (address \<times> syncData) list \<Rightarrow> (address \<times> syncData) list" where
  "sync_loop syncEvent [] latest = latest"
| "sync_loop syncEvent (l # ls) latest =
     sync_loop syncEvent ls
       (if length (Topics l) = 1 \<and> Topics l ! 0 = syncEvent then
          (if length (Data l) \<noteq> 64 then latest
           else AList.update (Address l)
                  \<lparr>sd_reserve0 = SetBytes (take 32 (Data l)),
                   sd_reserve1 = SetBytes (drop 32 (Data l))\<rparr> latest)
        else latest)"

definition UpdatedInBlock ::
  "hash \<Rightarrow> ((address \<times> syncData) list \<Rightarrow> (address \<times> syncData) list) \<Rightarrow> Log list
     \<Rightarrow> (address list \<times> bigptr list \<times> bigptr list) \<times> go_error option" where
  "UpdatedInBlock syncEvent ord logs =
     (let latestSyncs = sync_loop syncEvent logs [] in
      if length latestSyncs = 0 then (([], [], []), None)
      else let entries = ord latestSyncs in
        ((map fst entries, map (\<lambda>e. Some (sd_reserve0 (snd e))) entries,
          map (\<lambda>e. Some (sd_reserve1 (snd e))) entries), None))"

section \<open>What they find\<close>

definition is_swap :: "hash \<Rightarrow> Log \<Rightarrow> bool" where
  "is_swap swapEvent l \<longleftrightarrow> Topics l \<noteq> [] \<and> hd (Topics l) = swapEvent"

definition is_sync :: "hash \<Rightarrow> Log \<Rightarrow> bool" where
  "is_sync syncEvent l \<longleftrightarrow> Topics l = [syncEvent] \<and> length (Data l) = 64"

definition decode_sync :: "Log \<Rightarrow> syncData" where
  "decode_sync l = \<lparr>sd_reserve0 = SetBytes (take 32 (Data l)), sd_reserve1 = SetBytes (drop 32 (Data l))\<rparr>"

text \<open>The reserves of the last valid Sync log of each pool.\<close>

definition last_sync :: "hash \<Rightarrow> Log list \<Rightarrow> address \<rightharpoonup> bigptr \<times> bigptr" where
  "last_sync syncEvent logs p =
     map_option (\<lambda>l. (Some (sd_reserve0 (decode_sync l)), Some (sd_reserve1 (decode_sync l))))
       (find (\<lambda>l. is_sync syncEvent l \<and> Address l = p) (rev logs))"

lemma set_add_key [simp]: "set (add_key k ks) = insert k (set ks)"
  by (auto simp: add_key_def)

lemma distinct_add_key [simp]: "distinct (add_key k ks) = distinct ks"
  by (simp add: add_key_def)

lemma discover_loop_spec:
  "set (discover_loop ev logs ks) = set ks \<union> Address ` {l \<in> set logs. is_swap ev l}"
  "distinct ks \<Longrightarrow> distinct (discover_loop ev logs ks)"
  by (induction ev logs ks rule: discover_loop.induct)
    (auto simp: is_swap_def hd_conv_nth)

text \<open>
  C22. \<^verbatim>\<open>DiscoverPools\<close> finds exactly the contracts that emitted a Swap event, each once,
  whatever order the map is ranged over, and never fails.
\<close>

theorem DiscoverPools_exact:
  assumes "go_range_order ord"
  shows "\<exists>pools. DiscoverPools ev ord logs = (pools, None) \<and> distinct pools \<and>
    set pools = Address ` {l \<in> set logs. is_swap ev l}"
  using discover_loop_spec [where logs = logs and ks = "[]"]
  by (simp add: DiscoverPools_def go_range_orderD [OF assms])

theorem DiscoverPools_exact_witness:
  "go_range_order rev \<and>
   set (fst (DiscoverPools 7 rev
     [\<lparr>Address = 1, Topics = [7, 3], Data = []\<rparr>, \<lparr>Address = 2, Topics = [8], Data = []\<rparr>,
      \<lparr>Address = 1, Topics = [7], Data = []\<rparr>, \<lparr>Address = 3, Topics = [], Data = []\<rparr>])) = {1}"
proof -
  let ?logs = "[\<lparr>Address = 1, Topics = [7, 3], Data = []\<rparr>, \<lparr>Address = 2, Topics = [8], Data = []\<rparr>,
      \<lparr>Address = 1, Topics = [7], Data = []\<rparr>, \<lparr>Address = 3, Topics = [], Data = []\<rparr>] :: Log list"
  have "Address ` {l \<in> set ?logs. is_swap 7 l} = {1}"
    unfolding set_filter [symmetric] by (simp add: is_swap_def)
  with DiscoverPools_exact [OF go_range_order_rev, of 7 ?logs] go_range_order_rev
  show ?thesis by auto
qed

lemma sync_step:
  "sync_loop ev (l # ls) m =
    sync_loop ev ls (if is_sync ev l then AList.update (Address l) (decode_sync l) m else m)"
  by (auto simp: is_sync_def decode_sync_def length_Suc_conv)

lemma sync_loop_map_of:
  "map_of (sync_loop ev logs m) p =
    (case find (\<lambda>l. is_sync ev l \<and> Address l = p) (rev logs) of
       None \<Rightarrow> map_of m p | Some l \<Rightarrow> Some (decode_sync l))"
proof (induction logs arbitrary: m)
  case Nil
  then show ?case by simp
next
  case (Cons l ls)
  show ?case
    unfolding sync_step Cons.IH
    by (auto simp: find_append update_conv' split: option.split)
qed

lemma sync_loop_distinct:
  "distinct (map fst m) \<Longrightarrow> distinct (map fst (sync_loop ev logs m))"
proof (induction logs arbitrary: m)
  case Nil
  then show ?case by simp
next
  case (Cons l ls)
  then show ?case unfolding sync_step by (simp add: distinct_update)
qed

lemma sync_loop_keys:
  "fst ` set (sync_loop ev logs m) = fst ` set m \<union> Address ` {l \<in> set logs. is_sync ev l}"
proof (induction logs arbitrary: m)
  case Nil
  then show ?case by simp
next
  case (Cons l ls)
  have "fst ` set (AList.update k v m) = insert k (fst ` set m)" for k v
    using dom_update [of k v m] by (simp add: dom_map_of_conv_image_fst)
  then show ?case unfolding sync_step Cons.IH by auto
qed

lemma zip_map3: "zip (map f xs) (zip (map g xs) (map h xs)) = map (\<lambda>x. (f x, g x, h x)) xs"
  by (induction xs) auto

lemma UpdatedInBlock_alist:
  assumes "go_range_order ord"
  obtains es where "UpdatedInBlock ev ord logs =
      ((map fst es, map (\<lambda>e. Some (sd_reserve0 (snd e))) es, map (\<lambda>e. Some (sd_reserve1 (snd e))) es),
       None)"
    "mset es = mset (sync_loop ev logs [])" "distinct (map fst es)"
    "map_of es = map_of (sync_loop ev logs [])"
proof -
  let ?m = "sync_loop ev logs []"
  define es where "es = (if ?m = [] then [] else ord ?m)"
  have d: "distinct (map fst ?m)" by (rule sync_loop_distinct) simp
  have m: "mset es = mset ?m" using assms by (simp add: es_def go_range_order_def)
  then have "mset (map fst es) = mset (map fst ?m)" by simp
  then have de: "distinct (map fst es)" using d by (metis mset_eq_imp_distinct_iff)
  have "set es = set ?m" using m by (rule mset_eq_setD)
  then have "map_of es = map_of ?m" using d de by (simp add: map_of_inject_set)
  moreover have "UpdatedInBlock ev ord logs =
      ((map fst es, map (\<lambda>e. Some (sd_reserve0 (snd e))) es, map (\<lambda>e. Some (sd_reserve1 (snd e))) es),
       None)"
    by (simp add: UpdatedInBlock_def es_def Let_def)
  ultimately show ?thesis using that m de by blast
qed

lemma UpdatedInBlock_map_of:
  assumes "go_range_order ord"
  shows "\<exists>pools r0s r1s. UpdatedInBlock ev ord logs = ((pools, r0s, r1s), None) \<and>
    length r0s = length pools \<and> length r1s = length pools \<and> distinct pools \<and>
    set pools = Address ` {l \<in> set logs. is_sync ev l} \<and>
    map_of (zip pools (zip r0s r1s)) = last_sync ev logs"
proof -
  obtain es where es: "UpdatedInBlock ev ord logs =
      ((map fst es, map (\<lambda>e. Some (sd_reserve0 (snd e))) es, map (\<lambda>e. Some (sd_reserve1 (snd e))) es),
       None)" "mset es = mset (sync_loop ev logs [])" "distinct (map fst es)"
    "map_of es = map_of (sync_loop ev logs [])"
    using UpdatedInBlock_alist [OF assms] .
  have "fst ` set es = Address ` {l \<in> set logs. is_sync ev l}"
    using mset_eq_setD [OF es(2)] by (simp add: sync_loop_keys)
  moreover have "map_of (map (\<lambda>e. (fst e, Some (sd_reserve0 (snd e)), Some (sd_reserve1 (snd e)))) es) p =
      last_sync ev logs p" for p
  proof -
    have "map_of (map (\<lambda>e. (fst e, Some (sd_reserve0 (snd e)), Some (sd_reserve1 (snd e)))) es) p =
        map_option (\<lambda>d. (Some (sd_reserve0 d), Some (sd_reserve1 d))) (map_of es p)"
      by (induction es) auto
    then show ?thesis
      by (simp add: es(4) sync_loop_map_of last_sync_def split: option.split)
  qed
  ultimately show ?thesis using es(1,3) by (auto simp: zip_map3)
qed

text \<open>
  C21. \<^verbatim>\<open>UpdatedInBlock\<close> reports, for each pool that emitted a valid Sync event (one topic,
  the Sync topic, and 64 bytes of data), the reserves of its last one, and reports no other
  pool; the three slices are parallel, no pool is listed twice and it never fails, whatever
  order the map is ranged over.
\<close>

theorem UpdatedInBlock_last_sync:
  assumes "go_range_order ord"
  shows "\<exists>pools r0s r1s. UpdatedInBlock ev ord logs = ((pools, r0s, r1s), None) \<and>
    length r0s = length pools \<and> length r1s = length pools \<and> distinct pools \<and>
    set pools = Address ` {l \<in> set logs. is_sync ev l} \<and>
    map_of (zip pools (zip r0s r1s)) = last_sync ev logs"
  by (rule UpdatedInBlock_map_of [OF assms])

theorem UpdatedInBlock_last_sync_witness:
  "go_range_order rev \<and>
   (\<exists>pools r0s r1s. UpdatedInBlock 5 rev
      [\<lparr>Address = 1, Topics = [5], Data = be_bytes 32 10 @ be_bytes 32 20\<rparr>,
       \<lparr>Address = 1, Topics = [5], Data = be_bytes 32 11 @ be_bytes 32 19\<rparr>,
       \<lparr>Address = 1, Topics = [5], Data = []\<rparr>] = ((pools, r0s, r1s), None) \<and>
     map_of (zip pools (zip r0s r1s)) 1 = Some (Some 11, Some 19))"
proof -
  let ?logs = "[\<lparr>Address = 1, Topics = [5], Data = be_bytes 32 10 @ be_bytes 32 20\<rparr>,
       \<lparr>Address = 1, Topics = [5], Data = be_bytes 32 11 @ be_bytes 32 19\<rparr>,
       \<lparr>Address = 1, Topics = [5], Data = []\<rparr>] :: Log list"
  have "last_sync 5 ?logs 1 = Some (Some 11, Some 19)"
    by (simp add: last_sync_def is_sync_def decode_sync_def SetBytes_be_bytes)
  with UpdatedInBlock_last_sync [OF go_range_order_rev, of 5 ?logs] go_range_order_rev
  show ?thesis by metis
qed

lemma last_sync_append: "last_sync ev (xs @ ys) = last_sync ev xs ++ last_sync ev ys"
  by (rule ext) (auto simp: last_sync_def find_append map_add_def split: option.split)

text \<open>
  C23. The data of a Sync event decodes without loss: for all reserves of at most 256 bits, the
  log whose data is their ABI encoding makes \<^verbatim>\<open>UpdatedInBlock\<close> report exactly these two
  numbers for its contract; and any two logs with 64 bytes of data that are read as the same
  reserves have the same data.
\<close>

theorem sync_data_roundtrip:
  assumes "go_range_order ord" and "0 \<le> a" "a < 2 ^ 256" and "0 \<le> b" "b < 2 ^ 256"
    and "length (Data l) = 64" and "length (Data l') = 64"
  shows "UpdatedInBlock ev ord [\<lparr>Address = p, Topics = [ev], Data = be_bytes 32 a @ be_bytes 32 b\<rparr>] =
      (([p], [Some a], [Some b]), None) \<and>
    (decode_sync l = decode_sync l') = (Data l = Data l')"
proof
  have "(256 :: int) ^ 32 = 2 ^ 256" by simp
  with assms have "SetBytes (be_bytes 32 a) = a" "SetBytes (be_bytes 32 b) = b"
    by (metis SetBytes_be_bytes)+
  moreover have "ord [x] = [x]" for x
  proof -
    have "mset (ord [x]) = mset [x]" using assms(1) unfolding go_range_order_def by blast
    then show ?thesis by simp
  qed
  ultimately show "UpdatedInBlock ev ord
      [\<lparr>Address = p, Topics = [ev], Data = be_bytes 32 a @ be_bytes 32 b\<rparr>] =
      (([p], [Some a], [Some b]), None)"
    by (simp add: UpdatedInBlock_def Let_def)
  show "(decode_sync l = decode_sync l') = (Data l = Data l')"
  proof
    assume "decode_sync l = decode_sync l'"
    then have "take 32 (Data l) = take 32 (Data l')" "drop 32 (Data l) = drop 32 (Data l')"
      using assms(6,7) by (auto simp: decode_sync_def intro: SetBytes_inj)
    then show "Data l = Data l'" by (metis append_take_drop_id)
  next
    assume "Data l = Data l'"
    then show "decode_sync l = decode_sync l'" by (simp add: decode_sync_def)
  qed
qed

theorem sync_data_roundtrip_witness:
  "UpdatedInBlock 5 (\<lambda>ks. ks) [\<lparr>Address = 9, Topics = [5], Data = be_bytes 32 1000 @ be_bytes 32 7\<rparr>] =
    (([9], [Some 1000], [Some 7]), None)"
  using sync_data_roundtrip [OF go_range_order_id, of 1000 7
      "\<lparr>Address = 1, Topics = [], Data = replicate 64 0\<rparr>"
      "\<lparr>Address = 1, Topics = [], Data = replicate 64 0\<rparr>" 5 9]
  by simp

end
