(* ===== verification/Fan_Out.thy ===== *)
theory Fan_Out
  imports Prelude
begin

text \<open>
  The bounded fan-out that \<^verbatim>\<open>reserves.NewGetReserves\<close> and \<^verbatim>\<open>PoolInitializer.Initialize\<close>
  share: a loop that takes a slot of a semaphore channel and starts one goroutine per pool,
  goroutines that write their results at their own index, give the slot back and count down a
  \<^verbatim>\<open>sync.WaitGroup\<close>, and a final \<^verbatim>\<open>Wait\<close>. The scheduler is free: the steps are a relation.
  Steps of the batch itself and those of other calls on a shared semaphore are kept apart. Shown
  for every schedule: at most \<open>cap\<close> goroutines hold a slot, the batch makes at most \<open>4 * n + 1\<close>
  steps and can make one until it has returned unless other calls hold all of the positive \<open>cap\<close>
  slots, and the result is the same as computing the pools one after the other.
\<close>

section \<open>State and steps\<close>

text \<open>A goroutine: not started; started, holding a slot; result written, still holding it; slot
  given back; \<^verbatim>\<open>wg.Done()\<close> called.\<close>

datatype worker = Idle | Working | Written | Released | Finished

record 'r fan =
  nextIndex :: nat
  workers :: "worker list"
  slots :: nat          \<comment> \<open>elements in the semaphore channel\<close>
  otherSlots :: nat     \<comment> \<open>those of them that other calls on a shared semaphore hold\<close>
  waitGroup :: nat
  results :: "'r option list"
  returned :: bool

definition fan_start :: "nat \<Rightarrow> nat \<Rightarrow> nat \<Rightarrow> 'r fan" where
  "fan_start n wg0 held =
     \<lparr>nextIndex = 0, workers = replicate n Idle, slots = held, otherSlots = held, waitGroup = wg0,
      results = replicate n None, returned = False\<rparr>"

text \<open>
  The steps of the batch itself. \<open>cap\<close> is the capacity of the channel, \<open>wgAdd\<close> what the loop
  body adds to the wait group (\<^verbatim>\<open>Initialize\<close> adds 1 in each iteration; \<^verbatim>\<open>NewGetReserves\<close> adds all at
  the start, so \<open>wg0 = n\<close> and \<open>wgAdd = 0\<close>), \<open>work i\<close> the result of goroutine \<open>i\<close>. Sending on a
  channel of capacity 0 blocks, as no one receives before a send has succeeded.
\<close>

inductive fan_own :: "nat \<Rightarrow> nat \<Rightarrow> nat \<Rightarrow> (nat \<Rightarrow> 'r) \<Rightarrow> 'r fan \<Rightarrow> 'r fan \<Rightarrow> bool"
  for cap n wgAdd work where
  launch: "nextIndex s < n \<Longrightarrow> slots s < cap \<Longrightarrow>
    fan_own cap n wgAdd work s
      (s\<lparr>nextIndex := Suc (nextIndex s), slots := Suc (slots s),
         workers := (workers s)[nextIndex s := Working], waitGroup := waitGroup s + wgAdd\<rparr>)"
| store: "i < n \<Longrightarrow> workers s ! i = Working \<Longrightarrow>
    fan_own cap n wgAdd work s
      (s\<lparr>workers := (workers s)[i := Written], results := (results s)[i := Some (work i)]\<rparr>)"
| release: "i < n \<Longrightarrow> workers s ! i = Written \<Longrightarrow>
    fan_own cap n wgAdd work s
      (s\<lparr>workers := (workers s)[i := Released], slots := slots s - 1\<rparr>)"
| finish: "i < n \<Longrightarrow> workers s ! i = Released \<Longrightarrow>
    fan_own cap n wgAdd work s
      (s\<lparr>workers := (workers s)[i := Finished], waitGroup := waitGroup s - 1\<rparr>)"
| join: "nextIndex s = n \<Longrightarrow> waitGroup s = 0 \<Longrightarrow> \<not> returned s \<Longrightarrow>
    fan_own cap n wgAdd work s (s\<lparr>returned := True\<rparr>)"

text \<open>What other calls do to the semaphore they share: they take slots and give them back.\<close>

inductive fan_other :: "nat \<Rightarrow> 'r fan \<Rightarrow> 'r fan \<Rightarrow> bool" for cap where
  acquire: "slots s < cap \<Longrightarrow>
    fan_other cap s (s\<lparr>slots := Suc (slots s), otherSlots := Suc (otherSlots s)\<rparr>)"
| give_back: "0 < otherSlots s \<Longrightarrow>
    fan_other cap s (s\<lparr>slots := slots s - 1, otherSlots := otherSlots s - 1\<rparr>)"

text \<open>All steps; \<open>shared\<close> is whether other calls use the same channel.\<close>

definition fan_step ::
  "nat \<Rightarrow> nat \<Rightarrow> nat \<Rightarrow> bool \<Rightarrow> (nat \<Rightarrow> 'r) \<Rightarrow> 'r fan \<Rightarrow> 'r fan \<Rightarrow> bool" where
  "fan_step cap n wgAdd shared work s t \<longleftrightarrow>
     fan_own cap n wgAdd work s t \<or> (shared \<and> fan_other cap s t)"

lemma fan_own_step: "fan_own cap n wgAdd work s t \<Longrightarrow> fan_step cap n wgAdd shared work s t"
  by (simp add: fan_step_def)

lemma fan_step_alone [simp]: "fan_step cap n wgAdd False work = fan_own cap n wgAdd work"
  by (simp add: fan_step_def fun_eq_iff)

inductive_cases fan_ownE: "fan_own cap n wgAdd work s t"
inductive_cases fan_otherE: "fan_other cap s t"

section \<open>Counting workers\<close>

definition count_of :: "('a \<Rightarrow> bool) \<Rightarrow> 'a list \<Rightarrow> nat" where
  "count_of P xs = length (filter P xs)"

lemma count_of_update:
  "i < length xs \<Longrightarrow>
    count_of P (xs[i := x]) + of_bool (P (xs ! i)) = count_of P xs + of_bool (P x)"
proof (induction xs arbitrary: i)
  case Nil
  then show ?case by simp
next
  case (Cons y ys)
  then show ?case by (cases i) (auto simp: count_of_def)
qed

lemma count_of_replicate [simp]: "count_of P (replicate n x) = (if P x then n else 0)"
  by (simp add: count_of_def)

lemma count_of_zero: "count_of P xs = 0 \<longleftrightarrow> (\<forall>x \<in> set xs. \<not> P x)"
  by (auto simp: count_of_def filter_empty_conv)

lemma count_of_all: "count_of P xs = length xs \<longleftrightarrow> (\<forall>x \<in> set xs. P x)"
  unfolding count_of_def by (metis filter_True filter_False length_filter_less less_irrefl)

lemma count_of_less:
  assumes "\<And>y. P y \<Longrightarrow> Q y" and "x \<in> set xs" and "Q x" and "\<not> P x"
  shows "count_of P xs < count_of Q xs"
proof -
  have "count_of P ys \<le> count_of Q ys" for ys
    using assms(1) by (induction ys) (auto simp: count_of_def)
  moreover obtain ys zs where "xs = ys @ x # zs" using assms(2) by (auto dest: split_list)
  ultimately show ?thesis using assms(3,4)
    by (simp add: count_of_def add_mono less_Suc_eq_le)
qed

definition holds_slot :: "worker \<Rightarrow> bool" where
  "holds_slot w \<longleftrightarrow> w = Working \<or> w = Written"

definition has_written :: "worker \<Rightarrow> bool" where
  "has_written w \<longleftrightarrow> w = Written \<or> w = Released \<or> w = Finished"

lemmas worker_defs = holds_slot_def has_written_def

fun remaining :: "worker \<Rightarrow> nat" where
  "remaining Idle = 4"
| "remaining Working = 3"
| "remaining Written = 2"
| "remaining Released = 1"
| "remaining Finished = 0"

definition fan_measure :: "'r fan \<Rightarrow> nat" where
  "fan_measure s = sum_list (map remaining (workers s)) + of_bool (\<not> returned s)"

lemma sum_remaining_update:
  "i < length ws \<Longrightarrow>
    sum_list (map remaining (ws[i := w])) + remaining (ws ! i) = sum_list (map remaining ws) + remaining w"
proof (induction ws arbitrary: i)
  case Nil
  then show ?case by simp
next
  case (Cons y ys)
  then show ?case by (cases i) auto
qed

lemma fan_measure_start: "fan_measure (fan_start n wg0 held) = 4 * n + 1"
  by (simp add: fan_measure_def fan_start_def sum_list_replicate)

section \<open>The invariant\<close>

definition fan_inv :: "nat \<Rightarrow> nat \<Rightarrow> nat \<Rightarrow> nat \<Rightarrow> (nat \<Rightarrow> 'r) \<Rightarrow> 'r fan \<Rightarrow> bool" where
  "fan_inv cap n wg0 wgAdd work s \<longleftrightarrow>
     nextIndex s \<le> n \<and> length (workers s) = n \<and> length (results s) = n \<and>
     (\<forall>i < n. (workers s ! i = Idle) = (nextIndex s \<le> i)) \<and>
     count_of ((\<noteq>) Idle) (workers s) = nextIndex s \<and>
     (\<forall>i < n. results s ! i = (if has_written (workers s ! i) then Some (work i) else None)) \<and>
     slots s = count_of holds_slot (workers s) + otherSlots s \<and> slots s \<le> cap \<and>
     waitGroup s + count_of ((=) Finished) (workers s) = wg0 + wgAdd * nextIndex s \<and>
     (returned s \<longrightarrow> nextIndex s = n \<and> waitGroup s = 0)"

text \<open>
  The contract of a fan-out: the wait group counts each goroutine once. Its lemmas hold for any
  capacity; those on progress ask for a positive one.
\<close>

locale fan_out =
  fixes cap n wg0 wgAdd :: nat
    and shared :: bool
    and work :: "nat \<Rightarrow> 'r"
  assumes counts: "wg0 + wgAdd * n = n"
    and counts_each: "wgAdd = 0 \<or> wg0 = 0"
begin

lemma fan_inv_start: "held \<le> cap \<Longrightarrow> fan_inv cap n wg0 wgAdd work (fan_start n wg0 held)"
  by (auto simp: fan_inv_def fan_start_def worker_defs)

lemma some_pending:
  assumes "fan_inv cap n wg0 wgAdd work s" and "i < n" and "workers s ! i = Released"
  shows "0 < waitGroup s"
proof -
  have "workers s ! i \<in> set (workers s)" using assms(1,2) by (simp add: fan_inv_def)
  then have "count_of ((=) Finished) (workers s) < count_of ((\<noteq>) Idle) (workers s)"
    using assms(3) by (intro count_of_less) auto
  then have "count_of ((=) Finished) (workers s) < nextIndex s" and "nextIndex s \<le> n"
    using assms(1) by (simp_all add: fan_inv_def)
  moreover have "waitGroup s + count_of ((=) Finished) (workers s) = wg0 + wgAdd * nextIndex s"
    using assms(1) by (simp add: fan_inv_def)
  moreover have "nextIndex s \<le> wg0 + wgAdd * nextIndex s"
  proof (cases "wgAdd = 0")
    case True
    with counts \<open>nextIndex s \<le> n\<close> show ?thesis by simp
  next
    case False
    then show ?thesis by (cases wgAdd) auto
  qed
  ultimately show ?thesis by linarith
qed

lemma fan_inv_own:
  assumes "fan_inv cap n wg0 wgAdd work s" and "fan_own cap n wgAdd work s t"
  shows "fan_inv cap n wg0 wgAdd work t"
proof -
  let ?ws = "workers s"
  have len: "length ?ws = n" "length (results s) = n" using assms(1) by (simp_all add: fan_inv_def)
  note U = count_of_update [of _ ?ws]
  from assms(2) show ?thesis
  proof (cases rule: fan_own.cases)
    case launch
    let ?i = "nextIndex s"
    have "?ws ! ?i = Idle" using assms(1) launch(2) by (simp add: fan_inv_def)
    with launch len assms(1) U [of ?i holds_slot Working] U [of ?i "(=) Finished" Working]
      U [of ?i "(\<noteq>) Idle" Working]
    show ?thesis by (auto simp: fan_inv_def nth_list_update worker_defs)
  next
    case (store i)
    with len assms(1) U [of i holds_slot Written] U [of i "(=) Finished" Written]
      U [of i "(\<noteq>) Idle" Written]
    show ?thesis by (auto simp: fan_inv_def nth_list_update worker_defs)
  next
    case (release i)
    with len assms(1) U [of i holds_slot Released] U [of i "(=) Finished" Released]
      U [of i "(\<noteq>) Idle" Released]
    show ?thesis by (auto simp: fan_inv_def nth_list_update worker_defs)
  next
    case (finish i)
    have "0 < waitGroup s" using some_pending [OF assms(1) finish(2,3)] .
    with finish len assms(1) U [of i holds_slot Finished] U [of i "(=) Finished" Finished]
      U [of i "(\<noteq>) Idle" Finished]
    show ?thesis by (auto simp: fan_inv_def nth_list_update worker_defs)
  next
    case join
    with assms(1) show ?thesis by (simp add: fan_inv_def)
  qed
qed

lemma fan_inv_step:
  assumes "fan_inv cap n wg0 wgAdd work s" and "fan_step cap n wgAdd shared work s t"
  shows "fan_inv cap n wg0 wgAdd work t"
proof -
  have "fan_inv cap n wg0 wgAdd work t" if "fan_other cap s t"
    using that assms(1) by (auto simp: fan_inv_def elim!: fan_otherE)
  then show ?thesis using assms fan_inv_own by (auto simp: fan_step_def)
qed

end

sublocale fan_out \<subseteq> runs: transition_invariant
  "\<lambda>s. \<exists>held \<le> cap. s = fan_start n wg0 held"
  "fan_step cap n wgAdd shared work"
  "fan_inv cap n wg0 wgAdd work"
  by unfold_locales (auto intro: fan_inv_start fan_inv_step)

section \<open>Result, progress and termination\<close>

context fan_out
begin

lemma returned_results:
  assumes "fan_inv cap n wg0 wgAdd work s" and "returned s"
  shows "results s = map (\<lambda>i. Some (work i)) [0..<n]" and "list_all ((=) Finished) (workers s)"
proof -
  have inv: "nextIndex s = n" "waitGroup s = 0" "length (workers s) = n" "length (results s) = n"
    "waitGroup s + count_of ((=) Finished) (workers s) = wg0 + wgAdd * nextIndex s"
    using assms unfolding fan_inv_def by blast+
  then have "count_of ((=) Finished) (workers s) = length (workers s)" using counts by simp
  then have all: "\<forall>w \<in> set (workers s). Finished = w" by (simp add: count_of_all)
  then show "list_all ((=) Finished) (workers s)" by (simp add: list_all_iff)
  have "results s ! i = Some (work i)" if "i < n" for i
  proof -
    have "workers s ! i = Finished" using all inv(3) that by (metis nth_mem)
    then show ?thesis using assms(1) that by (simp add: fan_inv_def has_written_def)
  qed
  then show "results s = map (\<lambda>i. Some (work i)) [0..<n]"
    by (intro nth_equalityI) (simp_all add: inv)
qed

lemma progress:
  assumes inv: "fan_inv cap n wg0 wgAdd work s" and "otherSlots s < cap" and "\<not> returned s"
  shows "\<exists>t. fan_own cap n wgAdd work s t"
proof (cases "\<exists>i < n. workers s ! i \<noteq> Idle \<and> workers s ! i \<noteq> Finished")
  case True
  then obtain i where "i < n" "workers s ! i \<noteq> Idle" "workers s ! i \<noteq> Finished" by blast
  then show ?thesis
    by (cases "workers s ! i") (blast intro: fan_own.store fan_own.release fan_own.finish)+
next
  case False
  then have ws: "\<forall>w \<in> set (workers s). w = Idle \<or> w = Finished"
    using inv by (metis fan_inv_def in_set_conv_nth)
  then have "count_of holds_slot (workers s) = 0"
    by (auto simp: count_of_zero holds_slot_def)
  then have free: "slots s < cap" using inv assms(2) by (simp add: fan_inv_def)
  show ?thesis
  proof (cases "nextIndex s < n")
    case True
    with free show ?thesis by (blast intro: fan_own.launch)
  next
    case False
    then have "nextIndex s = n" using inv by (simp add: fan_inv_def)
    have len: "length (workers s) = n" and idle: "\<forall>i < n. (workers s ! i = Idle) = (nextIndex s \<le> i)"
      and wg: "waitGroup s + count_of ((=) Finished) (workers s) = wg0 + wgAdd * nextIndex s"
      using inv unfolding fan_inv_def by blast+
    have "\<forall>w \<in> set (workers s). Finished = w"
      using ws idle unfolding len [symmetric] by (metis \<open>nextIndex s = n\<close> in_set_conv_nth len not_less)
    then have "count_of ((=) Finished) (workers s) = n"
      using count_of_all [of "(=) Finished" "workers s"] len by simp
    then have "waitGroup s = 0" using wg counts \<open>nextIndex s = n\<close> by simp
    with \<open>nextIndex s = n\<close> show ?thesis using assms(3) by (blast intro: fan_own.join)
  qed
qed

lemma own_slots:
  assumes "\<not> shared" and "(fan_step cap n wgAdd shared work)\<^sup>*\<^sup>* s t"
  shows "otherSlots t = otherSlots s"
  using assms(2,1) by (induction rule: rtranclp_induct) (auto elim: fan_ownE)

lemma measure_decreases:
  assumes inv: "fan_inv cap n wg0 wgAdd work s" and "fan_own cap n wgAdd work s t"
  shows "fan_measure s = Suc (fan_measure t)"
proof -
  have len: "length (workers s) = n" using inv by (simp add: fan_inv_def)
  note U = sum_remaining_update [of _ "workers s"]
  from assms(2) show ?thesis
  proof (cases rule: fan_own.cases)
    case launch
    then have "workers s ! nextIndex s = Idle" using inv by (simp add: fan_inv_def)
    with launch len U [of "nextIndex s" Working] show ?thesis by (simp add: fan_measure_def)
  next
    case (store i)
    with len U [of i Written] show ?thesis by (simp add: fan_measure_def)
  next
    case (release i)
    with len U [of i Released] show ?thesis by (simp add: fan_measure_def)
  next
    case (finish i)
    with len U [of i Finished] show ?thesis by (simp add: fan_measure_def)
  qed (simp_all add: fan_measure_def)
qed

lemma other_steps_keep:
  "fan_other cap s t \<Longrightarrow> fan_measure t = fan_measure s"
  by (erule fan_otherE) (simp_all add: fan_measure_def)

lemma measure_zero:
  assumes "fan_inv cap n wg0 wgAdd work s"
  shows "returned s \<longleftrightarrow> fan_measure s = 0"
proof
  assume "returned s"
  then have "list_all ((=) Finished) (workers s)" by (rule returned_results(2) [OF assms])
  then have "remaining w = 0" if "w \<in> set (workers s)" for w
    using that by (cases w) (auto simp: list_all_iff)
  with \<open>returned s\<close> show "fan_measure s = 0" by (simp add: fan_measure_def)
qed (simp add: fan_measure_def split: if_splits)

lemma measure_bounded:
  assumes "(fan_step cap n wgAdd shared work)\<^sup>*\<^sup>* s t" and "fan_inv cap n wg0 wgAdd work s"
  shows "fan_measure t \<le> fan_measure s"
  using assms
proof (induction rule: rtranclp_induct)
  case base
  then show ?case by simp
next
  case (step u v)
  have "fan_inv cap n wg0 wgAdd work u" using step.hyps(1) step.prems by (rule runs.inv_steps)
  with step measure_decreases [of u v] other_steps_keep [of u v] show ?case
    by (auto simp: fan_step_def)
qed

lemma run_length:
  assumes "\<not> shared" and "(fan_step cap n wgAdd shared work ^^ k) s t"
    and "fan_inv cap n wg0 wgAdd work s"
  shows "fan_measure s = k + fan_measure t"
  using assms(2)
proof (induction k arbitrary: t)
  case 0
  then show ?case by simp
next
  case (Suc k)
  then obtain u where u: "(fan_step cap n wgAdd shared work ^^ k) s u" "fan_step cap n wgAdd shared work u t"
    by auto
  then have "(fan_step cap n wgAdd shared work)\<^sup>*\<^sup>* s u" by (meson relpowp_imp_rtranclp)
  then have "fan_inv cap n wg0 wgAdd work u" using assms(3) by (rule runs.inv_steps)
  moreover have "fan_own cap n wgAdd work u t" using u(2) assms(1) by (simp add: fan_step_def)
  ultimately show ?case using measure_decreases [of u t] Suc.IH [OF u(1)] by simp
qed

text \<open>With a channel of its own and a positive capacity, every schedule can go on until it has
  returned, returns within \<open>4 * n + 1\<close> steps, and returns the results in order.\<close>

lemma fan_total:
  assumes "\<not> shared" and "0 < cap" and "(fan_step cap n wgAdd shared work ^^ k) (fan_start n wg0 0) t"
  shows "k \<le> 4 * n + 1"
    and "(\<exists>u. fan_step cap n wgAdd shared work t u) \<or>
      (returned t \<and> results t = map (\<lambda>i. Some (work i)) [0..<n])"
    and "slots t \<le> cap"
proof -
  let ?s = "fan_start n wg0 0 :: 'r fan"
  have i0: "fan_inv cap n wg0 wgAdd work ?s" by (rule fan_inv_start) simp
  have run: "(fan_step cap n wgAdd shared work)\<^sup>*\<^sup>* ?s t"
    using assms(3) by (meson relpowp_imp_rtranclp)
  then have inv: "fan_inv cap n wg0 wgAdd work t" using i0 by (rule runs.inv_steps)
  show "slots t \<le> cap" using inv by (simp add: fan_inv_def)
  have "fan_measure ?s = 4 * n + 1" by (rule fan_measure_start)
  with run_length [OF assms(1,3) i0] show "k \<le> 4 * n + 1" by simp
  have "otherSlots t = 0" using own_slots [OF assms(1) run] by (simp add: fan_start_def)
  then show "(\<exists>u. fan_step cap n wgAdd shared work t u) \<or>
      (returned t \<and> results t = map (\<lambda>i. Some (work i)) [0..<n])"
    using progress [OF inv] assms(2) returned_results(1) [OF inv] fan_own_step by metis
qed

end

text \<open>Without capacity nothing can start: a non-empty batch on a channel of its own is stuck.\<close>

lemma fan_stuck:
  assumes "0 < n" and "(fan_step 0 n wgAdd False work)\<^sup>*\<^sup>* (fan_start n wg0 0) t"
  shows "t = fan_start n wg0 0"
  using assms(2)
proof (induction rule: rtranclp_induct)
  case base
  then show ?case by simp
next
  case (step s t)
  from step.hyps(2) assms(1) show ?case
    unfolding step.IH by (auto simp: fan_start_def elim: fan_ownE)
qed

end
