(* ===== verification/Reserves.thy ===== *)
theory Reserves
  imports Bytes Errors Fan_Out
begin

text \<open>
  \<^verbatim>\<open>src/reserves/reserves.go\<close>: the RPC reader of one pool's reserves and the batch function
  that \<^verbatim>\<open>NewGetReserves\<close> returns. \<^verbatim>\<open>CallContract\<close> of the Ethereum client, the method
  selectors (computed from the ABI) and the state of the context are parameters. The batch is
  given twice: as the concurrent program (an instance of the fan-out) and as the value every
  schedule returns.
\<close>

section \<open>One pool\<close>

text \<open>\<^verbatim>\<open>client.CallContract\<close> as a function of the target address and the call data.\<close>

type_synonym eth_call = "address \<Rightarrow> byte list \<Rightarrow> go_error + byte list"

type_synonym reserve_slot = "bigptr \<times> bigptr \<times> go_error option"

definition getReservesForPool :: "byte list \<Rightarrow> eth_call \<Rightarrow> address \<Rightarrow> reserve_slot" where
  "getReservesForPool getReservesSig callContract poolAddr =
     (case callContract poolAddr getReservesSig of
        Inl err \<Rightarrow> (None, None, Some (Errorf
          [Lit ''eth_call for getReserves failed for pool '', Hex poolAddr, Lit '': ''] err))
      | Inr reservesCallData \<Rightarrow>
        if length reservesCallData \<noteq> 96 then
          (None, None, Some (ErrorString
            [Lit ''invalid response length for getReserves on pool '', Hex poolAddr,
             Lit '': got '', Dec (int (length reservesCallData)), Lit '' bytes'']))
        else (Some (SetBytes (take 32 reservesCallData)),
              Some (SetBytes (take 32 (drop 32 reservesCallData))), None))"

section \<open>The batch\<close>

text \<open>What the goroutine of one pool leaves in the three result slices: \<^verbatim>\<open>ctx.Err()\<close>, the
  error of the read, or the reserves. An entry that is not written stays nil.\<close>

definition reserves_worker ::
  "go_error option \<Rightarrow> byte list \<Rightarrow> eth_call \<Rightarrow> address \<Rightarrow> reserve_slot" where
  "reserves_worker ctxErr getReservesSig callContract poolAddr =
     (case ctxErr of
        Some e \<Rightarrow> (None, None, Some e)
      | None \<Rightarrow>
        (case getReservesForPool getReservesSig callContract poolAddr of
           (r0, r1, Some err) \<Rightarrow> (None, None, Some err)
         | (r0, r1, None) \<Rightarrow> (r0, r1, None)))"

definition reserve_slots ::
  "reserve_slot option list \<Rightarrow> bigptr list \<times> bigptr list \<times> go_error option list" where
  "reserve_slots rs =
     (let slot = (\<lambda>r. case r of None \<Rightarrow> (None, None, None) | Some x \<Rightarrow> x) in
      (map (\<lambda>r. fst (slot r)) rs, map (\<lambda>r. fst (snd (slot r))) rs,
       map (\<lambda>r. snd (snd (slot r))) rs))"

text \<open>
  The concurrent program. Goroutine \<open>i\<close> sees the context state \<open>ctxErr i\<close> and the client's
  answers \<open>calls i\<close>, whenever it runs. \<^verbatim>\<open>make(chan struct{}, maxConcurrentCalls)\<close> panics on a
  negative size; the wait group is set to the number of pools before the loop.
\<close>

definition reserves_start :: "i64 \<Rightarrow> address list \<Rightarrow> reserve_slot fan go" where
  "reserves_start maxConcurrentCalls poolAddrs =
     (if sint maxConcurrentCalls < 0 then None
      else Some (fan_start (length poolAddrs) (length poolAddrs) 0))"

definition reserves_step ::
  "i64 \<Rightarrow> (nat \<Rightarrow> go_error option) \<Rightarrow> byte list \<Rightarrow> (nat \<Rightarrow> eth_call) \<Rightarrow> address list
     \<Rightarrow> reserve_slot fan \<Rightarrow> reserve_slot fan \<Rightarrow> bool" where
  "reserves_step maxConcurrentCalls ctxErr getReservesSig calls poolAddrs =
     fan_step (nat (sint maxConcurrentCalls)) (length poolAddrs) 0 False
       (\<lambda>i. reserves_worker (ctxErr i) getReservesSig (calls i) (poolAddrs ! i))"

text \<open>The value of the batch, computed pool by pool.\<close>

definition GetReserves ::
  "(nat \<Rightarrow> go_error option) \<Rightarrow> byte list \<Rightarrow> (nat \<Rightarrow> eth_call) \<Rightarrow> address list
     \<Rightarrow> bigptr list \<times> bigptr list \<times> go_error option list" where
  "GetReserves ctxErr getReservesSig calls poolAddrs =
     (if length poolAddrs = 0 then ([], [], [])
      else reserve_slots (map (\<lambda>i. Some
        (reserves_worker (ctxErr i) getReservesSig (calls i) (poolAddrs ! i))) [0..<length poolAddrs]))"

interpretation reserves_fan: fan_out cap n n 0 False work
  for cap n :: nat and work :: "nat \<Rightarrow> reserve_slot"
  by unfold_locales simp_all

text \<open>
  C18. Whatever the scheduling, a batch read of reserves with a positive limit never blocks for
  good and never exceeds the limit: each of its executions has at most \<open>4 * n + 1\<close> steps, keeps
  at most \<^verbatim>\<open>maxConcurrentCalls\<close> goroutines between taking and giving back a slot, and, when no
  further step is possible, has returned the slices that reading the pools one by one gives, each
  result at the index of its pool.
\<close>

theorem reserves_batch_any_schedule:
  assumes "0 < sint maxCalls" and "reserves_start maxCalls addrs = Some s"
    and "(reserves_step maxCalls ctxErr sig calls addrs ^^ k) s t"
  shows "k \<le> 4 * length addrs + 1 \<and> count_of holds_slot (workers t) \<le> nat (sint maxCalls) \<and>
    ((\<exists>u. reserves_step maxCalls ctxErr sig calls addrs t u) \<or>
     (returned t \<and> reserve_slots (results t) = GetReserves ctxErr sig calls addrs))"
proof -
  let ?n = "length addrs" and ?cap = "nat (sint maxCalls)"
  let ?work = "\<lambda>i. reserves_worker (ctxErr i) sig (calls i) (addrs ! i)"
  have s: "s = fan_start ?n ?n 0" using assms(1,2) by (simp add: reserves_start_def)
  have run: "(fan_step ?cap ?n 0 False ?work ^^ k) (fan_start ?n ?n 0) t"
    using assms(3) by (simp add: s reserves_step_def)
  have cap: "0 < ?cap" using assms(1) by simp
  note T = reserves_fan.fan_total [OF _ cap run]
  have "fan_inv ?cap ?n ?n 0 ?work t"
    by (rule reserves_fan.runs.inv_steps [OF relpowp_imp_rtranclp [OF run]
          reserves_fan.fan_inv_start]) simp
  then have "count_of holds_slot (workers t) \<le> ?cap" by (simp add: fan_inv_def)
  moreover have "reserve_slots (map (\<lambda>i. Some (?work i)) [0..<?n]) = GetReserves ctxErr sig calls addrs"
    by (simp add: GetReserves_def reserve_slots_def)
  ultimately show ?thesis using T(1,2) by (auto simp: reserves_step_def)
qed

theorem reserves_batch_any_schedule_witness:
  "\<exists>t. reserves_step 1 (\<lambda>_. None) [] (\<lambda>_ _ _. Inr (replicate 96 0)) [7] (fan_start 1 1 0) t \<and>
    count_of holds_slot (workers t) \<le> 1"
proof -
  let ?step = "reserves_step 1 (\<lambda>_. None) [] (\<lambda>_ _ _. Inr (replicate 96 0)) [7]"
  let ?s = "fan_start 1 1 0 :: reserve_slot fan"
  have "\<exists>t. ?step ?s t"
    unfolding reserves_step_def
    by (rule exI, rule fan_own_step, rule fan_own.launch) (simp_all add: fan_start_def)
  then obtain t where t: "?step ?s t" by blast
  then have "(?step ^^ Suc 0) ?s t" by (simp add: relcomppI)
  moreover have "reserves_start 1 [7] = Some ?s" by (simp add: reserves_start_def)
  ultimately have "count_of holds_slot (workers t) \<le> nat (sint (1 :: i64))"
    using reserves_batch_any_schedule [of 1 "[7]" ?s "Suc 0" "\<lambda>_. None" "[]" "\<lambda>_ _ _. Inr (replicate 96 0)" t]
    by simp
  with t show ?thesis by auto
qed

text \<open>
  C34. \<^verbatim>\<open>NewGetReserves(0)\<close> is accepted, but a batch of the function it returns never
  returns: the first send on the channel of size 0 blocks, and no schedule makes any step.
\<close>

theorem reserves_batch_zero_limit_hangs:
  assumes "addrs \<noteq> []" and "(reserves_step 0 ctxErr sig calls addrs)\<^sup>*\<^sup>* s t"
    and "reserves_start 0 addrs = Some s"
  shows "t = s \<and> \<not> returned t"
proof -
  have s: "s = fan_start (length addrs) (length addrs) 0"
    using assms(3) by (simp add: reserves_start_def)
  have "t = fan_start (length addrs) (length addrs) 0"
    using fan_stuck [of "length addrs"] assms(1,2) unfolding s reserves_step_def by simp
  then show ?thesis by (simp add: s fan_start_def)
qed

theorem reserves_batch_zero_limit_hangs_witness:
  "\<exists>s. reserves_start 0 [7] = Some s \<and> \<not> returned s"
proof -
  obtain s where s: "reserves_start 0 [7] = Some s" by (simp add: reserves_start_def)
  with reserves_batch_zero_limit_hangs [of "[7]" "\<lambda>_. None" "[]" "\<lambda>_ _ _. Inr []" s s]
  show ?thesis by simp
qed

section \<open>The result of a batch\<close>

lemma reserve_slots_nth:
  "i < length rs \<Longrightarrow> rs ! i = Some (a, b, e) \<Longrightarrow>
    fst (reserve_slots rs) ! i = a \<and> fst (snd (reserve_slots rs)) ! i = b \<and>
    snd (snd (reserve_slots rs)) ! i = e"
  by (simp add: reserve_slots_def Let_def)

lemma reserves_worker_cases:
  "reserves_worker ce sig call p =
    (case ce of Some e \<Rightarrow> (None, None, Some e) | None \<Rightarrow> getReservesForPool sig call p)"
  by (auto simp: reserves_worker_def getReservesForPool_def split: option.split sum.split)

lemma three_words:
  assumes "length d = 96"
  obtains w0 w1 w2 where "d = w0 @ w1 @ w2" "length w0 = 32" "length w1 = 32" "length w2 = (32 :: nat)"
proof
  show "d = take 32 d @ take 32 (drop 32 d) @ drop 32 (drop 32 d)"
    by (simp only: append_take_drop_id)
qed (use assms in simp_all)

text \<open>
  The error an entry promises, from the state of the context and the client's answer: the
  cancellation; the client's error, wrapped with the pool's address; for an answer of the wrong
  length an error that names the pool and the length; and none otherwise.
\<close>

definition read_error :: "go_error option \<Rightarrow> address \<Rightarrow> go_error + byte list \<Rightarrow> go_error option" where
  "read_error ctxErr poolAddr answer =
     (case ctxErr of
        Some cancelled \<Rightarrow> Some cancelled
      | None \<Rightarrow>
        (case answer of
           Inl err \<Rightarrow> Some (Errorf
             [Lit ''eth_call for getReserves failed for pool '', Hex poolAddr, Lit '': ''] err)
         | Inr d \<Rightarrow>
           if length d = 96 then None
           else Some (ErrorString
             [Lit ''invalid response length for getReserves on pool '', Hex poolAddr,
              Lit '': got '', Dec (int (length d)), Lit '' bytes''])))"

lemma read_error_cases:
  "read_error ce p answer = Some e \<Longrightarrow> ce = Some e \<or>
    (ce = None \<and> (\<exists>err. answer = Inl err \<and> e = Errorf
       [Lit ''eth_call for getReserves failed for pool '', Hex p, Lit '': ''] err)) \<or>
    (ce = None \<and> (\<exists>d. answer = Inr d \<and> length d \<noteq> 96 \<and> e = ErrorString
       [Lit ''invalid response length for getReserves on pool '', Hex p,
        Lit '': got '', Dec (int (length d)), Lit '' bytes'']))"
  by (auto simp: read_error_def split: option.splits sum.splits if_splits)

text \<open>One pool, whatever comes back.\<close>

lemma reserves_worker_entry:
  assumes "reserves_worker ctx sig call p = (x, y, e)"
  shows "case e of
     None \<Rightarrow> ctx = None \<and> (\<exists>w0 w1 w2 a b. call p sig = Inr (w0 @ w1 @ w2) \<and>
       length w0 = 32 \<and> length w1 = 32 \<and> length w2 = 32 \<and> x = Some a \<and> y = Some b \<and>
       a = SetBytes w0 \<and> b = SetBytes w1 \<and> 0 \<le> a \<and> a < 2 ^ 256 \<and> 0 \<le> b \<and> b < 2 ^ 256)
   | Some e' \<Rightarrow> x = None \<and> y = None \<and> read_error ctx p (call p sig) = Some e'"
proof (cases "ctx = None \<and> (\<exists>d. call p sig = Inr d \<and> length d = 96)")
  case False
  then have "(x, y, e) = (None, None, read_error ctx p (call p sig)) \<and> e \<noteq> None"
    using assms by (cases ctx; cases "call p sig")
      (auto simp: read_error_def reserves_worker_cases getReservesForPool_def split: if_splits)
  then show ?thesis by auto
next
  case True
  then obtain d where c: "ctx = None" "call p sig = Inr d" "length d = 96" by blast
  obtain w0 w1 w2 where d: "d = w0 @ w1 @ w2" "length w0 = 32" "length w1 = 32" "length w2 = 32"
    using three_words [OF c(3)] by blast
  have e: "e = None" "x = Some (SetBytes w0)" "y = Some (SetBytes w1)"
    using assms c d by (simp_all add: reserves_worker_cases getReservesForPool_def)
  have "(256 :: int) ^ 32 = 2 ^ 256" by simp
  then have b: "0 \<le> SetBytes w0" "SetBytes w0 < 2 ^ 256" "0 \<le> SetBytes w1" "SetBytes w1 < 2 ^ 256"
    using SetBytes_bounds [of w0] SetBytes_bounds [of w1] d by simp_all
  show ?thesis
    unfolding e(1) option.case
    by (rule conjI [OF c(1)], rule exI [of _ w0], rule exI [of _ w1], rule exI [of _ w2],
        rule exI [of _ "SetBytes w0"], rule exI [of _ "SetBytes w1"])
      (use c d e b in simp)
qed

text \<open>
  C24. Entry \<open>i\<close> of a batch: the three slices have one entry per pool; an entry has no error
  exactly when the context was live and the contract answered 96 bytes, and then holds the two
  256-bit numbers in the first two words of the answer, so at least 0 and below \<open>2 ^ 256\<close>;
  otherwise both reserves are nil and the error is the context's own when the context was done,
  the client's error wrapped when the call failed, and else the one that reports the pool and the
  length of its answer.
\<close>

theorem GetReserves_entry:
  assumes "GetReserves ctxErr sig calls addrs = (r0s, r1s, errs)" and "i < length addrs"
  shows "length r0s = length addrs \<and> length r1s = length addrs \<and> length errs = length addrs \<and>
    (case errs ! i of
       None \<Rightarrow> ctxErr i = None \<and> (\<exists>w0 w1 w2 a b. calls i (addrs ! i) sig = Inr (w0 @ w1 @ w2) \<and>
         length w0 = 32 \<and> length w1 = 32 \<and> length w2 = 32 \<and>
         r0s ! i = Some a \<and> r1s ! i = Some b \<and> a = SetBytes w0 \<and> b = SetBytes w1 \<and>
         0 \<le> a \<and> a < 2 ^ 256 \<and> 0 \<le> b \<and> b < 2 ^ 256)
     | Some e \<Rightarrow> r0s ! i = None \<and> r1s ! i = None \<and>
         ((ctxErr i = Some e) \<or>
          (ctxErr i = None \<and> (\<exists>err. calls i (addrs ! i) sig = Inl err \<and> e = Errorf
             [Lit ''eth_call for getReserves failed for pool '', Hex (addrs ! i), Lit '': ''] err)) \<or>
          (ctxErr i = None \<and> (\<exists>d. calls i (addrs ! i) sig = Inr d \<and> length d \<noteq> 96 \<and> e = ErrorString
             [Lit ''invalid response length for getReserves on pool '', Hex (addrs ! i),
              Lit '': got '', Dec (int (length d)), Lit '' bytes'']))))"
proof -
  let ?w = "\<lambda>i. reserves_worker (ctxErr i) sig (calls i) (addrs ! i)"
  have eq: "(r0s, r1s, errs) = reserve_slots (map (\<lambda>i. Some (?w i)) [0..<length addrs])"
    using assms by (simp add: GetReserves_def split: if_splits)
  then have "length r0s = length addrs" "length r1s = length addrs" "length errs = length addrs"
    by (simp_all add: reserve_slots_def Let_def)
  moreover have "?w i = (r0s ! i, r1s ! i, errs ! i)"
    using eq assms(2) by (simp add: reserve_slots_def Let_def)
  from reserves_worker_entry [OF this] show ?thesis
    using calculation read_error_cases [of "ctxErr i" "addrs ! i" "calls i (addrs ! i) sig"]
    by (cases "errs ! i") auto
qed

theorem GetReserves_entry_witness:
  "\<exists>r0s r1s errs. GetReserves (\<lambda>_. None) [1] (\<lambda>_ _ _. Inr (be_bytes 32 5 @ be_bytes 32 6 @ be_bytes 32 0)) [7] =
      (r0s, r1s, errs) \<and> length errs = 1 \<and> errs ! 0 = None \<and> r0s ! 0 = Some 5"
proof -
  let ?d = "be_bytes 32 5 @ be_bytes 32 6 @ be_bytes 32 0"
  obtain r0s r1s errs where g: "GetReserves (\<lambda>_. None) [1] (\<lambda>_ _ _. Inr ?d) [7] = (r0s, r1s, errs)"
    by (metis prod_cases3)
  note E = GetReserves_entry [OF g, of 0]
  have "SetBytes (be_bytes 32 5) = 5" by (rule SetBytes_be_bytes) simp_all
  then have "errs = [None]" "r0s = [Some 5]"
    using g by (simp_all add: GetReserves_def reserve_slots_def reserves_worker_def
        getReservesForPool_def del: be_bytes.simps)
  with E g show ?thesis by simp
qed

end
