(* ===== verification/Initializer.thy ===== *)
theory Initializer
  imports Reserves
begin

text \<open>
  \<^verbatim>\<open>src/initializer/pool.go\<close>: the whitelist of known factories and the initialization of a
  batch of discovered pools. The client, the method selectors and
  \<^verbatim>\<open>common.BytesToAddress\<close> are parameters. The goroutines of a batch are an instance of the
  fan-out on the semaphore that all calls on one \<^verbatim>\<open>PoolInitializer\<close> share.
\<close>

section \<open>Configuration\<close>

record KnownFactory =
  kf_Address :: address
  kf_ProtocolName :: string
  kf_FeeBps :: u16

text \<open>The semaphore is the capacity of its channel.\<close>

record PoolInitializer =
  factoryMap :: "address \<rightharpoonup> KnownFactory"
  semaphore :: nat

fun add_factories :: "KnownFactory list \<Rightarrow> (address \<rightharpoonup> KnownFactory) \<Rightarrow> (address \<rightharpoonup> KnownFactory)" where
  "add_factories [] m = m"
| "add_factories (f # fs) m = add_factories fs (m(kf_Address f \<mapsto> f))"

definition NewPoolInitializer :: "KnownFactory list \<Rightarrow> i64 \<Rightarrow> go_error + PoolInitializer" where
  "NewPoolInitializer knownFactories maxConcurrentCalls =
     (if sint maxConcurrentCalls \<le> 0 then
        Inl (ErrorString [Lit ''maxConcurrentCalls must be a positive number, but got '',
          Dec (sint maxConcurrentCalls)])
      else Inr \<lparr>factoryMap = add_factories knownFactories Map.empty,
                semaphore = nat (sint maxConcurrentCalls)\<rparr>)"

section \<open>The contract calls\<close>

record method_sigs =
  token0Sig :: "byte list"
  token1Sig :: "byte list"
  getReservesSig :: "byte list"
  factorySig :: "byte list"

type_synonym bytes_to_address = "byte list \<Rightarrow> address"

definition getFactory ::
  "bytes_to_address \<Rightarrow> method_sigs \<Rightarrow> eth_call \<Rightarrow> address \<Rightarrow> go_error + address" where
  "getFactory bytesToAddress sigs callContract poolAddr =
     (case callContract poolAddr (factorySig sigs) of
        Inl err \<Rightarrow> Inl (Errorf [Lit ''eth_call for factory failed: ''] err)
      | Inr d \<Rightarrow>
        if length d \<noteq> 32 then
          Inl (ErrorString [Lit ''invalid response length for factory: got '', Dec (int (length d)),
            Lit '' bytes''])
        else Inr (bytesToAddress d))"

definition getTokens ::
  "bytes_to_address \<Rightarrow> method_sigs \<Rightarrow> eth_call \<Rightarrow> address \<Rightarrow> go_error + address \<times> address" where
  "getTokens bytesToAddress sigs callContract poolAddr =
     (case callContract poolAddr (token0Sig sigs) of
        Inl err \<Rightarrow> Inl (Errorf [Lit ''eth_call for token0 failed: ''] err)
      | Inr d0 \<Rightarrow>
        if length d0 \<noteq> 32 then
          Inl (ErrorString [Lit ''invalid response length for token0: got '', Dec (int (length d0)),
            Lit '' bytes''])
        else
          (case callContract poolAddr (token1Sig sigs) of
             Inl err \<Rightarrow> Inl (Errorf [Lit ''eth_call for token1 failed: ''] err)
           | Inr d1 \<Rightarrow>
             if length d1 \<noteq> 32 then
               Inl (ErrorString [Lit ''invalid response length for token1: got '',
                 Dec (int (length d1)), Lit '' bytes''])
             else Inr (bytesToAddress d0, bytesToAddress d1)))"

definition getReserves_init :: "method_sigs \<Rightarrow> eth_call \<Rightarrow> address \<Rightarrow> go_error + bigptr \<times> bigptr" where
  "getReserves_init sigs callContract poolAddr =
     (case callContract poolAddr (getReservesSig sigs) of
        Inl err \<Rightarrow> Inl (Errorf [Lit ''eth_call for getReserves failed: ''] err)
      | Inr d \<Rightarrow>
        if length d \<noteq> 96 then
          Inl (ErrorString [Lit ''invalid response length for getReserves: got '',
            Dec (int (length d)), Lit '' bytes''])
        else Inr (Some (SetBytes (take 32 d)), Some (SetBytes (take 32 (drop 32 d)))))"

section \<open>The batch\<close>

text \<open>Row \<open>i\<close> of the seven result slices, and its value when nothing is written.\<close>

record init_slot =
  is_token0 :: address
  is_token1 :: address
  is_type :: u8
  is_fee :: u16
  is_reserve0 :: bigptr
  is_reserve1 :: bigptr
  is_err :: "go_error option"

definition zero_slot :: init_slot where
  "zero_slot = \<lparr>is_token0 = 0, is_token1 = 0, is_type = 0, is_fee = 0, is_reserve0 = None,
     is_reserve1 = None, is_err = None\<rparr>"

text \<open>The goroutine of one pool.\<close>

definition init_worker ::
  "PoolInitializer \<Rightarrow> bytes_to_address \<Rightarrow> method_sigs \<Rightarrow> go_error option \<Rightarrow> eth_call \<Rightarrow> address
     \<Rightarrow> init_slot" where
  "init_worker p bytesToAddress sigs ctxErr callContract poolAddr =
     (case ctxErr of
        Some e \<Rightarrow> zero_slot\<lparr>is_err := Some e\<rparr>
      | None \<Rightarrow>
        (case getFactory bytesToAddress sigs callContract poolAddr of
           Inl err \<Rightarrow> zero_slot\<lparr>is_err := Some (Errorf
             [Lit ''could not get factory for pool '', Hex poolAddr, Lit '': ''] err)\<rparr>
         | Inr factoryAddr \<Rightarrow>
           (case factoryMap p factoryAddr of
              None \<Rightarrow> zero_slot\<lparr>is_err := Some (ErrorString
                [Lit ''pool '', Hex poolAddr, Lit '' has an unknown factory '', Hex factoryAddr])\<rparr>
            | Some factoryConfig \<Rightarrow>
              (case getTokens bytesToAddress sigs callContract poolAddr of
                 Inl err \<Rightarrow> zero_slot\<lparr>is_err := Some (Errorf [Lit ''failed to get tokens: ''] err)\<rparr>
               | Inr (t0, t1) \<Rightarrow>
                 (case getReserves_init sigs callContract poolAddr of
                    Inl err \<Rightarrow> zero_slot\<lparr>is_err := Some (Errorf [Lit ''failed to get reserves: ''] err)\<rparr>
                  | Inr (r0, r1) \<Rightarrow>
                    \<lparr>is_token0 = t0, is_token1 = t1, is_type = 0, is_fee = kf_FeeBps factoryConfig,
                     is_reserve0 = r0, is_reserve1 = r1, is_err = None\<rparr>)))))"

text \<open>The seven slices the initializer returns.\<close>

record init_result =
  ir_token0s :: "address list"
  ir_token1s :: "address list"
  ir_poolTypes :: "u8 list"
  ir_feeBps :: "u16 list"
  ir_reserve0s :: "bigptr list"
  ir_reserve1s :: "bigptr list"
  ir_errs :: "go_error option list"

definition init_slots :: "init_slot option list \<Rightarrow> init_result" where
  "init_slots rs =
     (let slots = map (\<lambda>r. case r of None \<Rightarrow> zero_slot | Some x \<Rightarrow> x) rs in
      \<lparr>ir_token0s = map is_token0 slots, ir_token1s = map is_token1 slots,
       ir_poolTypes = map is_type slots, ir_feeBps = map is_fee slots,
       ir_reserve0s = map is_reserve0 slots, ir_reserve1s = map is_reserve1 slots,
       ir_errs = map is_err slots\<rparr>)"

text \<open>
  The concurrent program, started while other calls hold \<open>held\<close> slots of the semaphore; the
  wait group is incremented in each iteration. The steps of the call itself, and all steps,
  those of the other calls on the semaphore included.
\<close>

definition init_start :: "address list \<Rightarrow> nat \<Rightarrow> init_slot fan" where
  "init_start poolAddrs held = fan_start (length poolAddrs) 0 held"

definition init_own_step ::
  "PoolInitializer \<Rightarrow> bytes_to_address \<Rightarrow> method_sigs \<Rightarrow> (nat \<Rightarrow> go_error option)
     \<Rightarrow> (nat \<Rightarrow> eth_call) \<Rightarrow> address list \<Rightarrow> init_slot fan \<Rightarrow> init_slot fan \<Rightarrow> bool" where
  "init_own_step p bytesToAddress sigs ctxErr calls poolAddrs =
     fan_own (semaphore p) (length poolAddrs) 1
       (\<lambda>i. init_worker p bytesToAddress sigs (ctxErr i) (calls i) (poolAddrs ! i))"

definition init_step ::
  "PoolInitializer \<Rightarrow> bytes_to_address \<Rightarrow> method_sigs \<Rightarrow> (nat \<Rightarrow> go_error option)
     \<Rightarrow> (nat \<Rightarrow> eth_call) \<Rightarrow> address list \<Rightarrow> init_slot fan \<Rightarrow> init_slot fan \<Rightarrow> bool" where
  "init_step p bytesToAddress sigs ctxErr calls poolAddrs s t \<longleftrightarrow>
     init_own_step p bytesToAddress sigs ctxErr calls poolAddrs s t \<or> fan_other (semaphore p) s t"

text \<open>The value of the batch, computed pool by pool. Nil slices are empty lists.\<close>

definition Initialize ::
  "PoolInitializer \<Rightarrow> bytes_to_address \<Rightarrow> method_sigs \<Rightarrow> (nat \<Rightarrow> go_error option)
     \<Rightarrow> (nat \<Rightarrow> eth_call) \<Rightarrow> address list \<Rightarrow> init_result" where
  "Initialize p bytesToAddress sigs ctxErr calls poolAddrs =
     (if length poolAddrs = 0 then init_slots []
      else init_slots (map (\<lambda>i. Some
        (init_worker p bytesToAddress sigs (ctxErr i) (calls i) (poolAddrs ! i)))
        [0..<length poolAddrs]))"

interpretation init_fan: fan_out cap n 0 1 True work
  for cap n :: nat and work :: "nat \<Rightarrow> init_slot"
  by unfold_locales simp_all


section \<open>The whitelist\<close>

lemma add_factories_map_of:
  "add_factories fs m a = (case find (\<lambda>f. kf_Address f = a) (rev fs) of None \<Rightarrow> m a | Some f \<Rightarrow> Some f)"
proof (induction fs arbitrary: m)
  case Nil
  then show ?case by simp
next
  case (Cons f fs)
  show ?case unfolding add_factories.simps Cons.IH by (auto simp: find_append split: option.split)
qed

lemma getFactory_Inr:
  "getFactory bta sigs call a = Inr x \<longleftrightarrow>
    (\<exists>d. call a (factorySig sigs) = Inr d \<and> length d = 32 \<and> x = bta d)"
  by (auto simp: getFactory_def split: sum.split)

lemma getTokens_Inr:
  "getTokens bta sigs call a = Inr (x, y) \<longleftrightarrow>
    (\<exists>d0 d1. call a (token0Sig sigs) = Inr d0 \<and> length d0 = 32 \<and> x = bta d0 \<and>
       call a (token1Sig sigs) = Inr d1 \<and> length d1 = 32 \<and> y = bta d1)"
  by (auto simp: getTokens_def split: sum.split)

lemma getReserves_init_Inr:
  "getReserves_init sigs call a = Inr (x, y) \<longleftrightarrow>
    (\<exists>d. call a (getReservesSig sigs) = Inr d \<and> length d = 96 \<and>
       x = Some (SetBytes (take 32 d)) \<and> y = Some (SetBytes (take 32 (drop 32 d))))"
  by (auto simp: getReserves_init_def split: sum.split)

lemma init_worker_error:
  "is_err (init_worker p bta sigs ce call a) = Some e \<Longrightarrow>
    init_worker p bta sigs ce call a = zero_slot\<lparr>is_err := Some e\<rparr>"
  by (auto simp: init_worker_def split: option.splits sum.splits prod.splits)

lemma init_worker_ok:
  assumes "is_err (init_worker p bta sigs ce call a) = None"
  obtains fa f t0 t1 r0 r1 where "ce = None" "getFactory bta sigs call a = Inr fa"
    "factoryMap p fa = Some f" "getTokens bta sigs call a = Inr (t0, t1)"
    "getReserves_init sigs call a = Inr (r0, r1)"
    "init_worker p bta sigs ce call a =
      \<lparr>is_token0 = t0, is_token1 = t1, is_type = 0, is_fee = kf_FeeBps f,
       is_reserve0 = r0, is_reserve1 = r1, is_err = None\<rparr>"
  using assms by (auto simp: init_worker_def split: option.splits sum.splits prod.splits)

lemma Initialize_eq:
  "Initialize p bta sigs ce calls addrs = init_slots (map (\<lambda>i. Some
     (init_worker p bta sigs (ce i) (calls i) (addrs ! i))) [0..<length addrs])"
  by (simp add: Initialize_def)

lemma init_slots_nth:
  assumes "i < n"
  shows "ir_token0s (init_slots (map (\<lambda>i. Some (w i)) [0..<n])) ! i = is_token0 (w i)"
    "ir_token1s (init_slots (map (\<lambda>i. Some (w i)) [0..<n])) ! i = is_token1 (w i)"
    "ir_poolTypes (init_slots (map (\<lambda>i. Some (w i)) [0..<n])) ! i = is_type (w i)"
    "ir_feeBps (init_slots (map (\<lambda>i. Some (w i)) [0..<n])) ! i = is_fee (w i)"
    "ir_reserve0s (init_slots (map (\<lambda>i. Some (w i)) [0..<n])) ! i = is_reserve0 (w i)"
    "ir_reserve1s (init_slots (map (\<lambda>i. Some (w i)) [0..<n])) ! i = is_reserve1 (w i)"
    "ir_errs (init_slots (map (\<lambda>i. Some (w i)) [0..<n])) ! i = is_err (w i)"
  using assms by (simp_all add: init_slots_def Let_def)

text \<open>All seven slices have \<open>n\<close> entries.\<close>

definition init_lengths :: "nat \<Rightarrow> init_result \<Rightarrow> bool" where
  "init_lengths n r \<longleftrightarrow> length (ir_token0s r) = n \<and> length (ir_token1s r) = n \<and>
     length (ir_poolTypes r) = n \<and> length (ir_feeBps r) = n \<and> length (ir_reserve0s r) = n \<and>
     length (ir_reserve1s r) = n \<and> length (ir_errs r) = n"

lemma Initialize_lengths: "init_lengths (length addrs) (Initialize p bta sigs ce calls addrs)"
  by (simp add: init_lengths_def Initialize_eq init_slots_def Let_def)

text \<open>
  C20. The whitelist is enforced. In a batch of an initializer made from a list of factories,
  a pool that comes back without an error has a factory on the list, the one its contract
  answered; its fee is that of the last entry of the list with this address, its type is 0, and
  its tokens and reserves are what its contract answered, in words of the right length. A pool
  that fails has only zero values.
\<close>

theorem Initialize_whitelist:
  assumes "NewPoolInitializer factories maxCalls = Inr p" and "i < length addrs"
    and "res = Initialize p bta sigs ctxErr calls addrs"
  shows "init_lengths (length addrs) res \<and>
    (case ir_errs res ! i of
       None \<Rightarrow> ctxErr i = None \<and> (\<exists>f \<in> set factories. \<exists>fd d0 d1 rd.
         calls i (addrs ! i) (factorySig sigs) = Inr fd \<and> length fd = 32 \<and>
         find (\<lambda>f. kf_Address f = bta fd) (rev factories) = Some f \<and> ir_feeBps res ! i = kf_FeeBps f \<and>
         calls i (addrs ! i) (token0Sig sigs) = Inr d0 \<and> length d0 = 32 \<and> ir_token0s res ! i = bta d0 \<and>
         calls i (addrs ! i) (token1Sig sigs) = Inr d1 \<and> length d1 = 32 \<and> ir_token1s res ! i = bta d1 \<and>
         calls i (addrs ! i) (getReservesSig sigs) = Inr rd \<and> length rd = 96 \<and>
         ir_reserve0s res ! i = Some (SetBytes (take 32 rd)) \<and>
         ir_reserve1s res ! i = Some (SetBytes (take 32 (drop 32 rd))) \<and>
         ir_poolTypes res ! i = 0)
     | Some e \<Rightarrow> ir_token0s res ! i = 0 \<and> ir_token1s res ! i = 0 \<and> ir_poolTypes res ! i = 0 \<and>
         ir_feeBps res ! i = 0 \<and> ir_reserve0s res ! i = None \<and> ir_reserve1s res ! i = None)"
proof -
  let ?w = "init_worker p bta sigs (ctxErr i) (calls i) (addrs ! i)"
  have res: "ir_token0s res ! i = is_token0 ?w" "ir_token1s res ! i = is_token1 ?w"
    "ir_poolTypes res ! i = is_type ?w" "ir_feeBps res ! i = is_fee ?w"
    "ir_reserve0s res ! i = is_reserve0 ?w" "ir_reserve1s res ! i = is_reserve1 ?w"
    "ir_errs res ! i = is_err ?w"
    unfolding assms(3) Initialize_eq by (simp_all add: init_slots_nth [OF assms(2)])
  have fm: "factoryMap p = add_factories factories Map.empty"
    using assms(1) by (auto simp: NewPoolInitializer_def split: if_splits)
  have "init_lengths (length addrs) res" by (simp add: assms(3) Initialize_lengths)
  moreover have ?thesis if e: "is_err ?w = None"
  proof -
    obtain fa f t0 t1 r0 r1 where w: "ctxErr i = None"
      "getFactory bta sigs (calls i) (addrs ! i) = Inr fa" "factoryMap p fa = Some f"
      "getTokens bta sigs (calls i) (addrs ! i) = Inr (t0, t1)"
      "getReserves_init sigs (calls i) (addrs ! i) = Inr (r0, r1)"
      "?w = \<lparr>is_token0 = t0, is_token1 = t1, is_type = 0, is_fee = kf_FeeBps f,
         is_reserve0 = r0, is_reserve1 = r1, is_err = None\<rparr>"
      using init_worker_ok [OF e] .
    have f: "find (\<lambda>f. kf_Address f = fa) (rev factories) = Some f"
      using w(3) unfolding fm by (simp add: add_factories_map_of split: option.splits)
    then have "f \<in> set factories" using find_SomeD by fastforce
    with f w(1-5) show ?thesis
      unfolding res w(6) getFactory_Inr getTokens_Inr getReserves_init_Inr
      using calculation by fastforce
  qed
  moreover have ?thesis if e: "is_err ?w = Some e" for e
    using calculation(1) unfolding res init_worker_error [OF e] by (simp add: zero_slot_def)
  ultimately show ?thesis by (cases "is_err ?w") auto
qed

text \<open>
  C29. \<^verbatim>\<open>NewPoolInitializer\<close> accepts exactly the positive limits, so no batch can be started
  on a semaphore without capacity, and its factory map answers with the last entry of the list
  for an address.
\<close>

theorem NewPoolInitializer_cases:
  "case NewPoolInitializer factories maxCalls of
     Inl e \<Rightarrow> sint maxCalls \<le> 0
   | Inr p \<Rightarrow> 0 < sint maxCalls \<and> int (semaphore p) = sint maxCalls \<and>
       (\<forall>a. factoryMap p a = find (\<lambda>f. kf_Address f = a) (rev factories))"
  by (simp add: NewPoolInitializer_def add_factories_map_of split: option.split)

text \<open>A batch of two pools with one factory: the pool of the known factory is initialized, the
  other one is refused.\<close>

definition example_call :: "address \<Rightarrow> nat \<Rightarrow> eth_call" where
  "example_call known i = (\<lambda>a sel.
     if sel = [4] then Inr (replicate (31 + (if a = known then 1 else 0)) 0)
     else if sel = [3] then Inr (be_bytes 32 8 @ be_bytes 32 9 @ be_bytes 32 0)
     else Inr (replicate 32 0))"

definition example_sigs :: method_sigs where
  "example_sigs = \<lparr>token0Sig = [1], token1Sig = [2], getReservesSig = [3], factorySig = [4]\<rparr>"

definition example_factory :: KnownFactory where
  "example_factory = \<lparr>kf_Address = 5, kf_ProtocolName = ''Uniswap-V2'', kf_FeeBps = 30\<rparr>"


theorem Initialize_whitelist_witness:
  "\<exists>p res. NewPoolInitializer [example_factory] 2 = Inr p \<and>
    res = Initialize p (\<lambda>_. 5) example_sigs (\<lambda>_. None) (example_call 7) [7, 8] \<and>
    ir_errs res ! 0 = None \<and> ir_feeBps res ! 0 = 30 \<and> ir_errs res ! 1 \<noteq> None \<and> ir_feeBps res ! 1 = 0"
proof -
  obtain p where p: "NewPoolInitializer [example_factory] 2 = Inr p"
    "factoryMap p = [5 \<mapsto> example_factory]"
    by (simp add: NewPoolInitializer_def example_factory_def)
  let ?res = "Initialize p (\<lambda>_. 5) example_sigs (\<lambda>_. None) (example_call 7) [7, 8]"
  note W = Initialize_whitelist [OF p(1) _ refl, of _ "[7, 8]" "\<lambda>_. 5" example_sigs "\<lambda>_. None" "example_call 7"]
  have e: "ir_errs ?res ! 0 = None" "\<exists>e. ir_errs ?res ! 1 = Some e"
    by (simp_all add: Initialize_def init_slots_def init_worker_def getFactory_def getTokens_def
        getReserves_init_def example_sigs_def example_call_def p(2) del: be_bytes.simps)
  have "ir_feeBps ?res ! 0 = 30" using W [of 0] e(1) by (auto simp: example_factory_def)
  moreover have "ir_feeBps ?res ! 1 = 0" using W [of 1] e(2) by auto
  ultimately show ?thesis using p(1) e by auto
qed

end
