(* ===== verification/Collectors.thy ===== *)
theory Collectors
  imports Prelude
begin

text \<open>
  The collectors \<^verbatim>\<open>NewMetrics\<close> of \<^verbatim>\<open>src/metrics.go\<close> creates, in its order, and their registration.
  The registerer is Prometheus code: it is the parameter \<open>register\<close>, which panics, as
  \<^verbatim>\<open>promauto\<close> documents, when a collector cannot be registered. Help texts and buckets, which
  nothing in the program reads, are left out.
\<close>

section \<open>The collectors\<close>

datatype metric_kind = GaugeVec | CounterVec | HistogramVec

record Collector =
  mc_kind :: metric_kind
  mc_Subsystem :: string
  mc_Name :: string
  mc_labels :: "string list"

definition collectors :: "string \<Rightarrow> Collector list" where
  "collectors systemName =
     [\<lparr>mc_kind = GaugeVec, mc_Subsystem = systemName,
       mc_Name = ''uniswap_system_last_processed_block'', mc_labels = []\<rparr>,
      \<lparr>mc_kind = CounterVec, mc_Subsystem = systemName,
       mc_Name = ''uniswap_system_errors_total'', mc_labels = [''type'']\<rparr>,
      \<lparr>mc_kind = GaugeVec, mc_Subsystem = systemName,
       mc_Name = ''uniswap_system_pending_initialization_queue_size'', mc_labels = []\<rparr>,
      \<lparr>mc_kind = HistogramVec, mc_Subsystem = systemName,
       mc_Name = ''uniswap_system_block_processing_duration_seconds'', mc_labels = []\<rparr>,
      \<lparr>mc_kind = HistogramVec, mc_Subsystem = systemName,
       mc_Name = ''uniswap_system_pool_initialization_duration_seconds'', mc_labels = []\<rparr>,
      \<lparr>mc_kind = HistogramVec, mc_Subsystem = systemName,
       mc_Name = ''uniswap_system_reconciliation_duration_seconds'', mc_labels = []\<rparr>,
      \<lparr>mc_kind = HistogramVec, mc_Subsystem = systemName,
       mc_Name = ''uniswap_system_pruning_duration_seconds'', mc_labels = []\<rparr>,
      \<lparr>mc_kind = GaugeVec, mc_Subsystem = systemName,
       mc_Name = ''uniswap_system_pools_in_registry_total'', mc_labels = []\<rparr>,
      \<lparr>mc_kind = CounterVec, mc_Subsystem = systemName,
       mc_Name = ''uniswap_system_pools_initialized_total'', mc_labels = []\<rparr>]"

type_synonym 'r registerer = "Collector \<Rightarrow> 'r \<Rightarrow> 'r go"

definition register_metrics :: "'r registerer \<Rightarrow> string \<Rightarrow> 'r \<Rightarrow> 'r go" where
  "register_metrics register systemName reg = foldM register (collectors systemName) reg"

section \<open>Names\<close>

text \<open>The name under which Prometheus files a collector of a nonempty subsystem.\<close>

definition full_name :: "Collector \<Rightarrow> string" where
  "full_name c = mc_Subsystem c @ ''_'' @ mc_Name c"

lemma append_eq_rev: "xs @ ys = us @ vs \<longleftrightarrow> rev ys @ rev xs = rev vs @ rev us"
  by (metis rev_append rev_rev_ident)

lemma full_names_apart:
  "c \<in> set (collectors m) \<Longrightarrow> d \<in> set (collectors n) \<Longrightarrow> full_name c = full_name d \<Longrightarrow> m = n"
  unfolding full_name_def append_eq_rev [of "mc_Subsystem c"]
  by (simp add: collectors_def; elim disjE; simp)

lemma full_names_distinct: "distinct (map full_name (collectors n))"
  by (simp add: collectors_def full_name_def)

lemma register_list:
  assumes "\<And>c r. register c r = None \<longleftrightarrow> full_name c \<in> held r"
    and "\<And>c r r'. register c r = Some r' \<Longrightarrow> held r' = insert (full_name c) (held r)"
    and "distinct (map full_name cs)"
  shows "(foldM register cs r = None \<longleftrightarrow> (\<exists>c \<in> set cs. full_name c \<in> held r)) \<and>
    (\<forall>r'. foldM register cs r = Some r' \<longrightarrow> held r' = held r \<union> full_name ` set cs)"
  using assms(3)
proof (induction cs arbitrary: r)
  case Nil
  then show ?case by simp
next
  case (Cons c cs)
  show ?case
  proof (cases "register c r")
    case None
    then have "full_name c \<in> held r" using assms(1) by blast
    with None show ?thesis by simp
  next
    case (Some r1)
    have h: "held r1 = insert (full_name c) (held r)" "full_name c \<notin> held r"
      using assms(2) [OF Some] assms(1) [of c r] Some by simp_all
    from Cons.prems have d: "distinct (map full_name cs)" by simp
    have new: "full_name x \<noteq> full_name c" if "x \<in> set cs" for x
      using Cons.prems that by (force simp: image_iff)
    from Cons.IH [OF d, of r1] Some h new show ?thesis by auto
  qed
qed

text \<open>A registerer that is a list of names.\<close>

definition name_list :: "string list registerer" where
  "name_list c r = (if full_name c \<in> set r then None else Some (full_name c # r))"

lemma name_list_contract:
  "name_list c r = None \<longleftrightarrow> full_name c \<in> set r"
  "name_list c r = Some r' \<Longrightarrow> set r' = insert (full_name c) (set r)"
  by (auto simp: name_list_def split: if_splits)

lemma register_names: "\<exists>r. register_metrics name_list n [] = Some r"
  using register_list [of name_list set "collectors n" "[]", OF name_list_contract full_names_distinct]
  by (auto simp: register_metrics_def)

text \<open>
  C40. Two systems can share a metrics registerer exactly if their names differ. With a registerer
  that refuses a full name it holds and holds those it has accepted, creating the metrics of a
  system panics if and only if it already holds one of that system's names; and after the metrics
  of one system have been created, those of a second one panic if the name is the same and are
  created if it is another that the registerer knew nothing of.
\<close>

theorem metrics_need_distinct_names:
  assumes "\<And>c r. register c r = None \<longleftrightarrow> full_name c \<in> held r"
    and "\<And>c r r'. register c r = Some r' \<Longrightarrow> held r' = insert (full_name c) (held r)"
  shows "(register_metrics register n reg = None \<longleftrightarrow>
      (\<exists>c \<in> set (collectors n). full_name c \<in> held reg)) \<and>
    (\<forall>reg'. register_metrics register n reg = Some reg' \<longrightarrow>
       register_metrics register n reg' = None \<and>
       (\<forall>m. m \<noteq> n \<and> (\<forall>c \<in> set (collectors m). full_name c \<notin> held reg) \<longrightarrow>
          register_metrics register m reg' \<noteq> None))"
proof -
  have R: "(register_metrics register k r = None \<longleftrightarrow> (\<exists>c \<in> set (collectors k). full_name c \<in> held r)) \<and>
      (\<forall>r'. register_metrics register k r = Some r' \<longrightarrow> held r' = held r \<union> full_name ` set (collectors k))"
    for k r
    unfolding register_metrics_def by (rule register_list [OF assms full_names_distinct])
  have "register_metrics register n reg' = None"
    if "register_metrics register n reg = Some reg'" for reg'
  proof -
    have "hd (collectors n) \<in> set (collectors n)" by (simp add: collectors_def)
    with R [of n reg] R [of n reg'] that show ?thesis by blast
  qed
  moreover have "register_metrics register m reg' \<noteq> None"
    if "register_metrics register n reg = Some reg'" "m \<noteq> n"
      "\<forall>c \<in> set (collectors m). full_name c \<notin> held reg" for reg' m
  proof -
    have "held reg' = held reg \<union> full_name ` set (collectors n)" using R [of n reg] that(1) by blast
    moreover have "full_name c \<notin> full_name ` set (collectors n)" if "c \<in> set (collectors m)" for c
      using full_names_apart [OF that] \<open>m \<noteq> n\<close> by blast
    ultimately show ?thesis using R [of m reg'] that(3) by blast
  qed
  ultimately show ?thesis using R [of n reg] by blast
qed

theorem metrics_need_distinct_names_witness:
  "\<exists>r. register_metrics name_list ''v2'' [] = Some r \<and> register_metrics name_list ''v2'' r = None \<and>
    register_metrics name_list ''fork'' r \<noteq> None"
proof -
  from metrics_need_distinct_names [where held = set, OF name_list_contract, of "''v2''" "[]"]
  show ?thesis by auto
qed

end
