(* ===== verification/Config.thy ===== *)
theory Config
  imports Registry Logs Initializer Collectors
begin

text \<open>
  The configuration of the system, its validation and its construction (\<^verbatim>\<open>src/system.go\<close>,
  lines 28-230): the injected dependencies, the state they act on, and the constructors. The
  struct \<^verbatim>\<open>UniswapV2System\<close> is split in two records: \<open>Deps\<close> holds the fields that are never
  assigned after construction, \<open>State\<close> the ones that are.

  The dependencies are functions of the outside world \<open>'w\<close> (the persistence layer, the chain,
  the block list, the order a dependency ranges over a map), which changes between calls; only
  the registration of pools and the lookup of tokens change it themselves. \<open>'c\<close> is the type of clients.
\<close>

section \<open>Blocks, queries and dependencies\<close>

record Block =
  bl_Number :: nat
  bl_Hash :: hash
  bl_Bloom :: bloom

definition NumberU64 :: "Block \<Rightarrow> u64" where
  "NumberU64 b = word_of_nat (bl_Number b)"

record FilterQuery =
  FromBlock :: nat
  ToBlock :: nat
  fq_Topics :: "hash list list"

type_synonym sync_result = "(address list \<times> bigptr list \<times> bigptr list) \<times> go_error option"
type_synonym reserves_result = "bigptr list \<times> bigptr list \<times> go_error option list"

record ('w, 'c) Deps =
  systemName :: string
  getClient :: "'w \<Rightarrow> go_error + 'c"
  inBlockedList :: "'w \<Rightarrow> address \<Rightarrow> bool"
  poolInitializer :: "'w \<Rightarrow> address list \<Rightarrow> 'c \<Rightarrow> init_result"
  discoverPools :: "'w \<Rightarrow> Log list \<Rightarrow> address list \<times> go_error option"
  updatedInBlock :: "'w \<Rightarrow> Log list \<Rightarrow> sync_result"
  getReserves :: "'w \<Rightarrow> address list \<Rightarrow> 'c \<Rightarrow> reserves_result"
  tokenAddressToID :: "'w token_to_id"
  poolAddressToID :: "'w \<Rightarrow> to_id"
  poolIDToAddress :: "'w \<Rightarrow> u64 \<Rightarrow> go_error + address"
  registerPool :: "'w \<Rightarrow> address \<Rightarrow> address \<Rightarrow> address \<Rightarrow> 'w \<times> u64 \<times> go_error option"
  registerPools :: "'w \<Rightarrow> address list \<Rightarrow> address list \<Rightarrow> address list
    \<Rightarrow> 'w \<times> u64 list \<times> go_error option list"
  testBloom :: "bloom \<Rightarrow> bool"
  filterTopics :: "hash list list"
  pruneFrequency :: i64
  initFrequency :: i64
  resyncFrequency :: i64
  logMaxRetries :: i64
  logRetryDelay :: i64

text \<open>
  The fields that change. \<open>pendingInit\<close> is the key set of the map, in insertion order. The
  metrics are the gauges and counters of \<^verbatim>\<open>src/metrics.go\<close> the system sets (the duration
  histograms are left out; \<^verbatim>\<open>float64\<close> rounding of values above \<open>2 ^ 53\<close> is not modelled), and
  \<open>handled\<close> is the list of errors given to the user's \<^verbatim>\<open>ErrorHandler\<close>, in order.
\<close>

record Metrics =
  m_LastProcessedBlock :: u64
  m_ErrorsTotal :: "string \<Rightarrow> nat"
  m_PendingInitQueueSize :: int
  m_PoolsInRegistry :: nat
  m_PoolsInitialized :: nat

record State =
  registry :: UniswapV2Registry
  cachedView :: "PoolView list option"
  lastUpdatedAtBlock :: u64
  pendingInit :: "address list"
  metrics :: Metrics
  handled :: "go_error list"

definition zero_metrics :: Metrics where
  "zero_metrics = \<lparr>m_LastProcessedBlock = 0, m_ErrorsTotal = (\<lambda>_. 0), m_PendingInitQueueSize = 0,
     m_PoolsInRegistry = 0, m_PoolsInitialized = 0\<rparr>"

text \<open>\<^verbatim>\<open>promauto.With\<close> of a nil registerer is documented to create collectors without registering them.\<close>

definition promauto_With :: "'m registerer option \<Rightarrow> 'm registerer" where
  "promauto_With reg = (case reg of None \<Rightarrow> (\<lambda>c m. Some m) | Some register \<Rightarrow> register)"

definition NewMetrics :: "'m registerer option \<Rightarrow> string \<Rightarrow> 'm \<Rightarrow> ('m \<times> Metrics) go" where
  "NewMetrics reg name m =
     do { m' \<leftarrow> register_metrics (promauto_With reg) name m; Some (m', zero_metrics) }"

section \<open>Configuration\<close>

text \<open>A nil channel, function or interface is \<^const>\<open>None\<close>; of the channel and the logger only
  this matters here. \<open>'m\<close> is the state of the registerer, which construction changes.\<close>

record ('w, 'c, 'm) Config =
  SystemName :: string
  PrometheusReg :: "'m registerer option"
  NewBlockEventer :: "unit option"
  GetClient :: "('w \<Rightarrow> go_error + 'c) option"
  InBlockedList :: "('w \<Rightarrow> address \<Rightarrow> bool) option"
  PoolInitializerFn :: "('w \<Rightarrow> address list \<Rightarrow> 'c \<Rightarrow> init_result) option"
  DiscoverPoolsFn :: "('w \<Rightarrow> Log list \<Rightarrow> address list \<times> go_error option) option"
  UpdatedInBlockFn :: "('w \<Rightarrow> Log list \<Rightarrow> sync_result) option"
  GetReservesFn :: "('w \<Rightarrow> address list \<Rightarrow> 'c \<Rightarrow> reserves_result) option"
  TokenAddressToID :: "'w token_to_id option"
  PoolAddressToID :: "('w \<Rightarrow> to_id) option"
  PoolIDToAddress :: "('w \<Rightarrow> u64 \<Rightarrow> go_error + address) option"
  RegisterPool :: "('w \<Rightarrow> address \<Rightarrow> address \<Rightarrow> address \<Rightarrow> 'w \<times> u64 \<times> go_error option) option"
  RegisterPools :: "('w \<Rightarrow> address list \<Rightarrow> address list \<Rightarrow> address list
    \<Rightarrow> 'w \<times> u64 list \<times> go_error option list) option"
  ErrorHandlerFn :: "unit option"
  TestBloom :: "(bloom \<Rightarrow> bool) option"
  FilterTopics :: "hash list list"
  PruneFrequency :: i64
  InitFrequency :: i64
  ResyncFrequency :: i64
  LogMaxRetries :: i64
  LogRetryDelay :: i64
  Logger :: "unit option"

definition New :: "string \<Rightarrow> go_error option" where
  "New s = Some (ErrorString [Lit s])"

definition validate :: "('w, 'c, 'm) Config \<Rightarrow> go_error option" where
  "validate c =
     (if SystemName c = '''' then New ''system name is required''
      else if NewBlockEventer c = None then New ''new block eventer channel is required''
      else if GetClient c = None then New ''get client function is required''
      else if InBlockedList c = None then New ''in blocked list function is required''
      else if PoolInitializerFn c = None then New ''pool initializer function is required''
      else if DiscoverPoolsFn c = None then New ''discover pools function is required''
      else if UpdatedInBlockFn c = None then New ''updated in block function is required''
      else if GetReservesFn c = None then New ''get reserves function is required''
      else if TokenAddressToID c = None then New ''token address to id function is required''
      else if PoolAddressToID c = None then New ''pool address to id function is required''
      else if PoolIDToAddress c = None then New ''pool id to address function is required''
      else if RegisterPool c = None then New ''register pool function is required''
      else if RegisterPools c = None then New ''register pools function is required''
      else if ErrorHandlerFn c = None then New ''error handler function is required''
      else if TestBloom c = None then New ''test bloom function is required''
      else if length (FilterTopics c) = 0 then New ''filter topics are required for performance''
      else None)"

section \<open>Construction\<close>

text \<open>The fields of the struct literal; a nil function has no use here, since construction goes
  on only after \<^verbatim>\<open>validate\<close>.\<close>

definition deps_of :: "('w, 'c, 'm) Config \<Rightarrow> ('w, 'c) Deps go" where
  "deps_of c = do {
     gc \<leftarrow> GetClient c; bl \<leftarrow> InBlockedList c; pi \<leftarrow> PoolInitializerFn c; dp \<leftarrow> DiscoverPoolsFn c;
     ub \<leftarrow> UpdatedInBlockFn c; gr \<leftarrow> GetReservesFn c; ti \<leftarrow> TokenAddressToID c;
     pa \<leftarrow> PoolAddressToID c; ia \<leftarrow> PoolIDToAddress c; rp \<leftarrow> RegisterPool c; rps \<leftarrow> RegisterPools c;
     tb \<leftarrow> TestBloom c;
     Some \<lparr>systemName = SystemName c, getClient = gc, inBlockedList = bl, poolInitializer = pi,
       discoverPools = dp, updatedInBlock = ub, getReserves = gr, tokenAddressToID = ti,
       poolAddressToID = pa, poolIDToAddress = ia, registerPool = rp, registerPools = rps,
       testBloom = tb, filterTopics = FilterTopics c, pruneFrequency = PruneFrequency c,
       initFrequency = InitFrequency c, resyncFrequency = ResyncFrequency c,
       logMaxRetries = LogMaxRetries c, logRetryDelay = LogRetryDelay c\<rparr> }"

definition initial_state :: "UniswapV2Registry \<Rightarrow> PoolView list \<Rightarrow> State" where
  "initial_state r initialView =
     \<lparr>registry = r, cachedView = Some initialView, lastUpdatedAtBlock = 0, pendingInit = [],
      metrics = zero_metrics, handled = []\<rparr>"

text \<open>\<^verbatim>\<open>newUniswapV2System\<close>: an error of \<^verbatim>\<open>validate\<close> is returned wrapped; creating the metrics
  panics if the registerer refuses one of them; logging through a nil logger is a nil dereference.
  The result comes with the registerer's new state.\<close>

definition newUniswapV2System ::
  "('w, 'c, 'm) Config \<Rightarrow> UniswapV2Registry \<Rightarrow> 'm \<Rightarrow> ('m \<times> (go_error + ('w, 'c) Deps \<times> State)) go" where
  "newUniswapV2System cfg r m =
     (case validate cfg of
        Some err \<Rightarrow> Some (m, Inl (Errorf [Lit ''invalid uniswapv2 system configuration: ''] err))
      | None \<Rightarrow> do {
          (m', ms) \<leftarrow> NewMetrics (PrometheusReg cfg) (SystemName cfg) m;
          d \<leftarrow> deps_of cfg;
          initialView \<leftarrow> viewRegistry r;
          _ \<leftarrow> Logger cfg;
          Some (m', Inr (d, (initial_state r initialView)\<lparr>metrics := ms\<rparr>)) })"

definition NewUniswapV2System ::
  "('w, 'c, 'm) Config \<Rightarrow> 'm \<Rightarrow> ('m \<times> (go_error + ('w, 'c) Deps \<times> State)) go" where
  "NewUniswapV2System cfg = newUniswapV2System cfg NewUniswapV2Registry"

definition NewUniswapV2SystemFromViews ::
  "('w, 'c, 'm) Config \<Rightarrow> PoolView list \<Rightarrow> 'm \<Rightarrow> ('m \<times> (go_error + ('w, 'c) Deps \<times> State)) go" where
  "NewUniswapV2SystemFromViews cfg views m = do {
     r \<leftarrow> NewUniswapV2RegistryFromViews views;
     newUniswapV2System cfg r m }"

end
