(* ===== verification/System.thy ===== *)
theory System
  imports Config
begin

text \<open>
  The orchestrator of \<^verbatim>\<open>src/system.go\<close>: block handling, initialization of pending pools,
  reconciliation, pruning and deletion. Each background routine is cut where the code leaves or
  enters the lock \<^verbatim>\<open>s.mu\<close> or calls out, into phases that later interleave; the routine itself
  is the composition of its phases, as the code composes them. Logging and timers are left out.
\<close>

section \<open>Shared operations\<close>

definition errorHandler :: "go_error \<Rightarrow> State \<Rightarrow> State" where
  "errorHandler err s =
     (let errorType = determineErrorType err; m = metrics s in
      s\<lparr>metrics := m\<lparr>m_ErrorsTotal :=
           (m_ErrorsTotal m)(errorType := Suc (m_ErrorsTotal m errorType))\<rparr>,
        handled := handled s @ [err]\<rparr>)"

text \<open>\<^verbatim>\<open>for _, e := range errs { s.errorHandler(e) }\<close>\<close>

definition handle_errors :: "go_error list \<Rightarrow> State \<Rightarrow> State" where
  "handle_errors errs s = fold errorHandler errs s"

definition View :: "State \<Rightarrow> PoolView list" where
  "View s = (case cachedView s of None \<Rightarrow> [] | Some view \<Rightarrow> view)"

definition LastUpdatedAtBlock :: "State \<Rightarrow> u64" where
  "LastUpdatedAtBlock s = lastUpdatedAtBlock s"

definition updateCachedView :: "State \<Rightarrow> State go" where
  "updateCachedView s = do {
     newView \<leftarrow> viewRegistry (registry s);
     Some (s\<lparr>cachedView := Some newView,
             metrics := (metrics s)\<lparr>m_PoolsInRegistry := length newView\<rparr>\<rparr>) }"

section \<open>Blocks\<close>

text \<open>
  What happens at run time: the client's answer to attempt \<open>i\<close> of a log query, and whether the
  context is done while the retry after attempt \<open>i\<close> waits (with \<^verbatim>\<open>ctx.Err()\<close>).
\<close>

record ('w, 'c) Env =
  filterLogs :: "'w \<Rightarrow> 'c \<Rightarrow> FilterQuery \<Rightarrow> nat \<Rightarrow> go_error + Log list"
  ctxDone :: "'w \<Rightarrow> nat \<Rightarrow> go_error option"

text \<open>The loop over \<^verbatim>\<open>range maxAttempts\<close>; the list is what is left of the range.\<close>

fun retry_loop ::
  "(nat \<Rightarrow> go_error + Log list) \<Rightarrow> (nat \<Rightarrow> go_error option) \<Rightarrow> int \<Rightarrow> nat list
     \<Rightarrow> go_error + Log list" where
  "retry_loop fetch done maxAttempts [] = Inr []"
| "retry_loop fetch done maxAttempts (i # is) =
     (let attempt = i + 1 in
      case fetch attempt of
        Inl err \<Rightarrow> Inl err
      | Inr logs \<Rightarrow>
        if length logs > 0 then Inr logs
        else if int attempt < maxAttempts then
          (case done attempt of
             None \<Rightarrow> retry_loop fetch done maxAttempts is
           | Some err \<Rightarrow> Inl err)
        else retry_loop fetch done maxAttempts is)"

text \<open>\<^verbatim>\<open>1 + s.logMaxRetries\<close> in 64-bit arithmetic.\<close>

definition max_attempts :: "('w, 'c) Deps \<Rightarrow> i64" where
  "max_attempts D = 1 + logMaxRetries D"

definition getLogsWithRetry ::
  "('w, 'c) Deps \<Rightarrow> ('w, 'c) Env \<Rightarrow> 'w \<Rightarrow> 'c \<Rightarrow> Block \<Rightarrow> go_error + Log list" where
  "getLogsWithRetry D E w client b =
     (let query = \<lparr>FromBlock = bl_Number b, ToBlock = bl_Number b, fq_Topics = filterTopics D\<rparr>;
          maxAttempts = sint (max_attempts D) in
      retry_loop (filterLogs E w client query) (ctxDone E w) maxAttempts [0..<nat maxAttempts])"

text \<open>\<^verbatim>\<open>applyUpdates\<close>: the loop from index \<open>i\<close> on.\<close>

fun update_loop ::
  "to_id \<Rightarrow> u64 \<Rightarrow> bigptr list \<Rightarrow> bigptr list \<Rightarrow> nat \<Rightarrow> address list
     \<Rightarrow> UniswapV2Registry \<times> go_error list \<Rightarrow> (UniswapV2Registry \<times> go_error list) go" where
  "update_loop addrID blockNumber r0s r1s i [] acc = Some acc"
| "update_loop addrID blockNumber r0s r1s i (poolAddr # rest) (r, errs) =
     (case addrID poolAddr of
        Inl err \<Rightarrow> update_loop addrID blockNumber r0s r1s (Suc i) rest (r, errs)
      | Inr poolID \<Rightarrow>
        if \<not> hasPool poolID r then update_loop addrID blockNumber r0s r1s (Suc i) rest (r, errs)
        else do {
          r0 \<leftarrow> idx r0s i;
          r1 \<leftarrow> idx r1s i;
          (r', e) \<leftarrow> updatePool r0 r1 poolID r;
          (case e of
             None \<Rightarrow> update_loop addrID blockNumber r0s r1s (Suc i) rest (r', errs)
           | Some err \<Rightarrow> update_loop addrID blockNumber r0s r1s (Suc i) rest
               (r', errs @ [UpdateError blockNumber err poolAddr poolID r0 r1])) })"

definition applyUpdates ::
  "('w, 'c) Deps \<Rightarrow> 'w \<Rightarrow> u64 \<Rightarrow> address list \<Rightarrow> bigptr list \<Rightarrow> bigptr list \<Rightarrow> UniswapV2Registry
     \<Rightarrow> (UniswapV2Registry \<times> go_error list) go" where
  "applyUpdates D w blockNumber addrs r0s r1s r =
     update_loop (poolAddressToID D w) blockNumber r0s r1s 0 addrs (r, [])"

text \<open>The loop that queues discovered pools; the count is \<^verbatim>\<open>newPendingCount\<close>.\<close>

fun queue_loop ::
  "('w, 'c) Deps \<Rightarrow> 'w \<Rightarrow> address list \<Rightarrow> address list \<times> nat \<Rightarrow> address list \<times> nat" where
  "queue_loop D w [] (pending, n) = (pending, n)"
| "queue_loop D w (poolAddr # rest) (pending, n) =
     (if inBlockedList D w poolAddr then queue_loop D w rest (pending, n)
      else case poolAddressToID D w poolAddr of
        Inr k \<Rightarrow> queue_loop D w rest (pending, n)
      | Inl err \<Rightarrow>
        if poolAddr \<notin> set pending then queue_loop D w rest (pending @ [poolAddr], Suc n)
        else queue_loop D w rest (pending, n))"

text \<open>What \<^verbatim>\<open>handleNewBlock\<close> does before it takes the lock: the block's updates and discovered
  pools, or the error it returns.\<close>

record BlockData =
  bd_pools :: "address list"
  bd_reserve0s :: "bigptr list"
  bd_reserve1s :: "bigptr list"
  bd_discovered :: "address list"

definition block_fetch ::
  "('w, 'c) Deps \<Rightarrow> ('w, 'c) Env \<Rightarrow> 'w \<Rightarrow> Block \<Rightarrow> State \<Rightarrow> State \<times> (go_error + BlockData)" where
  "block_fetch D E w b s =
     (let blockNum = NumberU64 b in
      case getClient D w of
        Inl err \<Rightarrow> (s, Inl (Errorf [Lit ''block '', Dec (uint blockNum),
          Lit '': failed to get eth client: ''] err))
      | Inr client \<Rightarrow>
        (case getLogsWithRetry D E w client b of
           Inl err \<Rightarrow> (s, Inl (Errorf [Lit ''block '', Dec (uint blockNum),
             Lit '': failed to filter logs: ''] err))
         | Inr logs \<Rightarrow>
           (let ((pools, r0s, r1s), err1) = updatedInBlock D w logs;
                s1 = (case err1 of
                   None \<Rightarrow> s
                 | Some err \<Rightarrow> errorHandler (SystemError blockNum
                     (Errorf [Lit ''failed to parse updated pools: ''] err)) s);
                (discovered, err2) = discoverPools D w logs;
                s2 = (case err2 of
                   None \<Rightarrow> s1
                 | Some err \<Rightarrow> errorHandler (SystemError blockNum
                     (Errorf [Lit ''failed to discover pools: ''] err)) s1) in
            (s2, Inr \<lparr>bd_pools = pools, bd_reserve0s = r0s, bd_reserve1s = r1s,
                      bd_discovered = discovered\<rparr>))))"

text \<open>The section under the lock; it returns the number of newly queued pools and the errors.\<close>

definition block_apply ::
  "('w, 'c) Deps \<Rightarrow> 'w \<Rightarrow> u64 \<Rightarrow> BlockData \<Rightarrow> State \<Rightarrow> (State \<times> nat \<times> go_error list) go" where
  "block_apply D w blockNum d s = do {
     (r, updateErrors) \<leftarrow>
        applyUpdates D w blockNum (bd_pools d) (bd_reserve0s d) (bd_reserve1s d) (registry s);
     let (pending, newPendingCount) = queue_loop D w (bd_discovered d) (pendingInit s, 0);
     s' \<leftarrow> updateCachedView
        (s\<lparr>registry := r, pendingInit := pending, lastUpdatedAtBlock := blockNum\<rparr>);
     Some (s', newPendingCount, updateErrors) }"

definition block_finish :: "u64 \<Rightarrow> nat \<Rightarrow> go_error list \<Rightarrow> State \<Rightarrow> State" where
  "block_finish blockNum newPendingCount errs s =
     (let m1 = (metrics s)\<lparr>m_LastProcessedBlock := blockNum\<rparr>;
          m2 = (if newPendingCount > 0 then
                  m1\<lparr>m_PendingInitQueueSize := m_PendingInitQueueSize m1 + int newPendingCount\<rparr>
                else m1) in
      handle_errors errs (s\<lparr>metrics := m2\<rparr>))"

definition handleNewBlock ::
  "('w, 'c) Deps \<Rightarrow> ('w, 'c) Env \<Rightarrow> 'w \<Rightarrow> Block \<Rightarrow> State \<Rightarrow> (State \<times> go_error option) go" where
  "handleNewBlock D E w b s =
     (case block_fetch D E w b s of
        (s1, Inl err) \<Rightarrow> Some (s1, Some err)
      | (s1, Inr d) \<Rightarrow> do {
          (s2, n, errs) \<leftarrow> block_apply D w (NumberU64 b) d s1;
          Some (block_finish (NumberU64 b) n errs s2, None) })"

text \<open>A block whose bloom filter fails the test is only noted.\<close>

definition block_skip :: "Block \<Rightarrow> State \<Rightarrow> State" where
  "block_skip b s = s\<lparr>lastUpdatedAtBlock := NumberU64 b,
     metrics := (metrics s)\<lparr>m_LastProcessedBlock := NumberU64 b\<rparr>\<rparr>"

text \<open>One turn of \<^verbatim>\<open>listenBlockEventer\<close> with a block.\<close>

definition listen_block ::
  "('w, 'c) Deps \<Rightarrow> ('w, 'c) Env \<Rightarrow> 'w \<Rightarrow> Block \<Rightarrow> State \<Rightarrow> State go" where
  "listen_block D E w b s =
     (if \<not> testBloom D (bl_Bloom b) then Some (block_skip b s)
      else do {
        (s', e) \<leftarrow> handleNewBlock D E w b s;
        Some (case e of None \<Rightarrow> s' | Some err \<Rightarrow> errorHandler err s') })"

section \<open>Initialization of pending pools\<close>

text \<open>One entry of the parallel \<^verbatim>\<open>valid*\<close> slices, which are always appended together. (The map
  \<^verbatim>\<open>originalIndices\<close> is written and never read.)\<close>

record ValidPool =
  vp_pool :: address
  vp_t0 :: address
  vp_t1 :: address
  vp_type :: u8
  vp_fee :: u16
  vp_r0 :: bigptr
  vp_r1 :: bigptr

fun filter_loop ::
  "u64 \<Rightarrow> init_result \<Rightarrow> nat \<Rightarrow> address list \<Rightarrow> go_error list \<times> ValidPool list
     \<Rightarrow> (go_error list \<times> ValidPool list) go" where
  "filter_loop blockNumber res i [] acc = Some acc"
| "filter_loop blockNumber res i (poolAddr # rest) (errs, valid) = do {
     e \<leftarrow> idx (ir_errs res) i;
     (case e of
        Some err \<Rightarrow> filter_loop blockNumber res (Suc i) rest
          (errs @ [InitializationError blockNumber err poolAddr], valid)
      | None \<Rightarrow> do {
          t0 \<leftarrow> idx (ir_token0s res) i;
          t1 \<leftarrow> idx (ir_token1s res) i;
          ty \<leftarrow> idx (ir_poolTypes res) i;
          f \<leftarrow> idx (ir_feeBps res) i;
          r0 \<leftarrow> idx (ir_reserve0s res) i;
          r1 \<leftarrow> idx (ir_reserve1s res) i;
          filter_loop blockNumber res (Suc i) rest
            (errs, valid @ [\<lparr>vp_pool = poolAddr, vp_t0 = t0, vp_t1 = t1, vp_type = ty, vp_fee = f,
                             vp_r0 = r0, vp_r1 = r1\<rparr>]) }) }"

text \<open>The errors of the registration, and the indices that failed.\<close>

fun registration_loop ::
  "u64 \<Rightarrow> ValidPool list \<Rightarrow> nat \<Rightarrow> go_error option list \<Rightarrow> go_error list \<times> (nat \<Rightarrow> bool)
     \<Rightarrow> (go_error list \<times> (nat \<Rightarrow> bool)) go" where
  "registration_loop blockNumber valid i [] acc = Some acc"
| "registration_loop blockNumber valid i (None # rest) acc =
     registration_loop blockNumber valid (Suc i) rest acc"
| "registration_loop blockNumber valid i (Some regErr # rest) (errs, failed) = do {
     v \<leftarrow> idx valid i;
     registration_loop blockNumber valid (Suc i) rest
       (errs @ [RegistrationError blockNumber regErr (vp_pool v) (vp_t0 v) (vp_t1 v)],
        failed(i := True)) }"

fun add_loop ::
  "u64 \<Rightarrow> 'w token_to_id \<Rightarrow> ('w \<Rightarrow> to_id) \<Rightarrow> u64 list \<Rightarrow> (nat \<Rightarrow> bool) \<Rightarrow> nat \<Rightarrow> ValidPool list
     \<Rightarrow> 'w \<times> UniswapV2Registry \<times> go_error list \<Rightarrow> ('w \<times> UniswapV2Registry \<times> go_error list) go" where
  "add_loop blockNumber tokenID addrID newPoolIDs failed i [] acc = Some acc"
| "add_loop blockNumber tokenID addrID newPoolIDs failed i (v # rest) (w, r, errs) =
     (if failed i then add_loop blockNumber tokenID addrID newPoolIDs failed (Suc i) rest (w, r, errs)
      else do {
        poolID \<leftarrow> idx newPoolIDs i;
        (case addPool (vp_t0 v) (vp_t1 v) (vp_pool v) (vp_type v) (vp_fee v) tokenID (addrID w) w r of
           (w1, r1, Some err) \<Rightarrow>
             add_loop blockNumber tokenID addrID newPoolIDs failed (Suc i) rest
               (w1, r1, errs @ [InitializationError blockNumber err (vp_pool v)])
         | (w1, r1, None) \<Rightarrow> do {
             (r2, e) \<leftarrow> updatePool (vp_r0 v) (vp_r1 v) poolID r1;
             (case e of
                None \<Rightarrow> add_loop blockNumber tokenID addrID newPoolIDs failed (Suc i) rest (w1, r2, errs)
              | Some err \<Rightarrow>
                add_loop blockNumber tokenID addrID newPoolIDs failed (Suc i) rest
                  (w1, r2, errs @ [InitializationError blockNumber
                    (Errorf [Lit ''failed to set initial reserves: ''] err) (vp_pool v)])) }) })"

definition applyInitializations ::
  "('w, 'c) Deps \<Rightarrow> 'w \<Rightarrow> u64 \<Rightarrow> address list \<Rightarrow> init_result \<Rightarrow> UniswapV2Registry
     \<Rightarrow> ('w \<times> UniswapV2Registry \<times> go_error list) go" where
  "applyInitializations D w blockNumber unknownPools res r =
     (if length unknownPools = 0 then Some (w, r, [])
      else do {
        (errs1, valid) \<leftarrow> filter_loop blockNumber res 0 unknownPools ([], []);
        if length valid = 0 then Some (w, r, errs1)
        else do {
          let (w', newPoolIDs, regErrs) =
            registerPools D w (map vp_t0 valid) (map vp_t1 valid) (map vp_pool valid);
          (errs2, failed) \<leftarrow> registration_loop blockNumber valid 0 regErrs (errs1, (\<lambda>_. False));
          add_loop blockNumber (tokenAddressToID D) (poolAddressToID D) newPoolIDs failed 0 valid
            (w', r, errs2) } })"

text \<open>The phases of \<^verbatim>\<open>runPendingInitializations\<close>: the first section under the lock, with the
  order \<open>ord\<close> in which the map is ranged over; the gauge; the second section under the lock; what
  follows it.\<close>

definition drain_pending :: "(address list \<Rightarrow> address list) \<Rightarrow> State \<Rightarrow> State \<times> address list" where
  "drain_pending ord s =
     (if length (pendingInit s) > 0 then (s\<lparr>pendingInit := []\<rparr>, ord (pendingInit s)) else (s, []))"

definition reset_gauge :: "State \<Rightarrow> State" where
  "reset_gauge s = s\<lparr>metrics := (metrics s)\<lparr>m_PendingInitQueueSize := 0\<rparr>\<rparr>"

definition init_apply ::
  "('w, 'c) Deps \<Rightarrow> 'w \<Rightarrow> address list \<Rightarrow> init_result \<Rightarrow> State
     \<Rightarrow> ('w \<times> State \<times> int \<times> go_error list) go" where
  "init_apply D w poolsToInit res s = do {
     (w', r, initErrors) \<leftarrow> applyInitializations D w 0 poolsToInit res (registry s);
     let successfulInits = int (length poolsToInit) - int (length initErrors);
     s' \<leftarrow> (if successfulInits > 0 then updateCachedView (s\<lparr>registry := r\<rparr>)
            else Some (s\<lparr>registry := r\<rparr>));
     Some (w', s', successfulInits, initErrors) }"

definition init_finish :: "int \<Rightarrow> go_error list \<Rightarrow> State \<Rightarrow> State" where
  "init_finish successfulInits initErrors s =
     (let s1 = (if successfulInits > 0 then
                  s\<lparr>metrics := (metrics s)\<lparr>m_PoolsInitialized :=
                     m_PoolsInitialized (metrics s) + nat successfulInits\<rparr>\<rparr>
                else s) in
      handle_errors initErrors s1)"

definition init_no_client :: "go_error \<Rightarrow> State \<Rightarrow> State" where
  "init_no_client err s = errorHandler (Errorf [Lit ''initializer: failed to get eth client: ''] err) s"

definition runPendingInitializations ::
  "('w, 'c) Deps \<Rightarrow> (address list \<Rightarrow> address list) \<Rightarrow> 'w \<Rightarrow> State \<Rightarrow> ('w \<times> State) go" where
  "runPendingInitializations D ord w s =
     (let (s1, poolsToInit) = drain_pending ord s; s2 = reset_gauge s1 in
      if length poolsToInit = 0 then Some (w, s2)
      else case getClient D w of
        Inl err \<Rightarrow> Some (w, init_no_client err s2)
      | Inr client \<Rightarrow> do {
          (w', s3, n, errs) \<leftarrow> init_apply D w poolsToInit (poolInitializer D w poolsToInit client) s2;
          Some (w', init_finish n errs s3) })"

end
