(* ===== verification/Maintenance.thy ===== *)
theory Maintenance
  imports System
begin

text \<open>
  The rest of \<^verbatim>\<open>src/system.go\<close>: deletion of pools, the pruner and the reconciler, in the
  phases in which they interleave with the other routines.
\<close>

section \<open>Deletion\<close>

definition DeletePool :: "u64 \<Rightarrow> State \<Rightarrow> (State \<times> go_error option) go" where
  "DeletePool poolID s = do {
     (r, e) \<leftarrow> deletePool poolID (registry s);
     (case e of
        Some err \<Rightarrow> Some (s\<lparr>registry := r\<rparr>, Some err)
      | None \<Rightarrow> do { s' \<leftarrow> updateCachedView (s\<lparr>registry := r\<rparr>); Some (s', None) }) }"

text \<open>The loop of \<^verbatim>\<open>DeletePools\<close>: the registry, the errors so far and the two flags.\<close>

fun delete_loop ::
  "u64 list \<Rightarrow> UniswapV2Registry \<times> go_error option list \<times> bool \<times> bool
     \<Rightarrow> (UniswapV2Registry \<times> go_error option list \<times> bool \<times> bool) go" where
  "delete_loop [] acc = Some acc"
| "delete_loop (poolID # rest) (r, errs, hasChanged, hasErrors) = do {
     (r', e) \<leftarrow> deletePool poolID r;
     (case e of
        Some err \<Rightarrow> delete_loop rest (r', errs @ [Some err], hasChanged, True)
      | None \<Rightarrow> delete_loop rest (r', errs @ [None], True, hasErrors)) }"

text \<open>A nil result is the empty list.\<close>

definition DeletePools :: "u64 list \<Rightarrow> State \<Rightarrow> (State \<times> go_error option list) go" where
  "DeletePools poolIDs s = do {
     (r, errs, hasChanged, hasErrors) \<leftarrow> delete_loop poolIDs (registry s, [], False, False);
     s' \<leftarrow> (if hasChanged then updateCachedView (s\<lparr>registry := r\<rparr>) else Some (s\<lparr>registry := r\<rparr>));
     Some (s', if hasErrors then errs else []) }"

section \<open>Pruning\<close>

text \<open>The scan of the current view: the IDs of blocked pools, and the state after the errors of
  IDs without an address.\<close>

fun prune_scan_loop ::
  "('w, 'c) Deps \<Rightarrow> 'w \<Rightarrow> PoolView list \<Rightarrow> State \<times> u64 list \<Rightarrow> State \<times> u64 list" where
  "prune_scan_loop D w [] acc = acc"
| "prune_scan_loop D w (v # rest) (s, toDelete) =
     (case poolIDToAddress D w (ID v) of
        Inl err \<Rightarrow> prune_scan_loop D w rest
          (errorHandler (PrunerError (Errorf [Lit ''could not get address: ''] err) (ID v)) s, toDelete)
      | Inr poolAddr \<Rightarrow>
        if inBlockedList D w poolAddr then prune_scan_loop D w rest (s, toDelete @ [ID v])
        else prune_scan_loop D w rest (s, toDelete))"

definition prune_scan :: "('w, 'c) Deps \<Rightarrow> 'w \<Rightarrow> State \<Rightarrow> State \<times> u64 list" where
  "prune_scan D w s = prune_scan_loop D w (View s) (s, [])"

fun prune_errors :: "u64 list \<Rightarrow> nat \<Rightarrow> go_error option list \<Rightarrow> State \<Rightarrow> State go" where
  "prune_errors toDelete i [] s = Some s"
| "prune_errors toDelete i (None # rest) s = prune_errors toDelete (Suc i) rest s"
| "prune_errors toDelete i (Some err # rest) s = do {
     k \<leftarrow> idx toDelete i;
     prune_errors toDelete (Suc i) rest
       (errorHandler (PrunerError (Errorf [Lit ''failed to delete from registry: ''] err) k) s) }"

definition pruneBlockedPools :: "('w, 'c) Deps \<Rightarrow> 'w \<Rightarrow> State \<Rightarrow> State go" where
  "pruneBlockedPools D w s =
     (if length (View s) = 0 then Some s
      else let (s1, poolsToDelete) = prune_scan D w s in
        if length poolsToDelete > 0 then do {
          (s2, errs) \<leftarrow> DeletePools poolsToDelete s1;
          prune_errors poolsToDelete 0 errs s2 }
        else Some s1)"

section \<open>Reconciliation\<close>

definition zero_view :: PoolView where
  "zero_view = \<lparr>ID = 0, Token0 = 0, Token1 = 0, Reserve0 = None, Reserve1 = None, Type = 0,
     FeeBps = 0\<rparr>"

text \<open>A Go map read without the second result gives the zero value for a missing key.\<close>

definition read_view :: "(u64 \<rightharpoonup> PoolView) \<Rightarrow> u64 \<Rightarrow> PoolView" where
  "read_view m k = (case m k of None \<Rightarrow> zero_view | Some v \<Rightarrow> v)"

text \<open>The first phase: the addresses of the pools of the view. \<open>poolAddrs\<close>, \<open>poolIDs\<close> and
  \<open>prevViewMap\<close> are built side by side.\<close>

record Resolved =
  rs_addrs :: "address list"
  rs_ids :: "u64 list"
  rs_prev :: "u64 \<rightharpoonup> PoolView"

fun resolve_loop ::
  "('w, 'c) Deps \<Rightarrow> 'w \<Rightarrow> PoolView list \<Rightarrow> State \<times> Resolved \<Rightarrow> State \<times> Resolved" where
  "resolve_loop D w [] acc = acc"
| "resolve_loop D w (v # rest) (s, a) =
     (case poolIDToAddress D w (ID v) of
        Inl err \<Rightarrow> resolve_loop D w rest
          (errorHandler (PrunerError (Errorf [Lit ''reconciler could not get address: ''] err) (ID v)) s, a)
      | Inr addr \<Rightarrow> resolve_loop D w rest
          (s, \<lparr>rs_addrs = rs_addrs a @ [addr], rs_ids = rs_ids a @ [ID v],
               rs_prev = (rs_prev a)(ID v \<mapsto> v)\<rparr>))"

definition recon_resolve :: "('w, 'c) Deps \<Rightarrow> 'w \<Rightarrow> PoolView list \<Rightarrow> State \<Rightarrow> State \<times> Resolved" where
  "recon_resolve D w prevView s =
     resolve_loop D w prevView (s, \<lparr>rs_addrs = [], rs_ids = [], rs_prev = Map.empty\<rparr>)"

record PendingUpdate =
  pu_id :: u64
  pu_reserve0 :: bigptr
  pu_reserve1 :: bigptr

text \<open>\<^verbatim>\<open>isIdle\<close> and \<^verbatim>\<open>isStale\<close>, with the short circuits of \<^verbatim>\<open>&&\<close> and \<^verbatim>\<open>||\<close>.\<close>

definition is_idle :: "PoolView \<Rightarrow> PoolView \<Rightarrow> bool go" where
  "is_idle prev cur = do {
     c0 \<leftarrow> bigCmp (Reserve0 prev) (Reserve0 cur);
     if c0 = 0 then do { c1 \<leftarrow> bigCmp (Reserve1 prev) (Reserve1 cur); Some (c1 = 0) }
     else Some False }"

definition is_stale :: "PoolView \<Rightarrow> bigptr \<Rightarrow> bigptr \<Rightarrow> bool go" where
  "is_stale cur f0 f1 = do {
     c0 \<leftarrow> bigCmp (Reserve0 cur) f0;
     if c0 \<noteq> 0 then Some True
     else do { c1 \<leftarrow> bigCmp (Reserve1 cur) f1; Some (c1 \<noteq> 0) } }"

text \<open>The comparison of the fetched reserves with the current view, from index \<open>i\<close> on; the list
  is the pool addresses left.\<close>

fun compare_loop ::
  "Resolved \<Rightarrow> reserves_result \<Rightarrow> (u64 \<rightharpoonup> PoolView) \<Rightarrow> nat \<Rightarrow> address list
     \<Rightarrow> State \<times> PendingUpdate list \<Rightarrow> (State \<times> PendingUpdate list) go" where
  "compare_loop a fresh currentMap i [] acc = Some acc"
| "compare_loop a fresh currentMap i (addr # rest) (s, ups) = do {
     e \<leftarrow> idx (snd (snd fresh)) i;
     (case e of
        Some err \<Rightarrow> compare_loop a fresh currentMap (Suc i) rest
          (errorHandler (Errorf [Lit ''reconciler failed to get reserves for pool '', Hex addr,
             Lit '': ''] err) s, ups)
      | None \<Rightarrow> do {
          poolID \<leftarrow> idx (rs_ids a) i;
          (case currentMap poolID of
             None \<Rightarrow> compare_loop a fresh currentMap (Suc i) rest (s, ups)
           | Some cur \<Rightarrow> do {
               f0 \<leftarrow> idx (fst fresh) i;
               f1 \<leftarrow> idx (fst (snd fresh)) i;
               idle \<leftarrow> is_idle (read_view (rs_prev a) poolID) cur;
               stale \<leftarrow> is_stale cur f0 f1;
               compare_loop a fresh currentMap (Suc i) rest
                 (s, if idle \<and> stale
                     then ups @ [\<lparr>pu_id = poolID, pu_reserve0 = f0, pu_reserve1 = f1\<rparr>]
                     else ups) }) }) }"

text \<open>A map from the views of a list, later ones winning.\<close>

definition view_map :: "PoolView list \<Rightarrow> u64 \<rightharpoonup> PoolView" where
  "view_map vs = map_of (rev (map (\<lambda>v. (ID v, v)) vs))"

definition recon_compare ::
  "Resolved \<Rightarrow> reserves_result \<Rightarrow> State \<Rightarrow> (State \<times> PendingUpdate list) go" where
  "recon_compare a fresh s = compare_loop a fresh (view_map (View s)) 0 (rs_addrs a) (s, [])"

text \<open>The section under the lock. The error carries no address or reserves.\<close>

definition recon_update :: "PendingUpdate \<Rightarrow> State \<Rightarrow> State go" where
  "recon_update u s = do {
     (r, e) \<leftarrow> updatePool (pu_reserve0 u) (pu_reserve1 u) (pu_id u) (registry s);
     let s1 = s\<lparr>registry := r\<rparr>;
     Some (case e of
       None \<Rightarrow> s1
     | Some err \<Rightarrow> errorHandler (UpdateError 0 err 0 (pu_id u) None None) s1) }"

definition recon_apply :: "PendingUpdate list \<Rightarrow> State \<Rightarrow> State go" where
  "recon_apply ups s =
     (if length ups > 0 then do { s' \<leftarrow> foldM recon_update ups s; updateCachedView s' } else Some s)"

definition recon_no_client :: "go_error \<Rightarrow> State \<Rightarrow> State" where
  "recon_no_client err s = errorHandler (Errorf [Lit ''reconciler: failed to get eth client: ''] err) s"

definition runStateReconciliation :: "('w, 'c) Deps \<Rightarrow> 'w \<Rightarrow> State \<Rightarrow> State go" where
  "runStateReconciliation D w s =
     (let prevView = View s in
      if length prevView = 0 then Some s
      else case getClient D w of
        Inl err \<Rightarrow> Some (recon_no_client err s)
      | Inr client \<Rightarrow>
        (let (s1, a) = recon_resolve D w prevView s in do {
           (s2, ups) \<leftarrow> recon_compare a (getReserves D w (rs_addrs a) client) s1;
           recon_apply ups s2 }))"

end
