(* ===== verification/Registry_Spec.thy ===== *)
theory Registry_Spec
  imports Registry
begin

text \<open>
  The contract of the registry and its proof. The abstract registry is a map from pool IDs to
  views; \<open>pool_store\<close> is the interface the system relies on, and \<^verbatim>\<open>src/registry.go\<close> provides
  it. The theorems: every sequence of operations refines the map, no sequence of operations
  panics, snapshots round-trip, and what a snapshot that repeats an ID leads to.
\<close>

section \<open>Loading a snapshot\<close>

definition row_complete :: "PoolView \<Rightarrow> bool" where
  "row_complete v \<longleftrightarrow> Reserve0 v \<noteq> None \<and> Reserve1 v \<noteq> None"

definition last_index :: "PoolView list \<Rightarrow> u64 \<rightharpoonup> nat" where
  "last_index vs = map_of (rev (zip (map ID vs) [0..<length vs]))"

text \<open>The columns after the views \<open>vs\<close> have been filled in, with \<open>m\<close> rows to go.\<close>

definition loaded :: "PoolView list \<Rightarrow> nat \<Rightarrow> UniswapV2Registry" where
  "loaded vs m =
     \<lparr>ids = map ID vs @ replicate m 0, token0 = map Token0 vs @ replicate m 0,
      token1 = map Token1 vs @ replicate m 0,
      reserve0 = map (the \<circ> Reserve0) vs @ replicate m 0,
      reserve1 = map (the \<circ> Reserve1) vs @ replicate m 0,
      pooltype = map Type vs @ replicate m 0, fee = map FeeBps vs @ replicate m 0,
      idToIndex = last_index vs\<rparr>"

lemma last_index_snoc: "last_index (vs @ [v]) = (last_index vs)(ID v \<mapsto> length vs)"
  by (simp add: last_index_def)

lemma last_index_SomeD: "last_index vs k = Some i \<Longrightarrow> i < length vs \<and> ID (vs ! i) = k"
  by (auto simp: last_index_def in_set_zip dest!: map_of_SomeD)

lemma last_index_distinct:
  assumes "distinct (map ID vs)" and "i < length vs"
  shows "last_index vs (ID (vs ! i)) = Some i"
proof -
  have "distinct (map fst (rev (zip (map ID vs) [0..<length vs])))"
    using assms(1) by (simp add: rev_map [symmetric])
  moreover have "(ID (vs ! i), i) \<in> set (rev (zip (map ID vs) [0..<length vs]))"
    using assms(2) by (auto simp: in_set_zip intro!: exI [of _ i])
  ultimately show ?thesis unfolding last_index_def by (rule map_of_is_SomeI)
qed

lemma dom_last_index: "dom (last_index vs) = ID ` set vs"
proof -
  have "fst ` set (zip (map ID vs) [0..<length vs]) = set (map fst (zip (map ID vs) [0..<length vs]))"
    by (rule set_map [symmetric])
  then show ?thesis by (simp add: last_index_def dom_map_of_conv_image_fst)
qed

lemma set_idx_replicate: "set_idx (xs @ replicate (Suc m) d) (length xs) x = Some ((xs @ [x]) @ replicate m d)"
  by (simp add: list_update_append)

lemma fill_row_loaded:
  assumes "row_complete v"
  shows "fill_row (length vs, v) (loaded vs (Suc m)) = Some (loaded (vs @ [v]) m)"
proof -
  obtain a b where "Reserve0 v = Some a" "Reserve1 v = Some b"
    using assms by (auto simp: row_complete_def)
  moreover have fill: "set_idx (map f vs @ replicate (Suc m) d) (length vs) x =
      Some (map f vs @ x # replicate m d)" for f :: "PoolView \<Rightarrow> 'z" and d x
    using set_idx_replicate [of "map f vs" m d x] by simp
  ultimately show ?thesis
    unfolding fill_row_def loaded_def by (simp add: fill last_index_snoc del: replicate_Suc)
qed

lemma fill_rows_loaded:
  assumes "list_all row_complete ws"
  shows "foldM fill_row (enumerate (length vs) ws) (loaded vs (length ws)) = Some (loaded (vs @ ws) 0)"
  using assms
proof (induction ws arbitrary: vs)
  case Nil
  then show ?case by simp
next
  case (Cons w ws)
  then show ?case
    using Cons.IH [of "vs @ [w]"] by (simp add: fill_row_loaded)
qed

lemma fill_row_nil: "\<not> row_complete v \<Longrightarrow> fill_row (i, v) r = None"
  by (auto simp: fill_row_def row_complete_def split: Option.bind_splits)

lemma load_complete:
  assumes "list_all row_complete vs"
  shows "NewUniswapV2RegistryFromViews vs = Some (loaded vs 0)"
proof (cases "vs = []")
  case True
  then show ?thesis
    by (simp add: NewUniswapV2RegistryFromViews_def NewUniswapV2Registry_def loaded_def
        last_index_def)
next
  case False
  then show ?thesis
    using fill_rows_loaded [OF assms, of "[]"]
    by (simp add: NewUniswapV2RegistryFromViews_def loaded_def last_index_def Let_def)
qed

lemma load_incomplete:
  assumes "\<not> list_all row_complete vs"
  shows "NewUniswapV2RegistryFromViews vs = None"
proof -
  obtain xs w ys where vs: "vs = xs @ w # ys" and w: "\<not> row_complete w"
    using assms by (auto simp: list_all_iff dest!: split_list)
  then have "enumerate 0 vs = enumerate 0 xs @ (length xs, w) # enumerate (Suc (length xs)) ys"
    by (simp add: enumerate_append_eq)
  then have "foldM fill_row (enumerate 0 vs) r = None" for r
    using fill_row_nil [OF w] by (simp add: foldM_append split: Option.bind_splits)
  then show ?thesis using vs by (simp add: NewUniswapV2RegistryFromViews_def Let_def)
qed

lemma load_iff:
  "NewUniswapV2RegistryFromViews vs = Some r \<longleftrightarrow> list_all row_complete vs \<and> r = loaded vs 0"
  by (cases "list_all row_complete vs") (auto simp: load_complete load_incomplete)

lemma loaded_safe: "registry_safe (loaded vs 0)"
  by (rule registry_safeI) (auto simp: columns_ok_def loaded_def dest: last_index_SomeD)

lemma loaded_wf: "registry_wf (loaded vs 0) \<longleftrightarrow> distinct (map ID vs)"
  unfolding registry_wf_iff_distinct [OF loaded_safe]
  by (simp add: loaded_def dom_last_index)

lemma row_loaded:
  "row_complete (vs ! i) \<Longrightarrow> i < length vs \<Longrightarrow> row (loaded vs 0) i = vs ! i"
  by (auto simp: row_def loaded_def row_complete_def)

lemma view_loaded:
  assumes "list_all row_complete vs"
  shows "viewRegistry (loaded vs 0) = Some vs"
proof -
  have n: "length (ids (loaded vs 0)) = length vs" by (simp add: loaded_def)
  have "map (row (loaded vs 0)) [0..<length vs] = vs"
    by (rule nth_equalityI) (use assms in \<open>simp_all add: row_loaded list_all_length\<close>)
  with n show ?thesis by (simp add: viewRegistry_eq [OF loaded_safe])
qed

lemma row_complete_row [simp]: "row_complete (row r i)"
  by (simp add: row_complete_def)

section \<open>The interface\<close>

definition fresh_pool :: "u64 \<Rightarrow> u64 \<Rightarrow> u64 \<Rightarrow> u8 \<Rightarrow> u16 \<Rightarrow> PoolView" where
  "fresh_pool k a b ty f = \<lparr>ID = k, Token0 = a, Token1 = b, Reserve0 = Some 0, Reserve1 = Some 0,
     Type = ty, FeeBps = f\<rparr>"

definition with_reserves :: "int \<Rightarrow> int \<Rightarrow> PoolView \<Rightarrow> PoolView" where
  "with_reserves a b v = v\<lparr>Reserve0 := Some a, Reserve1 := Some b\<rparr>"

lemma with_reserves_simps [simp]:
  "ID (with_reserves a b v) = ID v" "Token0 (with_reserves a b v) = Token0 v"
  "Token1 (with_reserves a b v) = Token1 v" "Reserve0 (with_reserves a b v) = Some a"
  "Reserve1 (with_reserves a b v) = Some b" "Type (with_reserves a b v) = Type v"
  "FeeBps (with_reserves a b v) = FeeBps v"
  by (simp_all add: with_reserves_def)

lemma fresh_pool_simps [simp]:
  "ID (fresh_pool k a b ty f) = k" "Reserve0 (fresh_pool k a b ty f) = Some 0"
  "Reserve1 (fresh_pool k a b ty f) = Some 0"
  by (simp_all add: fresh_pool_def)

text \<open>What the system asks of its pool store, as seen through the lookup \<open>look\<close>.\<close>

locale pool_store =
  fixes inv :: "'s \<Rightarrow> bool"
    and look :: "'s \<Rightarrow> u64 \<rightharpoonup> PoolView"
    and add :: "address \<Rightarrow> address \<Rightarrow> address \<Rightarrow> u8 \<Rightarrow> u16 \<Rightarrow> 'w token_to_id \<Rightarrow> to_id \<Rightarrow> 'w \<Rightarrow> 's
      \<Rightarrow> 'w \<times> 's \<times> go_error option"
    and upd :: "bigptr \<Rightarrow> bigptr \<Rightarrow> u64 \<Rightarrow> 's \<Rightarrow> ('s \<times> go_error option) go"
    and del :: "u64 \<Rightarrow> 's \<Rightarrow> ('s \<times> go_error option) go"
    and has :: "u64 \<Rightarrow> 's \<Rightarrow> bool"
    and view :: "'s \<Rightarrow> PoolView list go"
  assumes add_ok: "inv s \<Longrightarrow> pid p = Inr k \<Longrightarrow> look s k = None \<Longrightarrow> tid w t0 = (w1, Inr x) \<Longrightarrow>
        tid w1 t1 = (w2, Inr y) \<Longrightarrow> \<exists>s'. add t0 t1 p ty f tid pid w s = (w2, s', None) \<and> inv s' \<and>
            look s' = (look s)(k \<mapsto> fresh_pool k x y ty f)"
    and add_cases: "(\<exists>w' err. add t0 t1 p ty f tid pid w s = (w', s, Some err)) \<or>
        (\<exists>k w1 w2 x y. pid p = Inr k \<and> look s k = None \<and> tid w t0 = (w1, Inr x) \<and>
          tid w1 t1 = (w2, Inr y))"
    and upd_present: "inv s \<Longrightarrow> look s k = Some v \<Longrightarrow>
        \<exists>s'. upd (Some a) (Some b) k s = Some (s', None) \<and> inv s' \<and>
          look s' = (look s)(k \<mapsto> with_reserves a b v)"
    and upd_absent: "look s k = None \<Longrightarrow> upd q0 q1 k s = Some (s, Some ErrPoolNotFound)"
    and del_present: "inv s \<Longrightarrow> look s k = Some v \<Longrightarrow>
        \<exists>s'. del k s = Some (s', None) \<and> inv s' \<and> look s' = (look s)(k := None)"
    and del_absent: "look s k = None \<Longrightarrow> del k s = Some (s, Some ErrPoolNotFound)"
    and has_look: "has k s \<longleftrightarrow> look s k \<noteq> None"
    and look_ok: "inv s \<Longrightarrow> look s k = Some v \<Longrightarrow> ID v = k \<and> row_complete v"
    and view_look: "inv s \<Longrightarrow> \<exists>vs. view s = Some vs \<and> distinct (map ID vs) \<and>
        (\<forall>v. v \<in> set vs \<longleftrightarrow> look s (ID v) = Some v)"
begin

lemma upd_total:
  assumes "inv s"
  obtains s' e where "upd (Some a) (Some b) k s = Some (s', e)" "inv s'"
    "look s' = (case look s k of None \<Rightarrow> look s | Some v \<Rightarrow> (look s)(k \<mapsto> with_reserves a b v))"
    "e = (if look s k = None then Some ErrPoolNotFound else None)"
proof (cases "look s k")
  case None
  with assms upd_absent [OF None] that [of s "Some ErrPoolNotFound"] show ?thesis by simp
next
  case (Some v)
  with upd_present [OF assms Some] obtain s' where
    "upd (Some a) (Some b) k s = Some (s', None)" "inv s'"
    "look s' = (look s)(k \<mapsto> with_reserves a b v)" by blast
  with Some that [of s' None] show ?thesis by simp
qed

lemma upd_dom:
  assumes "inv s" and "upd (Some a) (Some b) k s = Some (s', e)"
  shows "inv s'" and "dom (look s') = dom (look s)"
    and "j \<noteq> k \<Longrightarrow> look s' j = look s j"
proof -
  obtain t f where t: "upd (Some a) (Some b) k s = Some (t, f)" "inv t"
    "look t = (case look s k of None \<Rightarrow> look s | Some v \<Rightarrow> (look s)(k \<mapsto> with_reserves a b v))"
    using upd_total [OF assms(1)] by blast
  with assms(2) show "inv s'" "dom (look s') = dom (look s)" "j \<noteq> k \<Longrightarrow> look s' j = look s j"
    by (auto split: option.splits)
qed

lemma del_total:
  assumes "inv s"
  obtains s' where "del k s = Some (s', if look s k = None then Some ErrPoolNotFound else None)"
    "inv s'" "look s' = (look s)(k := None)"
proof (cases "look s k")
  case None
  then have "look s = (look s)(k := None)" by (simp add: fun_upd_idem)
  with assms del_absent [OF None] None that [of s] show ?thesis by simp
next
  case (Some v)
  with del_present [OF assms Some] that show ?thesis by auto
qed

lemma view_ids:
  assumes "inv s" and "view s = Some vs"
  shows "ID ` set vs = dom (look s)" and "distinct (map ID vs)"
    and "v \<in> set vs \<longleftrightarrow> look s (ID v) = Some v" and "v \<in> set vs \<Longrightarrow> row_complete v"
proof -
  from view_look [OF assms(1)] assms(2)
  have d: "distinct (map ID vs)" and m: "\<And>v. v \<in> set vs \<longleftrightarrow> look s (ID v) = Some v" by auto
  show "distinct (map ID vs)" by (rule d)
  show "v \<in> set vs \<longleftrightarrow> look s (ID v) = Some v" by (rule m)
  show "v \<in> set vs \<Longrightarrow> row_complete v" using m look_ok [OF assms(1)] by blast
  show "ID ` set vs = dom (look s)"
  proof
    show "ID ` set vs \<subseteq> dom (look s)" using m by auto
    show "dom (look s) \<subseteq> ID ` set vs"
    proof
      fix k assume "k \<in> dom (look s)"
      then obtain v where v: "look s k = Some v" by blast
      with look_ok [OF assms(1)] have "ID v = k" by blast
      with v m [of v] show "k \<in> ID ` set vs" by blast
    qed
  qed
qed

lemma view_map_of:
  assumes "inv s" and "view s = Some vs"
  shows "map_of (map (\<lambda>v. (ID v, v)) vs) = look s"
proof
  fix k
  note V = view_ids [OF assms]
  show "map_of (map (\<lambda>v. (ID v, v)) vs) k = look s k"
  proof (cases "look s k")
    case None
    then have "k \<notin> ID ` set vs" using V(1) by (simp add: domIff)
    with None show ?thesis by (simp add: map_of_keyed_None)
  next
    case (Some v)
    with look_ok [OF assms(1)] have "ID v = k" by blast
    with Some V(3) map_of_keyed_distinct [OF V(2), of v "\<lambda>v. v"] show ?thesis by simp
  qed
qed

end

text \<open>\<^verbatim>\<open>addPool\<close>, branch by branch.\<close>

lemma addPool_cases:
  "addPool t0 t1 p ty f tid pid w r =
    (case pid p of
       Inl e \<Rightarrow> (w, r, Some (DependencyError ''poolAddressToID'' p e))
     | Inr k \<Rightarrow>
       (case pools_of r k of
          Some v \<Rightarrow> (w, r, Some ErrPoolExists)
        | None \<Rightarrow>
          (case tid w t0 of
             (w1, Inl e) \<Rightarrow> (w1, r, Some (DependencyError ''tokenAddressToID'' t0 e))
           | (w1, Inr a) \<Rightarrow>
             (case tid w1 t1 of
                (w2, Inl e) \<Rightarrow> (w2, r, Some (DependencyError ''tokenAddressToID'' t1 e))
              | (w2, Inr b) \<Rightarrow> (w2, append_row r k a b ty f, None)))))"
  by (auto simp: addPool_def pools_of_def append_row_def split: sum.split option.split prod.split)

interpretation reg: pool_store registry_wf pools_of addPool updatePool deletePool hasPool viewRegistry
proof (unfold_locales, goal_cases)
  case (1 s pid p k tid w t0 w1 x t1 w2 y ty f)
  then have "registry_wf (append_row s k x y ty f)"
    by (intro append_row_wf) (simp_all add: pools_of_def)
  with 1 show ?case
    by (simp add: addPool_cases pools_of_append_row registry_wf_safe fresh_pool_def)
next
  case (2 t0 t1 p ty f tid pid w s)
  show ?case by (auto simp: addPool_cases split: sum.split option.split prod.split)
next
  case (3 s k v a b)
  then obtain i where "idToIndex s k = Some i" "v = row s i" by (auto simp: pools_of_def)
  with 3(1) show ?case
    by (simp add: updatePool_eq pools_of_set_reserves set_reserves_wf registry_wf_safe
        with_reserves_def)
next
  case (4 s k q0 q1)
  then show ?case by (simp add: updatePool_missing pools_of_def)
next
  case (5 s k v)
  then obtain i where "idToIndex s k = Some i" by (auto simp: pools_of_def)
  with 5(1) show ?case
    by (simp add: deletePool_eq pools_of_drop_row drop_row_wf registry_wf_safe)
next
  case (6 s k)
  then show ?case by (simp add: deletePool_missing pools_of_def)
next
  case (7 k s)
  show ?case by (rule hasPool_iff)
next
  case (8 s k v)
  then show ?case
    using pools_of_ID [OF registry_wf_safe] pools_of_reserves by (simp add: row_complete_def)
next
  case (9 s)
  have "distinct (map ID (map (row s) [0..<length (ids s)]))"
    using registry_wf_distinct [OF 9] by (simp add: comp_def map_nth)
  moreover have "v \<in> set (map (row s) [0..<length (ids s)]) \<longleftrightarrow> pools_of s (ID v) = Some v" for v
    using 9 by (auto simp: pools_of_def registry_wf_index)
  ultimately show ?case using 9 by (simp add: viewRegistry_eq registry_wf_safe)
qed

section \<open>Sequences of operations\<close>

text \<open>The operations the system performs on its registry, with non-nil reserves.\<close>

datatype reg_op =
    OpAdd address address address u8 u16
  | OpUpdate int int u64
  | OpDelete u64

fun reg_step :: "'w token_to_id \<Rightarrow> ('w \<Rightarrow> to_id) \<Rightarrow> reg_op \<Rightarrow> 'w \<times> UniswapV2Registry
    \<Rightarrow> ('w \<times> UniswapV2Registry \<times> go_error option) go" where
  "reg_step tid pid (OpAdd t0 t1 p ty f) (w, r) = Some (addPool t0 t1 p ty f tid (pid w) w r)"
| "reg_step tid pid (OpUpdate a b k) (w, r) =
     do { (r', e) \<leftarrow> updatePool (Some a) (Some b) k r; Some (w, r', e) }"
| "reg_step tid pid (OpDelete k) (w, r) = do { (r', e) \<leftarrow> deletePool k r; Some (w, r', e) }"

fun reg_run :: "'w token_to_id \<Rightarrow> ('w \<Rightarrow> to_id) \<Rightarrow> reg_op list \<Rightarrow> 'w \<times> UniswapV2Registry
    \<Rightarrow> ('w \<times> UniswapV2Registry \<times> go_error option list) go" where
  "reg_run tid pid [] (w, r) = Some (w, r, [])"
| "reg_run tid pid (x # xs) (w, r) = do {
     (w', r', e) \<leftarrow> reg_step tid pid x (w, r);
     (w'', r'', es) \<leftarrow> reg_run tid pid xs (w', r');
     Some (w'', r'', e # es) }"

text \<open>The same on the abstract map.\<close>

fun map_step :: "'w token_to_id \<Rightarrow> ('w \<Rightarrow> to_id) \<Rightarrow> reg_op \<Rightarrow> 'w \<times> (u64 \<rightharpoonup> PoolView)
    \<Rightarrow> 'w \<times> (u64 \<rightharpoonup> PoolView) \<times> go_error option" where
  "map_step tid pid (OpAdd t0 t1 p ty f) (w, m) =
     (case pid w p of
        Inl e \<Rightarrow> (w, m, Some (DependencyError ''poolAddressToID'' p e))
      | Inr k \<Rightarrow>
        (case m k of
           Some v \<Rightarrow> (w, m, Some ErrPoolExists)
         | None \<Rightarrow>
           (case tid w t0 of
              (w1, Inl e) \<Rightarrow> (w1, m, Some (DependencyError ''tokenAddressToID'' t0 e))
            | (w1, Inr a) \<Rightarrow>
              (case tid w1 t1 of
                 (w2, Inl e) \<Rightarrow> (w2, m, Some (DependencyError ''tokenAddressToID'' t1 e))
               | (w2, Inr b) \<Rightarrow> (w2, m(k \<mapsto> fresh_pool k a b ty f), None)))))"
| "map_step tid pid (OpUpdate a b k) (w, m) =
     (case m k of
        None \<Rightarrow> (w, m, Some ErrPoolNotFound)
      | Some v \<Rightarrow> (w, m(k \<mapsto> with_reserves a b v), None))"
| "map_step tid pid (OpDelete k) (w, m) =
     (case m k of None \<Rightarrow> (w, m, Some ErrPoolNotFound) | Some v \<Rightarrow> (w, m(k := None), None))"

fun map_run :: "'w token_to_id \<Rightarrow> ('w \<Rightarrow> to_id) \<Rightarrow> reg_op list \<Rightarrow> 'w \<times> (u64 \<rightharpoonup> PoolView)
    \<Rightarrow> 'w \<times> (u64 \<rightharpoonup> PoolView) \<times> go_error option list" where
  "map_run tid pid [] (w, m) = (w, m, [])"
| "map_run tid pid (x # xs) (w, m) =
     (let (w', m', e) = map_step tid pid x (w, m);
          (w'', m'', es) = map_run tid pid xs (w', m') in (w'', m'', e # es))"

lemma reg_step_refines:
  assumes "registry_wf r"
  shows "\<exists>w' r' e. reg_step tid pid x (w, r) = Some (w', r', e) \<and> registry_wf r' \<and>
    map_step tid pid x (w, pools_of r) = (w', pools_of r', e)"
proof (cases x)
  case (OpAdd t0 t1 p ty f)
  have "registry_wf (append_row r k a b ty f)"
    "pools_of (append_row r k a b ty f) = (pools_of r)(k \<mapsto> fresh_pool k a b ty f)"
    if "pools_of r k = None" for k a b
    using that assms
    by (simp_all add: append_row_wf pools_of_append_row registry_wf_safe fresh_pool_def pools_of_def)
  with assms OpAdd show ?thesis
    by (auto simp: addPool_cases split: sum.split option.split prod.split)
next
  case (OpUpdate a b k)
  obtain r' e where "updatePool (Some a) (Some b) k r = Some (r', e)" "registry_wf r'"
    "pools_of r' = (case pools_of r k of None \<Rightarrow> pools_of r
       | Some v \<Rightarrow> (pools_of r)(k \<mapsto> with_reserves a b v))"
    "e = (if pools_of r k = None then Some ErrPoolNotFound else None)"
    by (rule reg.upd_total [OF assms])
  with OpUpdate show ?thesis by (auto split: option.split)
next
  case (OpDelete k)
  obtain r' where "registry_wf r'" "pools_of r' = (pools_of r)(k := None)"
    "deletePool k r = Some (r', if pools_of r k = None then Some ErrPoolNotFound else None)"
    by (rule reg.del_total [OF assms])
  with OpDelete show ?thesis by (auto simp: fun_upd_idem split: option.split)
qed

lemma reg_run_refines:
  assumes "registry_wf r"
  shows "\<exists>w' r' es. reg_run tid pid xs (w, r) = Some (w', r', es) \<and> registry_wf r' \<and>
    map_run tid pid xs (w, pools_of r) = (w', pools_of r', es)"
  using assms
proof (induction xs arbitrary: w r)
  case Nil
  then show ?case by simp
next
  case (Cons x xs)
  obtain w' r' e where 1: "reg_step tid pid x (w, r) = Some (w', r', e)" "registry_wf r'"
    "map_step tid pid x (w, pools_of r) = (w', pools_of r', e)"
    using reg_step_refines [OF Cons.prems, where tid = tid and pid = pid and x = x and w = w] by blast
  with Cons.IH [of r' w'] show ?case by auto
qed

text \<open>
  C1. The registry is a map from pool IDs to pools. Take a registry loaded from a snapshot with
  distinct IDs and non-nil reserves and run any sequence of additions, updates and deletions on
  it, with any identifier lookups: no operation panics, each returns the error the map
  specification returns, and afterwards looking an ID up with \<^verbatim>\<open>getPoolById\<close> gives what the map
  holds, \<^verbatim>\<open>hasPool\<close> is membership, and \<^verbatim>\<open>viewRegistry\<close> lists each pool of the map exactly
  once.
\<close>

theorem registry_refines_map:
  assumes "list_all row_complete vs" and "distinct (map ID vs)"
  shows "\<exists>r0 w' r es vs'. NewUniswapV2RegistryFromViews vs = Some r0 \<and>
    reg_run tid pid xs (w, r0) = Some (w', r, es) \<and>
    (\<exists>m. map_run tid pid xs (w, map_of (map (\<lambda>v. (ID v, v)) vs)) = (w', m, es) \<and>
      (\<forall>k. getPoolById k r = Some (case m k of None \<Rightarrow> Inl ErrPoolNotFound | Some v \<Rightarrow> Inr v)) \<and>
      (\<forall>k. hasPool k r = (k \<in> dom m)) \<and>
      viewRegistry r = Some vs' \<and> distinct vs' \<and> set vs' = ran m)"
proof -
  let ?r0 = "loaded vs 0"
  have load: "NewUniswapV2RegistryFromViews vs = Some ?r0" using assms(1) by (rule load_complete)
  have wf: "registry_wf ?r0" using assms(2) by (simp add: loaded_wf)
  have "viewRegistry ?r0 = Some vs" using assms(1) by (rule view_loaded)
  then have m0: "map_of (map (\<lambda>v. (ID v, v)) vs) = pools_of ?r0"
    by (rule reg.view_map_of [OF wf])
  obtain w' r es where run: "reg_run tid pid xs (w, ?r0) = Some (w', r, es)" "registry_wf r"
    "map_run tid pid xs (w, pools_of ?r0) = (w', pools_of r, es)"
    using reg_run_refines [OF wf, where tid = tid and pid = pid and xs = xs and w = w] by blast
  obtain vs' where vs': "viewRegistry r = Some vs'" using reg.view_look [OF run(2)] by blast
  note V = reg.view_ids [OF run(2) vs']
  have "set vs' = ran (pools_of r)"
  proof (rule set_eqI)
    fix v
    have "(\<exists>k. pools_of r k = Some v) \<longleftrightarrow> pools_of r (ID v) = Some v"
      using reg.look_ok [OF run(2)] by blast
    then show "v \<in> set vs' \<longleftrightarrow> v \<in> ran (pools_of r)" by (simp add: ran_def V(3))
  qed
  moreover have "distinct vs'" using V(2) by (simp add: distinct_map)
  moreover have "\<forall>k. hasPool k r = (k \<in> dom (pools_of r))" by (simp add: hasPool_iff domIff)
  moreover have "\<forall>k. getPoolById k r =
      Some (case pools_of r k of None \<Rightarrow> Inl ErrPoolNotFound | Some v \<Rightarrow> Inr v)"
    using getPoolById_eq [OF registry_wf_safe [OF run(2)]] by blast
  ultimately have final: "map_run tid pid xs (w, map_of (map (\<lambda>v. (ID v, v)) vs)) = (w', pools_of r, es) \<and>
      (\<forall>k. getPoolById k r =
        Some (case pools_of r k of None \<Rightarrow> Inl ErrPoolNotFound | Some v \<Rightarrow> Inr v)) \<and>
      (\<forall>k. hasPool k r = (k \<in> dom (pools_of r))) \<and>
      viewRegistry r = Some vs' \<and> distinct vs' \<and> set vs' = ran (pools_of r)"
    unfolding m0 using run(3) vs' by (intro conjI)
  show ?thesis
    by (rule exI [of _ ?r0], rule exI [of _ w'], rule exI [of _ r], rule exI [of _ es], rule exI [of _ vs'],
        rule conjI [OF load], rule conjI [OF run(1)], rule exI [of _ "pools_of r"], rule final)
qed

theorem registry_refines_map_witness:
  "list_all row_complete [fresh_pool 7 1 2 0 30, fresh_pool 9 1 3 0 25] \<and>
   (\<exists>r0 r vs'. NewUniswapV2RegistryFromViews [fresh_pool 7 1 2 0 30, fresh_pool 9 1 3 0 25] = Some r0 \<and>
      reg_run (\<lambda>w a. (w + 1, Inr (word_of_nat w))) (\<lambda>_ _. Inr 8) [OpUpdate 5 6 9, OpDelete 7, OpAdd 1 2 3 0 30, OpDelete 7] (4, r0) =
        Some (6, r, [None, None, None, Some ErrPoolNotFound]) \<and>
      viewRegistry r = Some vs' \<and>
      set vs' = {with_reserves 5 6 (fresh_pool 9 1 3 0 25), fresh_pool 8 4 5 0 30})"
proof -
  let ?vs = "[fresh_pool 7 1 2 0 30, fresh_pool 9 1 3 0 25]"
  let ?xs = "[OpUpdate 5 6 9, OpDelete 7, OpAdd 1 2 3 0 30, OpDelete 7]"
  have c: "list_all row_complete ?vs" "distinct (map ID ?vs)"
    by (simp_all add: row_complete_def)
  obtain r0 w' r es vs' m where *:
    "NewUniswapV2RegistryFromViews ?vs = Some r0"
    "reg_run (\<lambda>w a. (w + 1, Inr (word_of_nat w))) (\<lambda>_ _. Inr 8) ?xs (4, r0) = Some (w', r, es)"
    "map_run (\<lambda>w a. (w + 1, Inr (word_of_nat w))) (\<lambda>_ _. Inr 8) ?xs (4, map_of (map (\<lambda>v. (ID v, v)) ?vs)) = (w', m, es)"
    "viewRegistry r = Some vs'" "set vs' = ran m"
    using registry_refines_map [OF c, of "\<lambda>w a. (w + 1, Inr (word_of_nat w))" "\<lambda>_ _. Inr 8" ?xs 4] by blast
  from *(3) have m: "w' = 6" "es = [None, None, None, Some ErrPoolNotFound]"
    "m = [9 \<mapsto> with_reserves 5 6 (fresh_pool 9 1 3 0 25), 8 \<mapsto> fresh_pool 8 4 5 0 30]"
    by (auto simp: fun_eq_iff)
  have "ran m = {with_reserves 5 6 (fresh_pool 9 1 3 0 25), fresh_pool 8 4 5 0 30}"
    unfolding m(3) by (simp add: ran_map_upd_Some insert_commute)
  with * m(1,2) c(1) show ?thesis by auto
qed

lemma reg_step_safe:
  assumes "registry_safe r"
  shows "\<exists>w' r' e. reg_step tid pid x (w, r) = Some (w', r', e) \<and> registry_safe r'"
proof (cases x)
  case (OpAdd t0 t1 p ty f)
  with assms show ?thesis
    by (auto simp: addPool_cases append_row_safe split: sum.split option.split prod.split)
next
  case (OpUpdate a b k)
  with assms show ?thesis
    by (cases "idToIndex r k") (simp_all add: updatePool_missing updatePool_eq set_reserves_safe)
next
  case (OpDelete k)
  with assms show ?thesis
    by (cases "idToIndex r k") (simp_all add: deletePool_missing deletePool_eq drop_row_safe)
qed

lemma reg_run_safe:
  assumes "registry_safe r"
  shows "\<exists>w' r' es. reg_run tid pid xs (w, r) = Some (w', r', es) \<and> registry_safe r'"
  using assms
proof (induction xs arbitrary: w r)
  case Nil
  then show ?case by simp
next
  case (Cons x xs)
  obtain w' r' e where "reg_step tid pid x (w, r) = Some (w', r', e)" "registry_safe r'"
    using reg_step_safe [OF Cons.prems, where tid = tid and pid = pid and x = x and w = w] by blast
  with Cons.IH [of r' w'] show ?case by auto
qed

section \<open>Snapshots\<close>

text \<open>
  C16. The registry never panics. Loading a snapshot panics exactly when one of its views has a
  nil reserve; from every other snapshot, also one that repeats IDs, any sequence of additions,
  updates and deletions runs to its end, and viewing and looking up afterwards succeed.
\<close>

theorem registry_never_panics:
  "case NewUniswapV2RegistryFromViews vs of
     None \<Rightarrow> \<not> list_all row_complete vs
   | Some r0 \<Rightarrow> list_all row_complete vs \<and>
       (\<exists>w' r es. reg_run tid pid xs (w, r0) = Some (w', r, es) \<and> viewRegistry r \<noteq> None \<and>
          (\<forall>k. getPoolById k r \<noteq> None))"
proof (cases "list_all row_complete vs")
  case True
  obtain w' r es where "reg_run tid pid xs (w, loaded vs 0) = Some (w', r, es)" "registry_safe r"
    using reg_run_safe [OF loaded_safe, where tid = tid and pid = pid and xs = xs and w = w] by blast
  with True show ?thesis by (simp add: load_complete viewRegistry_eq getPoolById_eq)
next
  case False
  then show ?thesis by (simp add: load_incomplete)
qed

lemma loaded_view:
  assumes "registry_wf r"
  shows "loaded (map (row r) [0..<length (ids r)]) 0 = r"
proof -
  let ?vs = "map (row r) [0..<length (ids r)]"
  note safe = registry_wf_safe [OF assms]
  have ids: "map ID ?vs = ids r" by (simp add: comp_def map_nth)
  have "last_index ?vs = idToIndex r"
  proof
    fix k
    show "last_index ?vs k = idToIndex r k"
    proof (cases "idToIndex r k")
      case None
      then have "k \<notin> set (map ID ?vs)"
        unfolding ids using registry_wf_dom [OF assms] by (metis domIff)
      then have "k \<notin> ID ` set ?vs" by (simp only: set_map not_False_eq_True)
      with None show ?thesis using dom_last_index [of ?vs] by (simp only: domIff) (metis domIff)
    next
      case (Some i)
      then have "i < length (ids r)" "ids r ! i = k" using registry_wf_index [OF assms] by auto
      moreover have "distinct (map ID ?vs)" unfolding ids by (rule registry_wf_distinct [OF assms])
      ultimately show ?thesis using Some last_index_distinct [of ?vs i] by simp
    qed
  qed
  with safe show ?thesis by (simp add: loaded_def comp_def row_def map_nth_eq)
qed

text \<open>
  C17. A snapshot restores the registry exactly: viewing a registry with the index invariant and
  loading the views gives the same registry, with every column, the order of the pools and the
  index; and viewing what was loaded from complete views gives these views back.
\<close>

theorem snapshot_roundtrip:
  assumes "registry_wf r" and "list_all row_complete ws"
  shows "do { vs \<leftarrow> viewRegistry r; NewUniswapV2RegistryFromViews vs } = Some r \<and>
    do { r' \<leftarrow> NewUniswapV2RegistryFromViews ws; viewRegistry r' } = Some ws"
proof -
  let ?vs = "map (row r) [0..<length (ids r)]"
  have "list_all row_complete ?vs" by (simp add: list_all_iff)
  then show ?thesis
    using assms by (simp add: viewRegistry_eq registry_wf_safe load_complete loaded_view view_loaded)
qed

theorem snapshot_roundtrip_witness:
  "do { vs \<leftarrow> viewRegistry (loaded [fresh_pool 7 1 2 0 30, fresh_pool 9 1 3 0 25] 0);
     NewUniswapV2RegistryFromViews vs } = Some (loaded [fresh_pool 7 1 2 0 30, fresh_pool 9 1 3 0 25] 0)"
proof -
  have "registry_wf (loaded [fresh_pool 7 1 2 0 30, fresh_pool 9 1 3 0 25] 0)"
    by (simp add: loaded_wf)
  moreover have "list_all row_complete [fresh_pool 7 1 2 0 30]" by (simp add: row_complete_def)
  ultimately show ?thesis by (rule snapshot_roundtrip [THEN conjunct1])
qed

text \<open>A row in the columns whose ID the index does not know.\<close>

definition ghost :: "u64 \<Rightarrow> UniswapV2Registry \<Rightarrow> bool" where
  "ghost k r \<longleftrightarrow> registry_safe r \<and> k \<in> set (ids r) \<and> \<not> hasPool k r"

lemma ghost_seen:
  assumes "registry_safe r" and "k \<in> set (ids r)"
  shows "\<exists>ws. viewRegistry r = Some ws \<and> k \<in> ID ` set ws"
  using assms by (auto simp: viewRegistry_eq in_set_conv_nth image_iff)

lemma ghost_refused:
  assumes "ghost k r"
  shows "updatePool p q k r = Some (r, Some ErrPoolNotFound)"
    and "deletePool k r = Some (r, Some ErrPoolNotFound)"
  using assms by (simp_all add: ghost_def hasPool_def updatePool_missing deletePool_missing)

lemma ghost_step:
  assumes "ghost k r"
    and "case x of OpAdd t0 t1 p ty f \<Rightarrow> (\<forall>w. pid w p \<noteq> Inr k) | OpUpdate a b j \<Rightarrow> True | OpDelete j \<Rightarrow> j = k"
  shows "\<exists>w' r' e. reg_step tid pid x (w, r) = Some (w', r', e) \<and> ghost k r'"
proof (cases x)
  case (OpAdd t0 t1 p ty f)
  then have "pid w p \<noteq> Inr k" using assms(2) by simp
  moreover have "ghost k (append_row r j a b ty f)" if "j \<noteq> k" for j a b
    using that assms(1) append_row_safe by (simp add: ghost_def hasPool_def append_row_def)
  ultimately show ?thesis
    using assms(1) OpAdd by (auto simp: addPool_cases split: sum.split option.split prod.split)
next
  case (OpUpdate a b j)
  with assms(1) show ?thesis
    by (cases "idToIndex r j")
      (simp_all add: updatePool_missing updatePool_eq set_reserves_safe ghost_def hasPool_def)
next
  case (OpDelete j)
  with assms ghost_refused(2) [OF assms(1)] show ?thesis by simp
qed

lemma ghost_run:
  assumes "ghost k r"
    and "\<forall>x \<in> set xs. case x of OpAdd t0 t1 p ty f \<Rightarrow> (\<forall>w. pid w p \<noteq> Inr k)
      | OpUpdate a b j \<Rightarrow> True | OpDelete j \<Rightarrow> j = k"
  shows "\<exists>w' r' es. reg_run tid pid xs (w, r) = Some (w', r', es) \<and> ghost k r'"
  using assms
proof (induction xs arbitrary: w r)
  case Nil
  then show ?case by simp
next
  case (Cons x xs)
  obtain w' r' e where "reg_step tid pid x (w, r) = Some (w', r', e)" "ghost k r'"
    using ghost_step [OF Cons.prems(1), where x = x and pid = pid] Cons.prems(2) by force
  with Cons.IH [of r' w'] Cons.prems(2) show ?case by auto
qed

text \<open>Deleting another pool keeps the row, and gives it back to the index exactly if it is last.\<close>

lemma ghost_other_delete:
  assumes "ghost k r" and "deletePool j r = Some (r', None)"
  shows "registry_safe r'" and "k \<in> set (ids r')" and "hasPool k r' \<longleftrightarrow> last (ids r) = k"
proof -
  have g: "registry_safe r" "k \<in> set (ids r)" "idToIndex r k = None"
    using assms(1) by (simp_all add: ghost_def hasPool_def)
  obtain h where h: "idToIndex r j = Some h"
    using assms(2) by (cases "idToIndex r j") (simp_all add: deletePool_missing)
  then have r': "r' = drop_row r j h" using assms(2) deletePool_eq [OF g(1)] by simp
  have hl: "h < length (ids r)" "ids r ! h = j" using registry_safe_indexD [OF g(1) h] by simp_all
  have jk: "j \<noteq> k" using h g(3) by auto
  show "registry_safe r'" unfolding r' by (rule drop_row_safe [OF g(1) h])
  have "k \<in># mset (ids r) - {#ids r ! h#}" using g(2) jk hl(2) by (simp add: in_diff_count)
  then show "k \<in> set (ids r')"
    unfolding r' ids_drop_row mset_swap_remove [OF hl(1), symmetric] by simp
  have "last (ids r) = ids r ! (length (ids r) - 1)" using hl(1) by (intro last_conv_nth) auto
  then show "hasPool k r' \<longleftrightarrow> last (ids r) = k"
    unfolding r' using g(3) jk hl(2) by (auto simp: drop_row_def hasPool_def Let_def)
qed

lemma duplicate_ghost:
  assumes "i < length vs" and "j < length vs" and "i \<noteq> j" and "ID (vs ! i) = k" and "ID (vs ! j) = k"
  obtains r where "deletePool k (loaded vs 0) = Some (r, None)" "ghost k r"
proof -
  let ?r0 = "loaded vs 0"
  have len: "length (ids ?r0) = length vs" and nth: "m < length vs \<Longrightarrow> ids ?r0 ! m = ID (vs ! m)" for m
    by (simp_all add: loaded_def)
  have "k \<in> dom (idToIndex ?r0)"
    using assms(1,4) by (auto simp: loaded_def dom_last_index)
  then obtain h where h: "idToIndex ?r0 k = Some h" by blast
  with registry_safe_indexD [OF loaded_safe] len have hl: "h < length vs" by metis
  obtain m where m: "m < length vs" "m \<noteq> h" "ID (vs ! m) = k" using assms by metis
  let ?r = "drop_row ?r0 k h" and ?m = "if m = length vs - 1 then h else m"
  have "?m < length vs - 1" "ids ?r ! ?m = k"
    using m hl len nth by (auto simp: nth_swap_remove)
  then have "k \<in> set (ids ?r)" using len by (metis ids_drop_row length_swap_remove nth_mem)
  moreover have "registry_safe ?r" by (rule drop_row_safe [OF loaded_safe h])
  moreover have "\<not> hasPool k ?r" by (simp add: drop_row_def hasPool_def Let_def)
  ultimately show ?thesis
    using that [of ?r] deletePool_eq [OF loaded_safe h] by (simp add: ghost_def)
qed

text \<open>
  C33. A snapshot that repeats an ID leaves a ghost. The loader accepts it, and after the pool is
  deleted once the ID still has a row the index does not know: it is in the view, but updating or
  deleting it is \<^verbatim>\<open>ErrPoolNotFound\<close>. That stays so through any sequence of updates, of further
  attempts to delete the ID and of additions of other pools. Only the deletion of another pool can
  end it: the row stays in the view, and the index gets the ID back exactly if the row is the last
  one, which the deletion moves.
\<close>

theorem duplicate_snapshot_ghost:
  assumes "list_all row_complete vs" and "i < length vs" and "j < length vs" and "i \<noteq> j"
    and "ID (vs ! i) = k" and "ID (vs ! j) = k"
    and "\<forall>x \<in> set xs. case x of OpAdd t0 t1 p ty f \<Rightarrow> (\<forall>w. pid w p \<noteq> Inr k)
      | OpUpdate a b m \<Rightarrow> True | OpDelete m \<Rightarrow> m = k"
  shows "\<exists>start once w' r es ws. NewUniswapV2RegistryFromViews vs = Some start \<and>
    deletePool k start = Some (once, None) \<and> reg_run tid pid xs (w, once) = Some (w', r, es) \<and>
    viewRegistry r = Some ws \<and> k \<in> ID ` set ws \<and> \<not> hasPool k r \<and>
    updatePool p q k r = Some (r, Some ErrPoolNotFound) \<and>
    deletePool k r = Some (r, Some ErrPoolNotFound) \<and>
    (\<forall>m r'. deletePool m r = Some (r', None) \<longrightarrow>
       (\<exists>ws'. viewRegistry r' = Some ws' \<and> k \<in> ID ` set ws') \<and> (hasPool k r' \<longleftrightarrow> ID (last ws) = k))"
proof -
  obtain once where once: "deletePool k (loaded vs 0) = Some (once, None)" "ghost k once"
    using assms(2-6) by (rule duplicate_ghost)
  obtain w' r es where r: "reg_run tid pid xs (w, once) = Some (w', r, es)" "ghost k r"
    using ghost_run [OF once(2) assms(7)] by blast
  have safe: "registry_safe r" "k \<in> set (ids r)" "\<not> hasPool k r" using r(2) by (simp_all add: ghost_def)
  then obtain ws where ws: "viewRegistry r = Some ws" "k \<in> ID ` set ws" using ghost_seen by blast
  have "ids r = map ID ws"
    using ws(1) viewRegistry_eq [OF safe(1)] by (auto simp: comp_def map_nth)
  moreover have "ws \<noteq> []" using ws(2) by auto
  ultimately have "last (ids r) = ID (last ws)" by (simp add: last_map)
  then have "(\<exists>ws'. viewRegistry r' = Some ws' \<and> k \<in> ID ` set ws') \<and> (hasPool k r' \<longleftrightarrow> ID (last ws) = k)"
    if "deletePool m r = Some (r', None)" for m r'
    using ghost_other_delete [OF r(2) that] ghost_seen by simp
  then show ?thesis
    using load_complete [OF assms(1)] once(1) r ws safe(3) ghost_refused [OF r(2)] by blast
qed

theorem duplicate_snapshot_ghost_witness:
  "\<exists>start once w' r es ws. NewUniswapV2RegistryFromViews
      [fresh_pool 8 1 2 0 30, fresh_pool 7 1 2 0 30, fresh_pool 7 1 2 0 30] = Some start \<and>
    deletePool 7 start = Some (once, None) \<and>
    reg_run (\<lambda>w a. (w, Inr 1)) (\<lambda>_ _. Inr 9) [OpUpdate 5 6 8, OpDelete 7] ((), once) = Some (w', r, es) \<and>
    viewRegistry r = Some ws \<and> 7 \<in> ID ` set ws \<and> \<not> hasPool 7 r"
proof -
  let ?vs = "[fresh_pool 8 1 2 0 30, fresh_pool 7 1 2 0 30, fresh_pool 7 1 2 0 30]"
  let ?xs = "[OpUpdate 5 6 8, OpDelete 7]"
  have h: "list_all row_complete ?vs" "1 < length ?vs" "2 < length ?vs" "(1::nat) \<noteq> 2"
    "ID (?vs ! 1) = 7" "ID (?vs ! 2) = 7"
    by (simp_all add: row_complete_def)
  have "\<forall>x \<in> set ?xs. case x of OpAdd t0 t1 p ty f \<Rightarrow> (\<forall>w :: unit. (\<lambda>_ _. Inr 9) w p \<noteq> (Inr 7 :: go_error + u64))
      | OpUpdate a b m \<Rightarrow> True | OpDelete m \<Rightarrow> m = 7"
    by simp
  from duplicate_snapshot_ghost [OF h this, of "\<lambda>w a. (w, Inr 1)" "()"] show ?thesis by blast
qed

end
