(* ===== verification/Contracts.thy ===== *)
theory Contracts
  imports Config Registry_Spec
begin

text \<open>
  What the system relies on in its injected dependencies, as two contracts. \<open>chain_deps\<close>: the
  parallel slices a dependency returns have the lengths the callers index up to, and entries that
  come without an error carry non-nil reserves. \<open>persistent_deps\<close>: moreover the persistence layer
  is consistent, an ID it returns for a pool is the one it answers with later, and looking up
  tokens leaves the pools alone.
\<close>

section \<open>Well-shaped answers\<close>

text \<open>Entry \<open>i\<close> is an error, or all other slices have it and its reserves are set. An
  initializer that fails for all pools may return nil slices beside the errors.\<close>

definition init_answer_ok :: "nat \<Rightarrow> init_result \<Rightarrow> bool" where
  "init_answer_ok n res \<longleftrightarrow> length (ir_errs res) = n \<and>
     (\<forall>i < n. ir_errs res ! i = None \<longrightarrow>
        i < length (ir_token0s res) \<and> i < length (ir_token1s res) \<and> i < length (ir_poolTypes res) \<and>
        i < length (ir_feeBps res) \<and> i < length (ir_reserve0s res) \<and> i < length (ir_reserve1s res) \<and>
        ir_reserve0s res ! i \<noteq> None \<and> ir_reserve1s res ! i \<noteq> None)"

definition reserves_answer_ok :: "nat \<Rightarrow> reserves_result \<Rightarrow> bool" where
  "reserves_answer_ok n res = (case res of (r0s, r1s, errs) \<Rightarrow> length errs = n \<and>
     (\<forall>i < n. errs ! i = None \<longrightarrow> i < length r0s \<and> i < length r1s \<and>
        r0s ! i \<noteq> None \<and> r1s ! i \<noteq> None))"

definition updates_ok :: "sync_result \<Rightarrow> bool" where
  "updates_ok res = (case res of ((ps, r0s, r1s), e) \<Rightarrow>
     length r0s = length ps \<and> length r1s = length ps \<and> None \<notin> set r0s \<and> None \<notin> set r1s)"

section \<open>The contracts\<close>

locale chain_deps =
  fixes D :: "('w, 'c) Deps"
  assumes updates_shape: "updates_ok (updatedInBlock D w logs)"
    and init_shape: "init_answer_ok (length ps) (poolInitializer D w ps c)"
    and reserves_shape: "reserves_answer_ok (length ps) (getReserves D w ps c)"
    and register_shape: "registerPools D w t0s t1s ps = (w', ks, es) \<Longrightarrow>
      length t0s = length ps \<Longrightarrow> length t1s = length ps \<Longrightarrow>
      length ks = length ps \<and> length es = length ps"

locale persistent_deps = chain_deps D for D :: "('w, 'c) Deps" +
  assumes token_lookup: "poolAddressToID D (fst (tokenAddressToID D w t)) = poolAddressToID D w"
    and register_ids: "registerPools D w t0s t1s ps = (w', ks, es) \<Longrightarrow>
      length t0s = length ps \<Longrightarrow> length t1s = length ps \<Longrightarrow>
      i < length ps \<Longrightarrow> es ! i = None \<Longrightarrow> poolAddressToID D w' (ps ! i) = Inr (ks ! i)"

end
