(* ===== verification/Concurrency.thy ===== *)
theory Concurrency
  imports Maintenance Contracts
begin

text \<open>
  The goroutines of a running system and their interleavings (\<^verbatim>\<open>src/system.go\<close>). Each goroutine
  is a step relation over the shared state with a program counter of its own; its steps are the
  phases of its routine, cut at the lock \<^verbatim>\<open>s.mu\<close>, at lock-free reads of the view and at calls
  to the outside. A section under the lock is one step, as are the error reports of one phase,
  which commute with all other steps. Between steps the outside world may change in any way; a
  section under the lock sees only its own changes of it.

  Nothing makes a goroutine take its next step, so one whose call never returns is one that takes
  no further step, and what holds in every reachable state holds whichever calls hang. Waiting for
  the lock is not a state here: that a section is taken by one thread at a time, is always left
  again and never waits for itself is the subject of \<open>Locking\<close>.
\<close>

section \<open>The goroutines\<close>

datatype listener_pc =
    L_Wait
  | L_Apply u64 BlockData
  | L_Finish u64 nat "go_error list"
  | L_Stopped

text \<open>\<^verbatim>\<open>listenBlockEventer\<close>: a block arrives, or the context is done.\<close>

inductive listener_step ::
  "('w, 'c) Deps \<Rightarrow> ('w, 'c) Env \<Rightarrow> 'w \<Rightarrow> State \<times> listener_pc \<Rightarrow> State \<times> listener_pc \<Rightarrow> bool"
  for D E w where
  skip: "\<not> testBloom D (bl_Bloom b) \<Longrightarrow> listener_step D E w (s, L_Wait) (block_skip b s, L_Wait)"
| fetched: "testBloom D (bl_Bloom b) \<Longrightarrow> block_fetch D E w b s = (s', Inr d) \<Longrightarrow>
    listener_step D E w (s, L_Wait) (s', L_Apply (NumberU64 b) d)"
| not_fetched: "testBloom D (bl_Bloom b) \<Longrightarrow> block_fetch D E w b s = (s', Inl err) \<Longrightarrow>
    listener_step D E w (s, L_Wait) (errorHandler err s', L_Wait)"
| applied: "block_apply D w bn d s = Some (s', n, errs) \<Longrightarrow>
    listener_step D E w (s, L_Apply bn d) (s', L_Finish bn n errs)"
| finished: "listener_step D E w (s, L_Finish bn n errs) (block_finish bn n errs s, L_Wait)"
| stopped: "listener_step D E w (s, L_Wait) (s, L_Stopped)"

datatype 'c init_pc =
    I_Wait
  | I_Gauge "address list"
  | I_Client "address list"
  | I_Call "address list" 'c
  | I_Apply "address list" init_result
  | I_Finish int "go_error list"
  | I_Stopped

text \<open>\<^verbatim>\<open>startInitializer\<close>: without a positive frequency the goroutine returns at once.\<close>

definition startInitializer :: "('w, 'c) Deps \<Rightarrow> 'c init_pc" where
  "startInitializer D = (if sint (initFrequency D) \<le> 0 then I_Stopped else I_Wait)"

inductive initializer_step ::
  "('w, 'c) Deps \<Rightarrow> 'w \<times> State \<times> 'c init_pc \<Rightarrow> 'w \<times> State \<times> 'c init_pc \<Rightarrow> bool"
  for D where
  drained: "go_range_order ord \<Longrightarrow> drain_pending ord s = (s', ps) \<Longrightarrow>
    initializer_step D (w, s, I_Wait) (w, s', I_Gauge ps)"
| nothing_pending: "initializer_step D (w, s, I_Gauge []) (w, reset_gauge s, I_Wait)"
| gauge_reset: "ps \<noteq> [] \<Longrightarrow> initializer_step D (w, s, I_Gauge ps) (w, reset_gauge s, I_Client ps)"
| no_client: "getClient D w = Inl err \<Longrightarrow>
    initializer_step D (w, s, I_Client ps) (w, init_no_client err s, I_Wait)"
| has_client: "getClient D w = Inr c \<Longrightarrow> initializer_step D (w, s, I_Client ps) (w, s, I_Call ps c)"
| called: "initializer_step D (w, s, I_Call ps c) (w, s, I_Apply ps (poolInitializer D w ps c))"
| applied: "init_apply D w ps res s = Some (w', s', n, errs) \<Longrightarrow>
    initializer_step D (w, s, I_Apply ps res) (w', s', I_Finish n errs)"
| finished: "initializer_step D (w, s, I_Finish n errs) (w, init_finish n errs s, I_Wait)"
| stopped: "initializer_step D (w, s, I_Wait) (w, s, I_Stopped)"

datatype 'c recon_pc =
    R_Wait
  | R_Client "PoolView list"
  | R_Resolve "PoolView list" 'c
  | R_Fetch Resolved 'c
  | R_Compare Resolved reserves_result
  | R_Apply "PendingUpdate list"
  | R_Stopped

definition startStateReconciler :: "('w, 'c) Deps \<Rightarrow> 'c recon_pc" where
  "startStateReconciler D = (if sint (resyncFrequency D) \<le> 0 then R_Stopped else R_Wait)"

inductive reconciler_step ::
  "('w, 'c) Deps \<Rightarrow> 'w \<Rightarrow> State \<times> 'c recon_pc \<Rightarrow> State \<times> 'c recon_pc \<Rightarrow> bool"
  for D w where
  empty_view: "View s = [] \<Longrightarrow> reconciler_step D w (s, R_Wait) (s, R_Wait)"
| viewed: "View s \<noteq> [] \<Longrightarrow> reconciler_step D w (s, R_Wait) (s, R_Client (View s))"
| no_client: "getClient D w = Inl err \<Longrightarrow>
    reconciler_step D w (s, R_Client vs) (recon_no_client err s, R_Wait)"
| has_client: "getClient D w = Inr c \<Longrightarrow> reconciler_step D w (s, R_Client vs) (s, R_Resolve vs c)"
| resolved: "recon_resolve D w vs s = (s', a) \<Longrightarrow>
    reconciler_step D w (s, R_Resolve vs c) (s', R_Fetch a c)"
| fetched: "reconciler_step D w (s, R_Fetch a c) (s, R_Compare a (getReserves D w (rs_addrs a) c))"
| compared: "recon_compare a fresh s = Some (s', ups) \<Longrightarrow>
    reconciler_step D w (s, R_Compare a fresh) (s', R_Apply ups)"
| applied: "recon_apply ups s = Some s' \<Longrightarrow> reconciler_step D w (s, R_Apply ups) (s', R_Wait)"
| stopped: "reconciler_step D w (s, R_Wait) (s, R_Stopped)"

datatype prune_pc =
    P_Wait
  | P_Delete "u64 list"
  | P_Report "u64 list" "go_error option list"
  | P_Stopped

definition startPruner :: "('w, 'c) Deps \<Rightarrow> prune_pc" where
  "startPruner D = (if sint (pruneFrequency D) \<le> 0 then P_Stopped else P_Wait)"

inductive pruner_step ::
  "('w, 'c) Deps \<Rightarrow> 'w \<Rightarrow> State \<times> prune_pc \<Rightarrow> State \<times> prune_pc \<Rightarrow> bool"
  for D w where
  scanned_none: "prune_scan D w s = (s', []) \<Longrightarrow> pruner_step D w (s, P_Wait) (s', P_Wait)"
| scanned: "prune_scan D w s = (s', ks) \<Longrightarrow> ks \<noteq> [] \<Longrightarrow>
    pruner_step D w (s, P_Wait) (s', P_Delete ks)"
| deleted: "DeletePools ks s = Some (s', errs) \<Longrightarrow>
    pruner_step D w (s, P_Delete ks) (s', P_Report ks errs)"
| reported: "prune_errors ks 0 errs s = Some s' \<Longrightarrow>
    pruner_step D w (s, P_Report ks errs) (s', P_Wait)"
| stopped: "pruner_step D w (s, P_Wait) (s, P_Stopped)"

section \<open>The running system\<close>

record ('w, 'c) Conf =
  world :: 'w
  sys :: State
  listener :: listener_pc
  initializer :: "'c init_pc"
  reconciler :: "'c recon_pc"
  pruner :: prune_pc

text \<open>Who takes a step: a goroutine, a caller of the public methods, or the environment.\<close>

datatype actor = Listener | Initializer | Reconciler | Pruner | Caller | Environment

inductive sys_step ::
  "('w, 'c) Deps \<Rightarrow> ('w, 'c) Env \<Rightarrow> ('w, 'c) Conf \<Rightarrow> actor \<Rightarrow> ('w, 'c) Conf \<Rightarrow> bool"
  for D E where
  environment: "sys_step D E c Environment (c\<lparr>world := w'\<rparr>)"
| listener: "listener_step D E (world c) (sys c, listener c) (s', pc) \<Longrightarrow>
    sys_step D E c Listener (c\<lparr>sys := s', listener := pc\<rparr>)"
| initializer: "initializer_step D (world c, sys c, initializer c) (w', s', pc) \<Longrightarrow>
    sys_step D E c Initializer (c\<lparr>world := w', sys := s', initializer := pc\<rparr>)"
| reconciler: "reconciler_step D (world c) (sys c, reconciler c) (s', pc) \<Longrightarrow>
    sys_step D E c Reconciler (c\<lparr>sys := s', reconciler := pc\<rparr>)"
| pruner: "pruner_step D (world c) (sys c, pruner c) (s', pc) \<Longrightarrow>
    sys_step D E c Pruner (c\<lparr>sys := s', pruner := pc\<rparr>)"
| delete_one: "DeletePool k (sys c) = Some (s', e) \<Longrightarrow> sys_step D E c Caller (c\<lparr>sys := s'\<rparr>)"
| delete_many: "DeletePools ks (sys c) = Some (s', errs) \<Longrightarrow> sys_step D E c Caller (c\<lparr>sys := s'\<rparr>)"

inductive_cases listener_stepE [elim]: "listener_step D E w (s, pc) (s', pc')"
inductive_cases initializer_stepE [elim]: "initializer_step D (w, s, pc) (w', s', pc')"
inductive_cases reconciler_stepE [elim]: "reconciler_step D w (s, pc) (s', pc')"
inductive_cases pruner_stepE [elim]: "pruner_step D w (s, pc) (s', pc')"
inductive_cases sys_stepE: "sys_step D E c l c'"

inductive_simps listener_Apply: "listener_step D E w (s, L_Apply bn d) x"
inductive_simps listener_Finish: "listener_step D E w (s, L_Finish bn n errs) x"
inductive_simps listener_Stopped: "listener_step D E w (s, L_Stopped) x"

text \<open>The section under the lock, or the comparison or report, at which an actor is panics.\<close>

inductive sys_panics :: "('w, 'c) Deps \<Rightarrow> ('w, 'c) Conf \<Rightarrow> bool" for D where
  "listener c = L_Apply bn d \<Longrightarrow> block_apply D (world c) bn d (sys c) = None \<Longrightarrow> sys_panics D c"
| "initializer c = I_Apply ps res \<Longrightarrow> init_apply D (world c) ps res (sys c) = None \<Longrightarrow> sys_panics D c"
| "reconciler c = R_Compare a fresh \<Longrightarrow> recon_compare a fresh (sys c) = None \<Longrightarrow> sys_panics D c"
| "reconciler c = R_Apply ups \<Longrightarrow> recon_apply ups (sys c) = None \<Longrightarrow> sys_panics D c"
| "pruner c = P_Delete ks \<Longrightarrow> DeletePools ks (sys c) = None \<Longrightarrow> sys_panics D c"
| "pruner c = P_Report ks errs \<Longrightarrow> prune_errors ks 0 errs (sys c) = None \<Longrightarrow> sys_panics D c"
| "DeletePool k (sys c) = None \<Longrightarrow> sys_panics D c"
| "DeletePools ks (sys c) = None \<Longrightarrow> sys_panics D c"

text \<open>What construction leaves running, in any outside world.\<close>

definition start_conf :: "('w, 'c) Deps \<Rightarrow> State \<Rightarrow> 'w \<Rightarrow> ('w, 'c) Conf" where
  "start_conf D s w = \<lparr>world = w, sys = s, listener = L_Wait, initializer = startInitializer D,
     reconciler = startStateReconciler D, pruner = startPruner D\<rparr>"

text \<open>Any number of steps of any actors.\<close>

definition sys_run :: "('w, 'c) Deps \<Rightarrow> ('w, 'c) Env \<Rightarrow> ('w, 'c) Conf \<Rightarrow> ('w, 'c) Conf \<Rightarrow> bool" where
  "sys_run D E = (\<lambda>c c'. \<exists>l. sys_step D E c l c')\<^sup>*\<^sup>*"

end
