(* ===== verification/Wiring.thy ===== *)
theory Wiring
  imports Contracts System
begin

text \<open>
  The system wired with what the repository provides: the parsers of \<^verbatim>\<open>src/logs\<close>, the initializer,
  the reserves reader, and the persistence layer of the test suite (\<^verbatim>\<open>mockPersistence\<close> of
  \<^verbatim>\<open>src/system_test.go\<close>). The interpretations show that it meets the contracts of the
  dependencies. The client, the block list, the bloom filter and the event signatures stay
  parameters.
\<close>

section \<open>The persistence layer of the test suite\<close>

record Persistence =
  tokenCounter :: u64
  poolCounter :: u64
  tokens :: "address \<rightharpoonup> u64"
  pools :: "address \<rightharpoonup> u64"
  idToPool :: "u64 \<rightharpoonup> address"
  failOnRegister :: bool

definition newMockPersistence :: Persistence where
  "newMockPersistence = \<lparr>tokenCounter = 100, poolCounter = 1000, tokens = Map.empty,
     pools = Map.empty, idToPool = Map.empty, failOnRegister = False\<rparr>"

definition mock_TokenAddressToID :: "Persistence token_to_id" where
  "mock_TokenAddressToID p addr =
     (case tokens p addr of
        Some k \<Rightarrow> (p, Inr k)
      | None \<Rightarrow>
        (let c = tokenCounter p + 1 in
         (p\<lparr>tokenCounter := c, tokens := (tokens p)(addr \<mapsto> c)\<rparr>, Inr c)))"

definition mock_PoolAddressToID :: "Persistence \<Rightarrow> to_id" where
  "mock_PoolAddressToID p addr =
     (case pools p addr of Some k \<Rightarrow> Inr k | None \<Rightarrow> Inl (ErrorString [Lit ''mock: pool not found'']))"

definition mock_PoolIDToAddress :: "Persistence \<Rightarrow> u64 \<Rightarrow> go_error + address" where
  "mock_PoolIDToAddress p k =
     (case idToPool p k of Some a \<Rightarrow> Inr a | None \<Rightarrow> Inl (ErrorString [Lit ''mock: pool ID not found'']))"

definition mock_RegisterPool ::
  "Persistence \<Rightarrow> address \<Rightarrow> address \<Rightarrow> address \<Rightarrow> Persistence \<times> u64 \<times> go_error option" where
  "mock_RegisterPool p t0 t1 poolAddr =
     (if failOnRegister p then (p, 0, Some (ErrorString [Lit ''mock: forced registration failure'']))
      else case pools p poolAddr of
        Some k \<Rightarrow> (p, k, None)
      | None \<Rightarrow>
        (let c = poolCounter p + 1 in
         (p\<lparr>poolCounter := c, pools := (pools p)(poolAddr \<mapsto> c),
            idToPool := (idToPool p)(c \<mapsto> poolAddr)\<rparr>, c, None)))"

fun register_loop ::
  "(address \<times> address \<times> address) list \<Rightarrow> Persistence \<Rightarrow> Persistence \<times> u64 list \<times> go_error option list" where
  "register_loop [] p = (p, [], [])"
| "register_loop ((t0, t1, addr) # rest) p =
     (let (p1, k, e) = mock_RegisterPool p t0 t1 addr; (p2, ks, es) = register_loop rest p1 in
      (p2, k # ks, e # es))"

definition mock_RegisterPools ::
  "Persistence \<Rightarrow> address list \<Rightarrow> address list \<Rightarrow> address list
     \<Rightarrow> (Persistence \<times> u64 list \<times> go_error option list) go" where
  "mock_RegisterPools p t0s t1s poolAddrs =
     (if length t0s \<noteq> length t1s \<or> length t0s \<noteq> length poolAddrs then None
      else Some (register_loop (zip t0s (zip t1s poolAddrs)) p))"

section \<open>The wired system\<close>

text \<open>The outside world: the persistence layer, and what the other dependencies find there.\<close>

record World =
  persistence :: Persistence
  blocked :: "address \<Rightarrow> bool"
  client_err :: "go_error option"
  ctx_err :: "nat \<Rightarrow> go_error option"
  contract :: "nat \<Rightarrow> eth_call"
  order_pools :: "address list \<Rightarrow> address list"
  order_syncs :: "(address \<times> syncData) list \<Rightarrow> (address \<times> syncData) list"

text \<open>What does not change: the events, the selectors, the initializer and the settings.\<close>

record Setup =
  su_swapEvent :: hash
  su_syncEvent :: hash
  su_sigs :: method_sigs
  su_bytesToAddress :: bytes_to_address
  su_initializer :: PoolInitializer
  su_bloomTest :: "bloom \<Rightarrow> hash \<Rightarrow> bool"
  su_frequency :: i64
  su_retries :: i64

definition wired_config :: "Setup \<Rightarrow> (World, unit, string list) Config" where
  "wired_config u = \<lparr>SystemName = ''uniswap_v2'', PrometheusReg = Some name_list, NewBlockEventer = Some (),
     GetClient = Some (\<lambda>w. case client_err w of None \<Rightarrow> Inr () | Some e \<Rightarrow> Inl e),
     InBlockedList = Some blocked,
     PoolInitializerFn = Some (\<lambda>w ps c. Initialize (su_initializer u) (su_bytesToAddress u)
       (su_sigs u) (ctx_err w) (contract w) ps),
     DiscoverPoolsFn = Some (\<lambda>w. DiscoverPools (su_swapEvent u) (order_pools w)),
     UpdatedInBlockFn = Some (\<lambda>w. UpdatedInBlock (su_syncEvent u) (order_syncs w)),
     GetReservesFn = Some (\<lambda>w ps c. GetReserves (ctx_err w) (getReservesSig (su_sigs u)) (contract w) ps),
     TokenAddressToID = Some (\<lambda>w t. case mock_TokenAddressToID (persistence w) t of
       (p, k) \<Rightarrow> (w\<lparr>persistence := p\<rparr>, k)),
     PoolAddressToID = Some (\<lambda>w. mock_PoolAddressToID (persistence w)),
     PoolIDToAddress = Some (\<lambda>w. mock_PoolIDToAddress (persistence w)),
     RegisterPool = Some (\<lambda>w t0 t1 a. case mock_RegisterPool (persistence w) t0 t1 a of
       (p, k, e) \<Rightarrow> (w\<lparr>persistence := p\<rparr>, k, e)),
     RegisterPools = Some (\<lambda>w t0s t1s ps. case the (mock_RegisterPools (persistence w) t0s t1s ps) of
       (p, ks, es) \<Rightarrow> (w\<lparr>persistence := p\<rparr>, ks, es)),
     ErrorHandlerFn = Some (), TestBloom = Some (SwapEventInBloom (su_bloomTest u) (su_swapEvent u)),
     FilterTopics = [[su_swapEvent u, su_syncEvent u]], PruneFrequency = su_frequency u,
     InitFrequency = su_frequency u, ResyncFrequency = su_frequency u, LogMaxRetries = su_retries u,
     LogRetryDelay = 0, Logger = Some ()\<rparr>"

definition wired :: "Setup \<Rightarrow> (World, unit) Deps" where
  "wired u = the (deps_of (wired_config u))"

lemma wired_config_valid: "validate (wired_config u) = None"
  by (simp add: wired_config_def validate_def)

lemma deps_of_wired: "deps_of (wired_config u) = Some (wired u)"
  by (simp add: wired_def wired_config_def deps_of_def)

lemma wired_simps [simp]:
  "getClient (wired u) = (\<lambda>w. case client_err w of None \<Rightarrow> Inr () | Some e \<Rightarrow> Inl e)"
  "inBlockedList (wired u) = blocked"
  "poolInitializer (wired u) w ps c = Initialize (su_initializer u) (su_bytesToAddress u)
     (su_sigs u) (ctx_err w) (contract w) ps"
  "discoverPools (wired u) w = DiscoverPools (su_swapEvent u) (order_pools w)"
  "updatedInBlock (wired u) w = UpdatedInBlock (su_syncEvent u) (order_syncs w)"
  "getReserves (wired u) w ps c = GetReserves (ctx_err w) (getReservesSig (su_sigs u)) (contract w) ps"
  "tokenAddressToID (wired u) w t =
     (case mock_TokenAddressToID (persistence w) t of (p, k) \<Rightarrow> (w\<lparr>persistence := p\<rparr>, k))"
  "poolAddressToID (wired u) w = mock_PoolAddressToID (persistence w)"
  "poolIDToAddress (wired u) w = mock_PoolIDToAddress (persistence w)"
  "registerPools (wired u) w t0s t1s ps =
     (case the (mock_RegisterPools (persistence w) t0s t1s ps) of
        (p, ks, es) \<Rightarrow> (w\<lparr>persistence := p\<rparr>, ks, es))"
  "testBloom (wired u) b = su_bloomTest u b (su_swapEvent u)"
  "filterTopics (wired u) = [[su_swapEvent u, su_syncEvent u]]"
  "logMaxRetries (wired u) = su_retries u" "pruneFrequency (wired u) = su_frequency u"
  "initFrequency (wired u) = su_frequency u" "resyncFrequency (wired u) = su_frequency u"
  by (simp_all add: wired_def wired_config_def deps_of_def SwapEventInBloom_def)

section \<open>It meets the contracts\<close>

lemma UpdatedInBlock_ok: "updates_ok (UpdatedInBlock ev ord logs)"
  by (auto simp: UpdatedInBlock_def updates_ok_def Let_def)

lemma init_worker_reserves:
  assumes "is_err (init_worker p bta sigs ce call a) = None"
  shows "is_reserve0 (init_worker p bta sigs ce call a) \<noteq> None \<and>
    is_reserve1 (init_worker p bta sigs ce call a) \<noteq> None"
proof -
  obtain fa f t0 t1 r0 r1 where "ce = None" "getFactory bta sigs call a = Inr fa"
    "factoryMap p fa = Some f" "getTokens bta sigs call a = Inr (t0, t1)"
    "getReserves_init sigs call a = Inr (r0, r1)"
    "init_worker p bta sigs ce call a =
      \<lparr>is_token0 = t0, is_token1 = t1, is_type = 0, is_fee = kf_FeeBps f,
       is_reserve0 = r0, is_reserve1 = r1, is_err = None\<rparr>"
    using init_worker_ok [OF assms] .
  then show ?thesis by (auto simp: getReserves_init_Inr)
qed

lemma Initialize_ok: "init_answer_ok (length ps) (Initialize p bta sigs ce calls ps)"
  using Initialize_lengths [of ps p bta sigs ce calls]
  unfolding init_answer_ok_def init_lengths_def Initialize_eq
  by (simp add: init_slots_nth init_worker_reserves)

lemma reserves_worker_reserves:
  "snd (snd (reserves_worker ce sig call p)) = None \<Longrightarrow>
    fst (reserves_worker ce sig call p) \<noteq> None \<and> fst (snd (reserves_worker ce sig call p)) \<noteq> None"
  by (auto simp: reserves_worker_cases getReservesForPool_def split: option.splits sum.splits if_splits)

lemma GetReserves_ok: "reserves_answer_ok (length ps) (GetReserves ce sig calls ps)"
  by (simp add: reserves_answer_ok_def GetReserves_def reserve_slots_def Let_def
      reserves_worker_reserves del: not_None_eq)

lemma register_loop_lengths:
  "register_loop xs p = (p', ks, es) \<Longrightarrow> length ks = length xs \<and> length es = length xs"
  by (induction xs p arbitrary: p' ks es rule: register_loop.induct)
    (auto simp: Let_def split: prod.splits)

lemma mock_RegisterPool_keeps:
  assumes "mock_RegisterPool p t0 t1 a = (p', k, e)"
  shows "pools p b = Some j \<Longrightarrow> pools p' b = Some j" and "e = None \<Longrightarrow> pools p' a = Some k"
  using assms by (auto simp: mock_RegisterPool_def Let_def split: if_splits option.splits)

lemma register_loop_keeps:
  "register_loop xs p = (p', ks, es) \<Longrightarrow> pools p b = Some j \<Longrightarrow> pools p' b = Some j"
proof (induction xs p arbitrary: p' ks es rule: register_loop.induct)
  case (1 p)
  then show ?case by simp
next
  case (2 t0 t1 a rest p)
  then show ?case
    by (auto simp: Let_def split: prod.splits dest: mock_RegisterPool_keeps(1))
qed

lemma register_loop_ids:
  assumes "register_loop xs p = (p', ks, es)" and "i < length xs" and "es ! i = None"
  shows "pools p' (snd (snd (xs ! i))) = Some (ks ! i)"
  using assms
proof (induction xs p arbitrary: p' ks es i rule: register_loop.induct)
  case (1 p)
  then show ?case by simp
next
  case (2 t0 t1 a rest p)
  obtain p1 k e where r: "mock_RegisterPool p t0 t1 a = (p1, k, e)" by (metis prod_cases3)
  obtain ks2 es2 where l: "register_loop rest p1 = (p', ks2, es2)" "ks = k # ks2" "es = e # es2"
    using 2(2) r by (auto simp: Let_def split: prod.splits)
  show ?case
  proof (cases i)
    case 0
    with 2(4) l have "pools p1 a = Some k" using mock_RegisterPool_keeps(2) [OF r] by simp
    then have "pools p' a = Some k" by (rule register_loop_keeps [OF l(1)])
    with 0 l show ?thesis by simp
  next
    case (Suc j)
    then show ?thesis using 2(1) [OF r [symmetric] refl refl l(1), of j] 2(3,4) l by simp
  qed
qed

interpretation wired: persistent_deps "wired u" for u
proof (unfold_locales, goal_cases)
  case (1 w logs)
  show ?case by (simp add: UpdatedInBlock_ok)
next
  case (2 ps w c)
  show ?case by (simp add: Initialize_ok)
next
  case (3 ps w c)
  show ?case by (simp add: GetReserves_ok)
next
  case (4 w t0s t1s ps w' ks es)
  then show ?case
    by (auto simp: mock_RegisterPools_def split: prod.splits dest: register_loop_lengths)
next
  case (5 w t)
  show ?case
    by (auto simp: mock_TokenAddressToID_def mock_PoolAddressToID_def Let_def split: option.split)
next
  case (6 w t0s t1s ps w' ks es i)
  then show ?case
    using register_loop_ids [of "zip t0s (zip t1s ps)" "persistence w" _ ks es i]
    by (auto simp: mock_RegisterPools_def mock_PoolAddressToID_def split: prod.splits)
qed

section \<open>An instance\<close>

text \<open>A concrete setup with one trusted factory, and a world in which only address 9 is blocked and
  the contract at address 7 belongs to the factory. They are the inputs of the witnesses.\<close>

definition example_setup :: "i64 \<Rightarrow> Setup" where
  "example_setup n = \<lparr>su_swapEvent = 1, su_syncEvent = 2, su_sigs = example_sigs,
     su_bytesToAddress = (\<lambda>_. 5),
     su_initializer = \<lparr>factoryMap = [5 \<mapsto> example_factory], semaphore = 2\<rparr>,
     su_bloomTest = (\<lambda>b e. b = 1), su_frequency = 1, su_retries = n\<rparr>"

definition example_world :: "Persistence \<Rightarrow> World" where
  "example_world p = \<lparr>persistence = p, blocked = (\<lambda>a. a = 9), client_err = None,
     ctx_err = (\<lambda>_. None), contract = (\<lambda>_. example_call 7 0), order_pools = (\<lambda>ks. ks),
     order_syncs = (\<lambda>es. es)\<rparr>"

text \<open>A node that has indexed the block's logs only by the second attempt.\<close>

definition example_env :: "Log list \<Rightarrow> (World, unit) Env" where
  "example_env logs = \<lparr>filterLogs = (\<lambda>w c q i. Inr (if i \<ge> 2 then logs else [])),
     ctxDone = (\<lambda>_ _. None)\<rparr>"

definition swap_log :: "address \<Rightarrow> Log" where
  "swap_log a = \<lparr>Address = a, Topics = [1], Data = []\<rparr>"

definition sync_log :: "address \<Rightarrow> int \<Rightarrow> int \<Rightarrow> Log" where
  "sync_log a x y = \<lparr>Address = a, Topics = [2], Data = be_bytes 32 x @ be_bytes 32 y\<rparr>"

definition example_block :: Block where
  "example_block = \<lparr>bl_Number = 17, bl_Hash = 0, bl_Bloom = 1\<rparr>"

end
