(* ===== verification/Block_Props.thy ===== *)
theory Block_Props
  imports System Wiring
begin

text \<open>
  What holds of the block path: the invariant of the state, the retry loop, the update loop, the
  queue of discovered pools, and \<^verbatim>\<open>handleNewBlock\<close> as a whole.
\<close>

section \<open>The state\<close>

lemma errorHandler_simps [simp]:
  "registry (errorHandler e s) = registry s" "cachedView (errorHandler e s) = cachedView s"
  "lastUpdatedAtBlock (errorHandler e s) = lastUpdatedAtBlock s"
  "pendingInit (errorHandler e s) = pendingInit s" "handled (errorHandler e s) = handled s @ [e]"
  "m_ErrorsTotal (metrics (errorHandler e s)) =
     (m_ErrorsTotal (metrics s))(determineErrorType e := Suc (m_ErrorsTotal (metrics s) (determineErrorType e)))"
  "m_PoolsInRegistry (metrics (errorHandler e s)) = m_PoolsInRegistry (metrics s)"
  "m_PendingInitQueueSize (metrics (errorHandler e s)) = m_PendingInitQueueSize (metrics s)"
  by (simp_all add: errorHandler_def Let_def)

lemma handle_errors_simps [simp]:
  "registry (handle_errors es s) = registry s" "cachedView (handle_errors es s) = cachedView s"
  "lastUpdatedAtBlock (handle_errors es s) = lastUpdatedAtBlock s"
  "pendingInit (handle_errors es s) = pendingInit s" "handled (handle_errors es s) = handled s @ es"
  "m_PoolsInRegistry (metrics (handle_errors es s)) = m_PoolsInRegistry (metrics s)"
  "m_PendingInitQueueSize (metrics (handle_errors es s)) = m_PendingInitQueueSize (metrics s)"
  by (induction es arbitrary: s) (simp_all add: handle_errors_def)

lemma View_errorHandler [simp]: "View (errorHandler e s) = View s"
  by (simp add: View_def)

text \<open>The counters of \<^verbatim>\<open>ErrorsTotal\<close> agree with the errors handed to the user's handler.\<close>

definition errors_counted :: "State \<Rightarrow> bool" where
  "errors_counted s \<longleftrightarrow>
     (\<forall>t. m_ErrorsTotal (metrics s) t = count_list (map determineErrorType (handled s)) t)"

lemma errors_counted_errorHandler [simp]: "errors_counted s \<Longrightarrow> errors_counted (errorHandler e s)"
  by (auto simp: errors_counted_def)

lemma errors_counted_handle_errors [simp]:
  "errors_counted s \<Longrightarrow> errors_counted (handle_errors es s)"
  by (induction es arbitrary: s) (simp_all add: handle_errors_def)

text \<open>
  The invariant between critical sections: the registry's index is exact, readers see the
  current registry, no pool is queued twice and the error counters are right.
\<close>

definition state_inv :: "State \<Rightarrow> bool" where
  "state_inv s \<longleftrightarrow> registry_wf (registry s) \<and> cachedView s = viewRegistry (registry s) \<and>
     distinct (pendingInit s) \<and> errors_counted s"

lemma state_invD:
  assumes "state_inv s"
  shows "registry_wf (registry s)" "viewRegistry (registry s) = Some (View s)"
    "distinct (pendingInit s)" "errors_counted s" "cachedView s = Some (View s)"
proof -
  show wf: "registry_wf (registry s)" and "distinct (pendingInit s)" "errors_counted s"
    using assms by (simp_all add: state_inv_def)
  obtain vs where "viewRegistry (registry s) = Some vs"
    using reg.view_look [OF wf] by blast
  with assms show "viewRegistry (registry s) = Some (View s)" "cachedView s = Some (View s)"
    by (simp_all add: state_inv_def View_def)
qed

lemma state_inv_errorHandler [simp]: "state_inv s \<Longrightarrow> state_inv (errorHandler e s)"
  by (simp add: state_inv_def)

lemma state_inv_handle_errors [simp]: "state_inv s \<Longrightarrow> state_inv (handle_errors es s)"
  by (simp add: state_inv_def)

lemma state_inv_metrics:
  "state_inv s \<Longrightarrow> m_ErrorsTotal m = m_ErrorsTotal (metrics s) \<Longrightarrow> state_inv (s\<lparr>metrics := m\<rparr>)"
  by (simp add: state_inv_def errors_counted_def)

lemma View_simps [simp]:
  "View (s\<lparr>metrics := m\<rparr>) = View s" "View (handle_errors es s) = View s"
  "View (s\<lparr>pendingInit := ps\<rparr>) = View s"
  by (simp_all add: View_def)

lemma handle_errors_initialized [simp]:
  "m_PoolsInitialized (metrics (errorHandler e s)) = m_PoolsInitialized (metrics s)"
  "m_PoolsInitialized (metrics (handle_errors es s)) = m_PoolsInitialized (metrics s)"
proof -
  show e: "m_PoolsInitialized (metrics (errorHandler e s)) = m_PoolsInitialized (metrics s)" for e s
    by (simp add: errorHandler_def Let_def)
  show "m_PoolsInitialized (metrics (handle_errors es s)) = m_PoolsInitialized (metrics s)"
    by (induction es arbitrary: s) (simp_all add: handle_errors_def e)
qed

lemma View_pools:
  assumes "state_inv s"
  shows "v \<in> set (View s) \<longleftrightarrow> pools_of (registry s) (ID v) = Some v"
    and "distinct (map ID (View s))" and "ID ` set (View s) = dom (pools_of (registry s))"
  using reg.view_ids [OF state_invD(1,2) [OF assms]] by blast+

text \<open>Refreshing the view after a change of the registry.\<close>

lemma updateCachedView_total:
  assumes "registry_wf (registry s)"
  obtains vs where "viewRegistry (registry s) = Some vs"
    "updateCachedView s = Some (s\<lparr>cachedView := Some vs,
       metrics := (metrics s)\<lparr>m_PoolsInRegistry := length vs\<rparr>\<rparr>)"
  using reg.view_look [OF assms] by (auto simp: updateCachedView_def)

lemma updateCachedView_inv:
  assumes "registry_wf (registry s)" "distinct (pendingInit s)" "errors_counted s"
  obtains s' where "updateCachedView s = Some s'" "state_inv s'" "registry s' = registry s"
    "pendingInit s' = pendingInit s" "lastUpdatedAtBlock s' = lastUpdatedAtBlock s"
    "handled s' = handled s" "m_PoolsInRegistry (metrics s') = length (View s')"
    "m_PendingInitQueueSize (metrics s') = m_PendingInitQueueSize (metrics s)"
    "m_PoolsInitialized (metrics s') = m_PoolsInitialized (metrics s)"
proof -
  obtain vs where vs: "viewRegistry (registry s) = Some vs"
    "updateCachedView s = Some (s\<lparr>cachedView := Some vs,
       metrics := (metrics s)\<lparr>m_PoolsInRegistry := length vs\<rparr>\<rparr>)"
    by (rule updateCachedView_total [OF assms(1)])
  show ?thesis
    by (rule that [OF vs(2)]) (use assms vs(1) in \<open>simp_all add: state_inv_def errors_counted_def View_def\<close>)
qed

section \<open>Fetching logs\<close>

lemma sint_succ_nonpos:
  fixes x :: i64
  assumes "sint x < 0 \<or> sint x = 2 ^ 63 - 1"
  shows "sint (1 + x) \<le> 0"
proof -
  have range: "- (2 ^ 63) \<le> sint x" "sint x < 2 ^ 63"
    using sint_ge [of x] sint_lt [of x] by simp_all
  have "sint (1 + x) = signed_take_bit 63 (1 + sint x)"
    by (simp add: sint_word_ariths)
  also have "\<dots> = (if sint x < 0 then 1 + sint x else - (2 ^ 63))"
    using assms range by (auto simp: signed_take_bit_int_eq_self)
  also have "\<dots> \<le> 0" using assms by auto
  finally show ?thesis .
qed

text \<open>Attempt \<open>k\<close> is the last one: it answers, fails, is cancelled while waiting, or is the last
  one allowed.\<close>

definition retry_result ::
  "(nat \<Rightarrow> go_error + Log list) \<Rightarrow> (nat \<Rightarrow> go_error option) \<Rightarrow> int \<Rightarrow> nat \<Rightarrow> go_error + Log list" where
  "retry_result fetch done m k =
     (if fetch k = Inr [] \<and> int k < m then
        (case done k of Some err \<Rightarrow> Inl err | None \<Rightarrow> Inr []) else fetch k)"

definition retries_after ::
  "(nat \<Rightarrow> go_error + Log list) \<Rightarrow> (nat \<Rightarrow> go_error option) \<Rightarrow> nat \<Rightarrow> bool" where
  "retries_after fetch done j \<longleftrightarrow> fetch j = Inr [] \<and> done j = None"

lemma retry_loop_from:
  assumes "i < n"
  shows "\<exists>k. i < k \<and> k \<le> n \<and> (\<forall>j. i < j \<longrightarrow> j < k \<longrightarrow> retries_after fetch done j) \<and>
    (k = n \<or> \<not> retries_after fetch done k) \<and>
    retry_loop fetch done (int n) [i..<n] = retry_result fetch done (int n) k"
  using assms
proof (induction "n - i" arbitrary: i)
  case 0
  then show ?case by simp
next
  case (Suc m)
  then have range: "[i..<n] = i # [Suc i..<n]" by (simp add: upt_conv_Cons)
  show ?case
  proof (cases "retries_after fetch done (Suc i) \<and> Suc i < n")
    case True
    have m: "m = n - Suc i" "Suc i < n" using Suc.hyps(2) True by simp_all
    obtain k where k: "Suc i < k" "k \<le> n" "\<forall>j. Suc i < j \<longrightarrow> j < k \<longrightarrow> retries_after fetch done j"
      "k = n \<or> \<not> retries_after fetch done k"
      "retry_loop fetch done (int n) [Suc i..<n] = retry_result fetch done (int n) k"
      using Suc.hyps(1) [OF m] by blast
    have "\<forall>j. i < j \<longrightarrow> j < k \<longrightarrow> retries_after fetch done j"
      using k(3) True by (metis Suc_lessI)
    moreover have "retry_loop fetch done (int n) [i..<n] = retry_loop fetch done (int n) [Suc i..<n]"
      using True by (simp add: range retries_after_def)
    ultimately show ?thesis using k by (metis Suc_lessD)
  next
    case False
    have "retry_loop fetch done (int n) [i..<n] = retry_result fetch done (int n) (Suc i)"
    proof (cases "Suc i < n")
      case True
      with False show ?thesis
        by (auto simp: range retries_after_def retry_result_def split: sum.split option.split)
    next
      case last: False
      with Suc.prems have "n = Suc i" by simp
      then show ?thesis by (auto simp: retry_result_def split: sum.split)
    qed
    with False Suc.prems show ?thesis by (intro exI [of _ "Suc i"]) auto
  qed
qed

text \<open>
  C25. The log query is retried as documented. With an attempt limit \<open>m = 1 + LogMaxRetries\<close> of at
  least 1, there is an attempt \<open>k\<close> with \<open>1 \<le> k \<le> m\<close> that decides: all earlier attempts came back
  empty and the context stayed live while waiting, attempt \<open>k\<close> is not of this kind or is the last one
  allowed, and the result is its non-empty logs, its error, the context's error, or no logs; and
  the query asks for exactly this block and the configured topics.
\<close>

theorem getLogsWithRetry_decides:
  assumes "1 \<le> sint (max_attempts D)"
    and "fetch = filterLogs E w c \<lparr>FromBlock = bl_Number b, ToBlock = bl_Number b, fq_Topics = filterTopics D\<rparr>"
  shows "\<exists>k. 1 \<le> k \<and> int k \<le> sint (max_attempts D) \<and>
    list_all (retries_after fetch (ctxDone E w)) [1..<k] \<and>
    (int k = sint (max_attempts D) \<or> \<not> retries_after fetch (ctxDone E w) k) \<and>
    getLogsWithRetry D E w c b = retry_result fetch (ctxDone E w) (sint (max_attempts D)) k"
proof -
  define n where "n = nat (sint (max_attempts D))"
  have n: "int n = sint (max_attempts D)" "0 < n" using assms(1) by (simp_all add: n_def)
  from retry_loop_from [OF n(2), of fetch "ctxDone E w"] obtain k where
    k: "0 < k" "k \<le> n" "\<forall>j. 0 < j \<longrightarrow> j < k \<longrightarrow> retries_after fetch (ctxDone E w) j"
      "k = n \<or> \<not> retries_after fetch (ctxDone E w) k"
      "retry_loop fetch (ctxDone E w) (int n) [0..<n] = retry_result fetch (ctxDone E w) (int n) k"
    by blast
  have "list_all (retries_after fetch (ctxDone E w)) [1..<k]"
    using k(3) by (auto simp: list_all_iff)
  with k n show ?thesis
    by (intro exI [of _ k]) (auto simp: getLogsWithRetry_def assms(2) Let_def n_def [symmetric])
qed

theorem getLogsWithRetry_decides_witness:
  "\<exists>k. 1 \<le> k \<and> k \<le> (2 :: nat) \<and>
    getLogsWithRetry (wired (example_setup 1)) (example_env [swap_log 7])
      (example_world newMockPersistence) () example_block =
      retry_result (\<lambda>i. Inr (if i \<ge> 2 then [swap_log 7] else [])) (\<lambda>_. None) 2 k"
proof -
  have m: "sint (max_attempts (wired (example_setup 1))) = 2"
    by (simp add: max_attempts_def example_setup_def)
  show ?thesis
    using getLogsWithRetry_decides [of "wired (example_setup 1)" _ "example_env [swap_log 7]"
        "example_world newMockPersistence" "()"
        example_block] unfolding m by (auto simp: example_env_def)
qed

text \<open>
  C35. A negative \<^verbatim>\<open>LogMaxRetries\<close>, or the largest one, for which \<open>1 + LogMaxRetries\<close> wraps
  around, makes the range empty: no query is made at all, and the block counts as one without
  logs, whatever the node would have answered.
\<close>

theorem getLogsWithRetry_without_attempt:
  assumes "sint (logMaxRetries D) < 0 \<or> sint (logMaxRetries D) = 2 ^ 63 - 1"
  shows "getLogsWithRetry D E w c b = Inr [] \<and> getLogsWithRetry D E' w c b = Inr []"
proof -
  have "sint (max_attempts D) \<le> 0"
    unfolding max_attempts_def by (rule sint_succ_nonpos [OF assms])
  then show ?thesis by (simp add: getLogsWithRetry_def Let_def)
qed

theorem getLogsWithRetry_without_attempt_witness:
  "getLogsWithRetry (wired (example_setup (- 1))) (example_env [swap_log 7])
     (example_world newMockPersistence) () example_block = Inr []"
  using getLogsWithRetry_without_attempt [of "wired (example_setup (- 1))"]
  by (simp add: example_setup_def)

section \<open>Updates and discoveries\<close>

text \<open>The reserves the last entry for a pool gives it.\<close>

definition last_update ::
  "to_id \<Rightarrow> address list \<Rightarrow> bigptr list \<Rightarrow> bigptr list \<Rightarrow> u64 \<Rightarrow> PoolView \<Rightarrow> PoolView" where
  "last_update addrID addrs r0s r1s k v =
     (case find (\<lambda>(a, _). addrID a = Inr k) (rev (zip addrs (zip r0s r1s))) of
        None \<Rightarrow> v
      | Some (a, r0, r1) \<Rightarrow> with_reserves (the r0) (the r1) v)"

lemma last_update_Cons:
  "last_update addrID (a # addrs) (x # r0s) (y # r1s) k v =
    last_update addrID addrs r0s r1s k (if addrID a = Inr k then with_reserves (the x) (the y) v else v)"
  by (auto simp: last_update_def find_append split: option.split)

lemma last_update_Nil [simp]: "last_update addrID [] r0s r1s k v = v"
  by (simp add: last_update_def)

lemma ID_last_update [simp]: "ID (last_update addrID addrs r0s r1s k v) = ID v"
  by (simp add: last_update_def split: option.split)

lemma update_loop_spec:
  assumes "registry_wf r" and "length r0s = i + length addrs" and "length r1s = i + length addrs"
    and "None \<notin> set r0s" and "None \<notin> set r1s"
  shows "\<exists>r'. update_loop addrID bn r0s r1s i addrs (r, errs) = Some (r', errs) \<and> registry_wf r' \<and>
    pools_of r' = (\<lambda>k. map_option (last_update addrID addrs (drop i r0s) (drop i r1s) k) (pools_of r k))"
  using assms
proof (induction addrs arbitrary: r i)
  case Nil
  then show ?case by (simp add: map_option.id [unfolded id_def] last_update_def)
next
  case (Cons a addrs)
  then have i: "i < length r0s" "i < length r1s" by simp_all
  obtain x y where xy: "r0s ! i = Some x" "r1s ! i = Some y"
    using Cons.prems(4,5) i by (metis not_None_eq nth_mem)
  have dr: "drop i r0s = Some x # drop (Suc i) r0s" "drop i r1s = Some y # drop (Suc i) r1s"
    using i xy by (simp_all add: Cons_nth_drop_Suc [symmetric])
  note IH = Cons.IH [where i = "Suc i", OF _ _ _ Cons.prems(4,5)]
  show ?case
  proof (cases "\<exists>k. addrID a = Inr k \<and> pools_of r k \<noteq> None")
    case False
    then have "update_loop addrID bn r0s r1s i (a # addrs) (r, errs) =
        update_loop addrID bn r0s r1s (Suc i) addrs (r, errs)"
      by (auto simp: reg.has_look split: sum.split)
    moreover have "map_option (last_update addrID (a # addrs) (drop i r0s) (drop i r1s) k) (pools_of r k) =
        map_option (last_update addrID addrs (drop (Suc i) r0s) (drop (Suc i) r1s) k) (pools_of r k)" for k
      using False by (cases "pools_of r k") (auto simp: dr last_update_Cons)
    ultimately show ?thesis using IH [OF Cons.prems(1)] Cons.prems(2,3) by simp
  next
    case True
    then obtain j v where j: "addrID a = Inr j" "pools_of r j = Some v" by auto
    obtain r1 where r1: "updatePool (Some x) (Some y) j r = Some (r1, None)" "registry_wf r1"
      "pools_of r1 = (pools_of r)(j \<mapsto> with_reserves x y v)"
      using reg.upd_present [OF Cons.prems(1) j(2)] by blast
    have "update_loop addrID bn r0s r1s i (a # addrs) (r, errs) =
        update_loop addrID bn r0s r1s (Suc i) addrs (r1, errs)"
      using j i xy r1(1) by (simp add: reg.has_look)
    moreover have "map_option (last_update addrID (a # addrs) (drop i r0s) (drop i r1s) k) (pools_of r k) =
        map_option (last_update addrID addrs (drop (Suc i) r0s) (drop (Suc i) r1s) k) (pools_of r1 k)" for k
      using j by (cases "pools_of r k") (auto simp: dr last_update_Cons r1(3))
    ultimately show ?thesis using IH [OF r1(2)] Cons.prems(2,3) by simp
  qed
qed

text \<open>The pools a block adds to the queue.\<close>

definition wanted :: "('w, 'c) Deps \<Rightarrow> 'w \<Rightarrow> address \<Rightarrow> bool" where
  "wanted D w a \<longleftrightarrow> \<not> inBlockedList D w a \<and> (\<exists>e. poolAddressToID D w a = Inl e)"

lemma queue_loop_spec:
  assumes "queue_loop D w as (pending, n) = (pending', n')"
  shows "set pending' = set pending \<union> {a \<in> set as. wanted D w a}"
    and "distinct pending \<Longrightarrow> distinct pending'"
    and "length pending' + n = length pending + n'" and "n \<le> n'"
    and "\<exists>new. pending' = pending @ new"
proof -
  have "set pending' = set pending \<union> {a \<in> set as. wanted D w a} \<and>
    (distinct pending \<longrightarrow> distinct pending') \<and> length pending' + n = length pending + n' \<and> n \<le> n' \<and>
    (\<exists>new. pending' = pending @ new)"
    using assms
  proof (induction as arbitrary: pending n)
    case Nil
    then show ?case by simp
  next
    case (Cons a as)
    show ?case
    proof (cases "wanted D w a \<and> a \<notin> set pending")
      case True
      then have "queue_loop D w (a # as) (pending, n) = queue_loop D w as (pending @ [a], Suc n)"
        by (auto simp: wanted_def)
      with Cons.prems have "queue_loop D w as (pending @ [a], Suc n) = (pending', n')" by simp
      note IH = Cons.IH [OF this]
      with IH True show ?thesis by auto
    next
      case False
      then have "queue_loop D w (a # as) (pending, n) = queue_loop D w as (pending, n)"
        by (auto simp: wanted_def split: sum.split)
      with Cons False show ?thesis by auto
    qed
  qed
  then show "set pending' = set pending \<union> {a \<in> set as. wanted D w a}"
    "distinct pending \<Longrightarrow> distinct pending'" "length pending' + n = length pending + n'" "n \<le> n'"
    "(\<exists>new. pending' = pending @ new)" by blast+
qed

section \<open>Blocks\<close>

lemma block_apply_spec:
  assumes "state_inv s" and "updates_ok ((bd_pools d, bd_reserve0s d, bd_reserve1s d), e)"
  obtains s' n where "block_apply D w bn d s = Some (s', n, [])" "state_inv s'"
    "lastUpdatedAtBlock s' = bn"
    "pools_of (registry s') = (\<lambda>k. map_option (last_update (poolAddressToID D w) (bd_pools d)
       (bd_reserve0s d) (bd_reserve1s d) k) (pools_of (registry s) k))"
    "set (pendingInit s') = set (pendingInit s) \<union> {a \<in> set (bd_discovered d). wanted D w a}"
    "length (pendingInit s') = length (pendingInit s) + n" "handled s' = handled s"
    "m_PoolsInRegistry (metrics s') = length (View s')"
    "m_PendingInitQueueSize (metrics s') = m_PendingInitQueueSize (metrics s)"
proof -
  obtain r' where r': "applyUpdates D w bn (bd_pools d) (bd_reserve0s d) (bd_reserve1s d) (registry s) =
      Some (r', [])" "registry_wf r'"
    "pools_of r' = (\<lambda>k. map_option (last_update (poolAddressToID D w) (bd_pools d)
       (bd_reserve0s d) (bd_reserve1s d) k) (pools_of (registry s) k))"
    using update_loop_spec [OF state_invD(1) [OF assms(1)], of "bd_reserve0s d" 0 "bd_pools d"
        "bd_reserve1s d" "poolAddressToID D w" bn "[]"] assms(2)
    by (auto simp: applyUpdates_def updates_ok_def)
  obtain pend n where q: "queue_loop D w (bd_discovered d) (pendingInit s, 0) = (pend, n)"
    by (cases "queue_loop D w (bd_discovered d) (pendingInit s, 0)")
  note Q = queue_loop_spec [OF q]
  let ?t = "s\<lparr>registry := r', pendingInit := pend, lastUpdatedAtBlock := bn\<rparr>"
  have "registry_wf (registry ?t)" "distinct (pendingInit ?t)" "errors_counted ?t"
    using r'(2) Q(2) state_invD [OF assms(1)] by (simp_all add: errors_counted_def)
  note U = updateCachedView_inv [OF this, simplified]
  obtain s' where s': "updateCachedView ?t = Some s'" "state_inv s'"
    "registry s' = r'" "pendingInit s' = pend" "lastUpdatedAtBlock s' = bn" "handled s' = handled s"
    "m_PoolsInRegistry (metrics s') = length (View s')"
    "m_PendingInitQueueSize (metrics s') = m_PendingInitQueueSize (metrics s)"
    by (rule U) (rule that; assumption)
  show ?thesis
    by (rule that [of s' n]) (use s' r' q Q in \<open>simp_all add: block_apply_def\<close>)
qed

text \<open>The errors the parsers of a block's logs cause.\<close>

definition parse_errors :: "u64 \<Rightarrow> go_error option \<Rightarrow> go_error option \<Rightarrow> go_error list" where
  "parse_errors bn e1 e2 =
     (case e1 of None \<Rightarrow> [] | Some e \<Rightarrow> [SystemError bn (Errorf [Lit ''failed to parse updated pools: ''] e)]) @
     (case e2 of None \<Rightarrow> [] | Some e \<Rightarrow> [SystemError bn (Errorf [Lit ''failed to discover pools: ''] e)])"

lemma block_fetch_cases:
  "(\<exists>err. block_fetch D E w b s = (s, Inl (Errorf [Lit ''block '', Dec (uint (NumberU64 b)),
      Lit '': failed to get eth client: ''] err)) \<and> getClient D w = Inl err) \<or>
   (\<exists>err c. block_fetch D E w b s = (s, Inl (Errorf [Lit ''block '', Dec (uint (NumberU64 b)),
      Lit '': failed to filter logs: ''] err)) \<and> getClient D w = Inr c \<and>
      getLogsWithRetry D E w c b = Inl err) \<or>
   (\<exists>c logs ps r0s r1s e1 found e2. getClient D w = Inr c \<and> getLogsWithRetry D E w c b = Inr logs \<and>
      updatedInBlock D w logs = ((ps, r0s, r1s), e1) \<and> discoverPools D w logs = (found, e2) \<and>
      block_fetch D E w b s = (handle_errors (parse_errors (NumberU64 b) e1 e2) s,
        Inr \<lparr>bd_pools = ps, bd_reserve0s = r0s, bd_reserve1s = r1s, bd_discovered = found\<rparr>))"
proof (cases "getClient D w")
  case (Inl err)
  then show ?thesis by (simp add: block_fetch_def)
next
  case c: (Inr c)
  show ?thesis
  proof (cases "getLogsWithRetry D E w c b")
    case (Inl err)
    with c show ?thesis by (simp add: block_fetch_def)
  next
    case (Inr logs)
    obtain ps r0s r1s e1 where u: "updatedInBlock D w logs = ((ps, r0s, r1s), e1)"
      by (metis prod.exhaust)
    obtain found e2 where "discoverPools D w logs = (found, e2)" by (metis prod.exhaust)
    moreover from this c Inr u have "block_fetch D E w b s =
        (handle_errors (parse_errors (NumberU64 b) e1 e2) s,
         Inr \<lparr>bd_pools = ps, bd_reserve0s = r0s, bd_reserve1s = r1s, bd_discovered = found\<rparr>)"
      by (cases e1; cases e2)
        (simp_all only: block_fetch_def parse_errors_def handle_errors_def Let_def sum.case
          option.case prod.case append.simps fold.simps id_o o_id id_apply o_apply)
    ultimately show ?thesis using c Inr u by blast
  qed
qed

text \<open>\<^verbatim>\<open>handleNewBlock\<close> as a whole: it fails before it changes anything, or goes through.\<close>

lemma handleNewBlock_cases:
  assumes "chain_deps D" and "state_inv s"
  obtains (failed) err where "handleNewBlock D E w b s = Some (s, Some err)"
      "(\<exists>e. getClient D w = Inl e \<and> err = Errorf [Lit ''block '', Dec (uint (NumberU64 b)),
          Lit '': failed to get eth client: ''] e) \<or>
       (\<exists>c e. getClient D w = Inr c \<and> getLogsWithRetry D E w c b = Inl e \<and>
          err = Errorf [Lit ''block '', Dec (uint (NumberU64 b)), Lit '': failed to filter logs: ''] e)"
  | (applied) s' c logs ps r0s r1s e1 found e2 where "handleNewBlock D E w b s = Some (s', None)"
      "getClient D w = Inr c" "getLogsWithRetry D E w c b = Inr logs"
      "updatedInBlock D w logs = ((ps, r0s, r1s), e1)" "discoverPools D w logs = (found, e2)"
      "state_inv s'" "lastUpdatedAtBlock s' = NumberU64 b"
      "pools_of (registry s') = (\<lambda>k. map_option (last_update (poolAddressToID D w) ps r0s r1s k)
         (pools_of (registry s) k))"
      "set (pendingInit s') = set (pendingInit s) \<union> {a \<in> set found. wanted D w a}"
      "handled s' = handled s @ parse_errors (NumberU64 b) e1 e2"
      "m_PendingInitQueueSize (metrics s') - int (length (pendingInit s')) =
         m_PendingInitQueueSize (metrics s) - int (length (pendingInit s))"
  using block_fetch_cases [of D E w b s]
proof (elim disjE exE conjE, goal_cases)
  case (1 err)
  then show ?case by (simp add: handleNewBlock_def)
next
  case (2 err c)
  then show ?case by (simp add: handleNewBlock_def)
next
  case (3 c logs ps r0s r1s e1 found e2)
  let ?d = "\<lparr>bd_pools = ps, bd_reserve0s = r0s, bd_reserve1s = r1s, bd_discovered = found\<rparr>"
  let ?s1 = "handle_errors (parse_errors (NumberU64 b) e1 e2) s"
  have "updates_ok ((bd_pools ?d, bd_reserve0s ?d, bd_reserve1s ?d), e1)"
    using chain_deps.updates_shape [OF assms(1), of w logs] 3(5) by simp
  note B = block_apply_spec [OF state_inv_handle_errors
      [OF assms(2), of "parse_errors (NumberU64 b) e1 e2"] this, of D w "NumberU64 b", simplified]
  obtain s2 n where s2: "block_apply D w (NumberU64 b) ?d ?s1 = Some (s2, n, [])" "state_inv s2"
    "lastUpdatedAtBlock s2 = NumberU64 b"
    "pools_of (registry s2) = (\<lambda>k. map_option (last_update (poolAddressToID D w) ps r0s r1s k)
       (pools_of (registry s) k))"
    "set (pendingInit s2) = set (pendingInit s) \<union> {a \<in> set found. wanted D w a}"
    "length (pendingInit s2) = length (pendingInit s) + n"
    "handled s2 = handled s @ parse_errors (NumberU64 b) e1 e2"
    "m_PendingInitQueueSize (metrics s2) = m_PendingInitQueueSize (metrics s)"
    by (rule B) (rule that; assumption)
  let ?s' = "block_finish (NumberU64 b) n [] s2"
  have "state_inv ?s'"
    using s2(2) by (simp add: block_finish_def handle_errors_def state_inv_def errors_counted_def Let_def)
  moreover have "handleNewBlock D E w b s = Some (?s', None)"
    using s2(1) 3(7) by (simp add: handleNewBlock_def)
  ultimately show ?case
    by (intro 3(2) [of ?s' c logs ps r0s r1s e1 found e2])
      (use s2 3(3-6) in \<open>simp_all add: block_finish_def handle_errors_def Let_def\<close>)
qed

text \<open>
  C2. With well-shaped dependencies, \<^verbatim>\<open>handleNewBlock\<close> never panics and keeps the invariant. If
  the client or the log query fails, the error returned wraps the cause and nothing at all has
  changed. Otherwise the block number is recorded, every pool of the registry that the block
  updated has the reserves of its last update and every other pool is unchanged, no pool was
  added or lost, the queue has grown by exactly the discovered pools that are not blocked and
  have no ID, the gauge by their number, and the parsers' errors were reported.
\<close>

theorem handleNewBlock_correct:
  assumes "chain_deps D" and "state_inv s"
  shows "\<exists>s' e. handleNewBlock D E w b s = Some (s', e) \<and> state_inv s' \<and>
    (case e of
       Some err \<Rightarrow> s' = s \<and> (\<exists>cause. Unwrap err = Some cause \<and> (getClient D w = Inl cause \<or>
         (\<exists>c. getClient D w = Inr c \<and> getLogsWithRetry D E w c b = Inl cause)))
     | None \<Rightarrow> \<exists>c logs ps r0s r1s e1 found e2.
         getClient D w = Inr c \<and> getLogsWithRetry D E w c b = Inr logs \<and>
         updatedInBlock D w logs = ((ps, r0s, r1s), e1) \<and> discoverPools D w logs = (found, e2) \<and>
         LastUpdatedAtBlock s' = NumberU64 b \<and>
         pools_of (registry s') = (\<lambda>k. map_option (last_update (poolAddressToID D w) ps r0s r1s k)
           (pools_of (registry s) k)) \<and>
         set (pendingInit s') = set (pendingInit s) \<union> {a \<in> set found. wanted D w a} \<and>
         m_PendingInitQueueSize (metrics s') - int (length (pendingInit s')) =
           m_PendingInitQueueSize (metrics s) - int (length (pendingInit s)) \<and>
         handled s' = handled s @ parse_errors (NumberU64 b) e1 e2)"
proof (rule handleNewBlock_cases [OF assms, of E w b], goal_cases)
  case (1 err)
  then show ?thesis using assms(2) by auto
next
  case applied: (2 s' c logs ps r0s r1s e1 found e2)
  show ?thesis
    by (intro exI [of _ s'] exI [of _ None]) (use applied in \<open>simp add: LastUpdatedAtBlock_def\<close>)
qed

lemma initial_inv: "registry_wf r \<Longrightarrow> viewRegistry r = Some vs \<Longrightarrow> state_inv (initial_state r vs)"
  by (simp add: state_inv_def initial_state_def errors_counted_def zero_metrics_def)

definition empty_state :: State where
  "empty_state = initial_state NewUniswapV2Registry []"

lemma empty_state_inv: "state_inv empty_state"
  unfolding empty_state_def
  by (rule initial_inv) (simp, simp add: viewRegistry_def NewUniswapV2Registry_def)

theorem handleNewBlock_correct_witness:
  "\<exists>s'. handleNewBlock (wired (example_setup 1)) (example_env [swap_log 7, swap_log 9])
      (example_world newMockPersistence) example_block empty_state = Some (s', None) \<and>
    state_inv s' \<and> set (pendingInit s') = {7} \<and> LastUpdatedAtBlock s' = 17"
proof -
  let ?D = "wired (example_setup 1)" and ?E = "example_env [swap_log 7, swap_log 9]"
  let ?w = "example_world newMockPersistence"
  have c: "getClient ?D ?w = Inr ()" by (simp add: example_world_def)
  have l: "getLogsWithRetry ?D ?E ?w () example_block = Inr [swap_log 7, swap_log 9]"
    by (simp add: getLogsWithRetry_def max_attempts_def example_setup_def example_env_def
        upt_rec numeral_2_eq_2 Let_def)
  have d: "discoverPools ?D ?w [swap_log 7, swap_log 9] = ([7, 9], None)"
    by (simp add: DiscoverPools_def example_setup_def example_world_def swap_log_def add_key_def)
  have "{a \<in> set [7, 9]. wanted ?D ?w a} = {7}"
    unfolding set_filter [symmetric]
    by (simp add: wanted_def example_world_def mock_PoolAddressToID_def newMockPersistence_def)
  moreover obtain s' e where "handleNewBlock ?D ?E ?w example_block empty_state = Some (s', e)"
    "state_inv s'" "e = None" "LastUpdatedAtBlock s' = NumberU64 example_block"
    "set (pendingInit s') = set (pendingInit empty_state) \<union> {a \<in> set [7, 9]. wanted ?D ?w a}"
    using handleNewBlock_correct [OF wired.chain_deps_axioms empty_state_inv,
        of "example_setup 1" ?E ?w example_block] c l d
    by (fastforce split: option.splits)
  ultimately show ?thesis
    by (simp add: empty_state_def initial_state_def NumberU64_def example_block_def)
qed

text \<open>The wired system, when a block goes through.\<close>

lemma sync_events_followed:
  assumes "go_range_order (order_syncs w)" and "state_inv s" and "client_err w = None"
    and "getLogsWithRetry (wired u) E w () b = Inr logs"
    and "pools (persistence w) a = Some k" and "\<And>a'. pools (persistence w) a' = Some k \<Longrightarrow> a' = a"
    and "v \<in> set (View s)" and "ID v = k"
  shows "\<exists>s' v'. handleNewBlock (wired u) E w b s = Some (s', None) \<and> state_inv s' \<and>
    v' \<in> set (View s') \<and> v' = (case last_sync (su_syncEvent u) logs a of
            None \<Rightarrow> v | Some (r0, r1) \<Rightarrow> v\<lparr>Reserve0 := r0, Reserve1 := r1\<rparr>)"
proof (rule handleNewBlock_cases [OF wired.chain_deps_axioms assms(2), of u E w b], goal_cases)
  case (1 err)
  then show ?thesis using assms(3,4) by simp
next
  case applied: (2 s' c logs' ps r0s r1s e1 found e2)
  with assms(4) have "logs' = logs" by simp
  with applied(4) have u: "UpdatedInBlock (su_syncEvent u) (order_syncs w) logs = ((ps, r0s, r1s), e1)"
    by simp
  with UpdatedInBlock_map_of [OF assms(1), of "su_syncEvent u" logs]
  have m: "distinct ps" "length r0s = length ps" "length r1s = length ps"
    "map_of (zip ps (zip r0s r1s)) = last_sync (su_syncEvent u) logs" by simp_all
  have id: "poolAddressToID (wired u) w x = Inr k \<longleftrightarrow> x = a" for x
  proof -
    have "poolAddressToID (wired u) w x = Inr k \<longleftrightarrow> pools (persistence w) x = Some k"
      by (simp add: mock_PoolAddressToID_def split: option.split)
    also have "\<dots> \<longleftrightarrow> x = a" using assms(5,6) by blast
    finally show ?thesis .
  qed
  have f: "find (\<lambda>(x, _). poolAddressToID (wired u) w x = Inr k) (rev (zip ps (zip r0s r1s))) =
      map_option (Pair a) (last_sync (su_syncEvent u) logs a)"
    unfolding id m(4) [symmetric]
    by (rule find_key_rev) (simp add: m)
  let ?v = "case last_sync (su_syncEvent u) logs a of None \<Rightarrow> v
    | Some (r0, r1) \<Rightarrow> v\<lparr>Reserve0 := r0, Reserve1 := r1\<rparr>"
  have "pools_of (registry s) k = Some v" using View_pools(1) [OF assms(2)] assms(7,8) by simp
  then have "pools_of (registry s') k = Some (last_update (poolAddressToID (wired u) w) ps r0s r1s k v)"
    by (simp only: applied(8) option.map)
  also have "last_update (poolAddressToID (wired u) w) ps r0s r1s k v = ?v"
    unfolding last_update_def f
    by (auto simp: last_sync_def with_reserves_def split: option.split)
  finally have "pools_of (registry s') (ID ?v) = Some ?v"
    using assms(8) by (simp split: option.split prod.split)
  then have "?v \<in> set (View s')" using View_pools(1) [OF applied(6)] by simp
  with applied(1,6) show ?thesis by blast
qed

text \<open>
  C4. End to end on the wired system: when the node answers with the block's logs, every tracked
  pool, whatever order the parser's map is ranged over, has after the block exactly the reserves
  of the last valid Sync event its contract emitted in the block, or the reserves it had if there
  is none; and readers see them.
\<close>

theorem tracked_pools_follow_sync_events:
  assumes "go_range_order (order_syncs w)" and "state_inv s" and "client_err w = None"
    and "getLogsWithRetry (wired u) E w () b = Inr logs"
    and "pools (persistence w) a = Some k" and "\<And>a'. pools (persistence w) a' = Some k \<Longrightarrow> a' = a"
    and "v \<in> set (View s)" and "ID v = k"
  shows "\<exists>s' v'. handleNewBlock (wired u) E w b s = Some (s', None) \<and> state_inv s' \<and>
    v' \<in> set (View s') \<and> v' = (case last_sync (su_syncEvent u) logs a of
            None \<Rightarrow> v | Some (r0, r1) \<Rightarrow> v\<lparr>Reserve0 := r0, Reserve1 := r1\<rparr>)"
  by (rule sync_events_followed [OF assms])

text \<open>A state that tracks the pool at address 7, loaded from a snapshot, and a persistence layer
  that knows it.\<close>

definition example_pool :: PoolView where
  "example_pool = \<lparr>ID = 1001, Token0 = 1, Token1 = 2, Reserve0 = Some 100, Reserve1 = Some 100,
     Type = 0, FeeBps = 30\<rparr>"

definition tracking_state :: State where
  "tracking_state = initial_state (loaded [example_pool] 0) [example_pool]"

definition registered_world :: World where
  "registered_world = example_world (newMockPersistence\<lparr>poolCounter := 1001, pools := [7 \<mapsto> 1001],
     idToPool := [1001 \<mapsto> 7]\<rparr>)"

lemma tracking_state_inv: "state_inv tracking_state"
  unfolding tracking_state_def
  by (rule initial_inv) (simp_all add: loaded_wf view_loaded example_pool_def row_complete_def)

lemma View_tracking_state [simp]: "View tracking_state = [example_pool]"
  by (simp add: View_def tracking_state_def initial_state_def)

lemma example_block_facts:
  "go_range_order (order_syncs registered_world)" "client_err registered_world = None"
  "getLogsWithRetry (wired (example_setup 1)) (example_env [swap_log 7, sync_log 7 40 50])
     registered_world () example_block = Inr [swap_log 7, sync_log 7 40 50]"
  "pools (persistence registered_world) a = Some k \<longleftrightarrow> a = 7 \<and> k = 1001"
  "last_sync (su_syncEvent (example_setup 1)) [swap_log 7, sync_log 7 40 50] 7 = Some (Some 40, Some 50)"
proof -
  show "go_range_order (order_syncs registered_world)" "client_err registered_world = None"
    by (simp_all add: registered_world_def example_world_def go_range_order_id)
  show "getLogsWithRetry (wired (example_setup 1)) (example_env [swap_log 7, sync_log 7 40 50])
     registered_world () example_block = Inr [swap_log 7, sync_log 7 40 50]"
    by (simp add: getLogsWithRetry_def max_attempts_def example_setup_def example_env_def
        upt_rec numeral_2_eq_2 Let_def)
  show "pools (persistence registered_world) a = Some k \<longleftrightarrow> a = 7 \<and> k = 1001"
    by (auto simp: registered_world_def example_world_def newMockPersistence_def)
  show "last_sync (su_syncEvent (example_setup 1)) [swap_log 7, sync_log 7 40 50] 7 =
      Some (Some 40, Some 50)"
    by (simp add: last_sync_def is_sync_def decode_sync_def example_setup_def sync_log_def
        swap_log_def SetBytes_be_bytes del: be_bytes.simps)
qed

lemma example_block_run:
  obtains s' where "handleNewBlock (wired (example_setup 1)) (example_env [swap_log 7, sync_log 7 40 50])
      registered_world example_block tracking_state = Some (s', None)"
    "state_inv s'" "example_pool\<lparr>Reserve0 := Some 40, Reserve1 := Some 50\<rparr> \<in> set (View s')"
proof -
  note F = example_block_facts
  have "\<exists>s' v'. handleNewBlock (wired (example_setup 1)) (example_env [swap_log 7, sync_log 7 40 50])
      registered_world example_block tracking_state = Some (s', None) \<and> state_inv s' \<and>
    v' \<in> set (View s') \<and>
    v' = (case last_sync (su_syncEvent (example_setup 1)) [swap_log 7, sync_log 7 40 50] 7 of
            None \<Rightarrow> example_pool
          | Some (r0, r1) \<Rightarrow> example_pool\<lparr>Reserve0 := r0, Reserve1 := r1\<rparr>)"
    by (rule sync_events_followed [OF F(1) tracking_state_inv F(2,3), where k = 1001])
      (simp_all add: F(4), simp add: example_pool_def)
  then show ?thesis by (auto simp: F(5) intro: that)
qed

theorem tracked_pools_follow_sync_events_witness:
  "\<exists>s'. handleNewBlock (wired (example_setup 1)) (example_env [swap_log 7, sync_log 7 40 50])
      registered_world example_block tracking_state = Some (s', None) \<and>
    example_pool\<lparr>Reserve0 := Some 40, Reserve1 := Some 50\<rparr> \<in> set (View s')"
proof -
  note F = example_block_facts
  have "\<exists>s' v'. handleNewBlock (wired (example_setup 1)) (example_env [swap_log 7, sync_log 7 40 50])
      registered_world example_block tracking_state = Some (s', None) \<and> state_inv s' \<and>
    v' \<in> set (View s') \<and>
    v' = (case last_sync (su_syncEvent (example_setup 1)) [swap_log 7, sync_log 7 40 50] 7 of
            None \<Rightarrow> example_pool
          | Some (r0, r1) \<Rightarrow> example_pool\<lparr>Reserve0 := r0, Reserve1 := r1\<rparr>)"
    by (rule tracked_pools_follow_sync_events [OF F(1) tracking_state_inv F(2,3), where k = 1001])
      (simp_all add: F(4), simp add: example_pool_def)
  then show ?thesis by (auto simp: F(5))
qed



end
