(* ===== verification/Init_Props.thy ===== *)
theory Init_Props
  imports Block_Props
begin

text \<open>
  What holds of the initialization of pending pools (\<^verbatim>\<open>applyInitializations\<close> and
  \<^verbatim>\<open>runPendingInitializations\<close>): closed forms of the three loops, the account every pool is
  given, and what an inconsistent persistence layer or an unavailable client lead to.
\<close>

section \<open>The loops\<close>

definition valid_at :: "address list \<Rightarrow> init_result \<Rightarrow> nat \<Rightarrow> ValidPool" where
  "valid_at ps res i = \<lparr>vp_pool = ps ! i, vp_t0 = ir_token0s res ! i, vp_t1 = ir_token1s res ! i,
     vp_type = ir_poolTypes res ! i, vp_fee = ir_feeBps res ! i, vp_r0 = ir_reserve0s res ! i,
     vp_r1 = ir_reserve1s res ! i\<rparr>"

abbreviation ok_rows :: "init_result \<Rightarrow> nat list \<Rightarrow> nat list" where
  "ok_rows res \<equiv> filter (\<lambda>i. ir_errs res ! i = None)"

abbreviation failed_rows :: "init_result \<Rightarrow> nat list \<Rightarrow> nat list" where
  "failed_rows res \<equiv> filter (\<lambda>i. ir_errs res ! i \<noteq> None)"

definition row_error :: "u64 \<Rightarrow> address list \<Rightarrow> init_result \<Rightarrow> nat \<Rightarrow> go_error" where
  "row_error bn ps res i = InitializationError bn (the (ir_errs res ! i)) (ps ! i)"

lemma filter_loop_from:
  assumes "init_answer_ok (length ps) res" and "i \<le> length ps"
  shows "filter_loop bn res i (drop i ps) (errs, valid) =
    Some (errs @ map (row_error bn ps res) (failed_rows res [i..<length ps]),
          valid @ map (valid_at ps res) (ok_rows res [i..<length ps]))"
  using assms(2)
proof (induction "length ps - i" arbitrary: i errs valid)
  case 0
  then show ?case by simp
next
  case (Suc m)
  then have i: "i < length ps" and m: "m = length ps - Suc i" by simp_all
  have d: "drop i ps = ps ! i # drop (Suc i) ps" using i by (rule Cons_nth_drop_Suc [symmetric])
  have u: "[i..<length ps] = i # [Suc i..<length ps]" using i by (rule upt_conv_Cons)
  note IH = Suc.hyps(1) [OF m]
  have e: "idx (ir_errs res) i = Some (ir_errs res ! i)"
    using assms(1) i by (simp add: init_answer_ok_def)
  show ?case
  proof (cases "ir_errs res ! i")
    case (Some err)
    then show ?thesis using IH i by (simp add: d u e row_error_def)
  next
    case None
    then have "i < length (ir_token0s res)" "i < length (ir_token1s res)"
      "i < length (ir_poolTypes res)" "i < length (ir_feeBps res)"
      "i < length (ir_reserve0s res)" "i < length (ir_reserve1s res)"
      using assms(1) i by (simp_all add: init_answer_ok_def)
    then show ?thesis using None IH i by (simp add: d u e valid_at_def)
  qed
qed

lemma filter_loop_eq:
  assumes "init_answer_ok (length ps) res"
  shows "filter_loop bn res 0 ps ([], []) =
    Some (map (row_error bn ps res) (failed_rows res [0..<length ps]),
          map (valid_at ps res) (ok_rows res [0..<length ps]))"
  using filter_loop_from [OF assms, of 0] by simp

definition reg_error :: "u64 \<Rightarrow> ValidPool list \<Rightarrow> go_error option list \<Rightarrow> nat \<Rightarrow> go_error" where
  "reg_error bn valid es i = RegistrationError bn (the (es ! i)) (vp_pool (valid ! i))
     (vp_t0 (valid ! i)) (vp_t1 (valid ! i))"

lemma registration_loop_from:
  assumes "length es = length valid" and "i \<le> length es"
  shows "registration_loop bn valid i (drop i es) (errs, failed) =
    Some (errs @ map (reg_error bn valid es) (filter (\<lambda>j. es ! j \<noteq> None) [i..<length es]),
          \<lambda>j. failed j \<or> (i \<le> j \<and> j < length es \<and> es ! j \<noteq> None))"
  using assms(2)
proof (induction "length es - i" arbitrary: i errs failed)
  case 0
  then show ?case by (auto simp: fun_eq_iff)
next
  case (Suc m)
  then have i: "i < length es" and m: "m = length es - Suc i" by simp_all
  have d: "drop i es = es ! i # drop (Suc i) es" using i by (rule Cons_nth_drop_Suc [symmetric])
  have u: "[i..<length es] = i # [Suc i..<length es]" using i by (rule upt_conv_Cons)
  note IH = Suc.hyps(1) [OF m]
  show ?case
  proof (cases "es ! i")
    case None
    then have "(\<lambda>j. failed j \<or> (Suc i \<le> j \<and> j < length es \<and> es ! j \<noteq> None)) =
        (\<lambda>j. failed j \<or> (i \<le> j \<and> j < length es \<and> es ! j \<noteq> None))"
      by (auto simp: fun_eq_iff Suc_le_eq le_less)
    with None IH i show ?thesis by (simp add: d u)
  next
    case (Some e)
    then have "(\<lambda>j. (failed(i := True)) j \<or> (Suc i \<le> j \<and> j < length es \<and> es ! j \<noteq> None)) =
        (\<lambda>j. failed j \<or> (i \<le> j \<and> j < length es \<and> es ! j \<noteq> None))"
      using i by (auto simp: fun_eq_iff Suc_le_eq le_less)
    with Some IH [of "errs @ [reg_error bn valid es i]" "failed(i := True)"] i assms(1)
    show ?thesis by (simp add: d u [unfolded assms(1)] u reg_error_def)
  qed
qed

lemma registration_loop_eq:
  assumes "length es = length valid"
  shows "registration_loop bn valid 0 es (errs, \<lambda>_. False) =
    Some (errs @ map (reg_error bn valid es) (filter (\<lambda>j. es ! j \<noteq> None) [0..<length es]),
          \<lambda>j. j < length es \<and> es ! j \<noteq> None)"
  using registration_loop_from [OF assms, of 0] by simp

text \<open>The view of a pool that was added: the ID and tokens are looked up, the rest is given.\<close>

definition added_view :: "u64 \<Rightarrow> u64 \<Rightarrow> u64 \<Rightarrow> ValidPool \<Rightarrow> PoolView" where
  "added_view k x y v = \<lparr>ID = k, Token0 = x, Token1 = y, Reserve0 = vp_r0 v, Reserve1 = vp_r1 v,
     Type = vp_type v, FeeBps = vp_fee v\<rparr>"

lemma added_view_eq:
  "vp_r0 v = Some a \<Longrightarrow> vp_r1 v = Some b \<Longrightarrow>
    with_reserves a b (fresh_pool k x y (vp_type v) (vp_fee v)) = added_view k x y v"
  by (simp add: added_view_def with_reserves_def fresh_pool_def)

text \<open>What is known of pool \<open>v\<close> after the loop: an error names it, or it is in the registry as
  fetched, under the ID the persistence layer gives, and was not there before.\<close>

definition accounted ::
  "to_id \<Rightarrow> (u64 \<rightharpoonup> PoolView) \<Rightarrow> (u64 \<rightharpoonup> PoolView) \<Rightarrow> u64 \<Rightarrow> go_error list \<Rightarrow> ValidPool \<Rightarrow> bool" where
  "accounted pid old new bn errs v \<longleftrightarrow>
     (\<exists>e. InitializationError bn e (vp_pool v) \<in> set errs) \<or>
     (\<exists>k x y. pid (vp_pool v) = Inr k \<and> old k = None \<and> new k = Some (added_view k x y v))"

lemma accounted_mono:
  assumes "accounted pid m new bn errs v" and "old \<subseteq>\<^sub>m m" and "new \<subseteq>\<^sub>m new'"
  shows "accounted pid old new' bn (errs @ es) v" "accounted pid old new' bn (es @ errs) v"
proof -
  have "old k = None" if "m k = None" for k
    using assms(2) that unfolding map_le_def by (metis domIff)
  moreover have "new' k = Some u" if "new k = Some u" for k u
    using assms(3) that unfolding map_le_def by (metis domI)
  ultimately show "accounted pid old new' bn (errs @ es) v" "accounted pid old new' bn (es @ errs) v"
    using assms(1) unfolding accounted_def set_append by blast+
qed

lemma finite_pools: "registry_wf r \<Longrightarrow> finite (dom (pools_of r))"
  by (simp add: pools_of_def dom_map_option_comp [unfolded comp_def] registry_wf_dom dom_def
      registry_wf_index)

section \<open>Adding the registered pools\<close>

text \<open>One pool: it is added under the ID the registration returned, or exactly one error names it.\<close>

lemma add_step:
  assumes "registry_wf r" and "pid (vp_pool v) = Inr k" and "vp_r0 v \<noteq> None" and "vp_r1 v \<noteq> None"
    and "addPool (vp_t0 v) (vp_t1 v) (vp_pool v) (vp_type v) (vp_fee v) tid pid w r = (w1, r1, e)"
  shows "(\<exists>err. e = Some err \<and> r1 = r) \<or>
    (e = None \<and> pools_of r k = None \<and> (\<exists>r2 x y. updatePool (vp_r0 v) (vp_r1 v) k r1 = Some (r2, None) \<and>
       registry_wf r2 \<and> pools_of r2 = (pools_of r)(k \<mapsto> added_view k x y v)))"
proof (cases e)
  case (Some err)
  with assms(5) have "r1 = r" by (auto simp: addPool_cases split: sum.splits option.splits prod.splits)
  with Some show ?thesis by simp
next
  case None
  with reg.add_cases [of "vp_t0 v" "vp_t1 v" "vp_pool v" "vp_type v" "vp_fee v" tid pid w r] assms(2,5)
  obtain w2 w3 x y where l: "pools_of r k = None" "tid w (vp_t0 v) = (w2, Inr x)"
    "tid w2 (vp_t1 v) = (w3, Inr y)" by auto
  obtain a b where ab: "vp_r0 v = Some a" "vp_r1 v = Some b" using assms(3,4) by auto
  have r1: "registry_wf r1" "pools_of r1 = (pools_of r)(k \<mapsto> fresh_pool k x y (vp_type v) (vp_fee v))"
    using reg.add_ok [where tid = tid and pid = pid and p = "vp_pool v" and k = k and w = w and
        ty = "vp_type v" and f = "vp_fee v", OF assms(1,2) l] assms(5) by auto
  then obtain r2 where "updatePool (Some a) (Some b) k r1 = Some (r2, None)" "registry_wf r2"
    "pools_of r2 = (pools_of r1)(k \<mapsto> with_reserves a b (fresh_pool k x y (vp_type v) (vp_fee v)))"
    using reg.upd_present [OF r1(1), of k _ a b] by fastforce
  with r1 None l ab show ?thesis by (auto simp: added_view_eq)
qed

lemma addPool_world:
  assumes "\<And>w t. poolAddressToID D (fst (tokenAddressToID D w t)) = poolAddressToID D w"
    and "addPool t0 t1 p ty f (tokenAddressToID D) pid w r = (w1, r1, e)"
  shows "poolAddressToID D w1 = poolAddressToID D w"
proof -
  have t: "poolAddressToID D w2 = poolAddressToID D w1" if "tokenAddressToID D w1 t = (w2, x)" for w1 w2 t x
    using assms(1) [of w1 t] that by simp
  show ?thesis using assms(2) unfolding addPool_cases
    by (auto split: sum.splits option.splits prod.splits dest!: t)
qed

text \<open>What the loop relies on: a pool that was registered has the ID it was given, and comes with
  reserves.\<close>

definition add_pre :: "to_id \<Rightarrow> u64 list \<Rightarrow> (nat \<Rightarrow> bool) \<Rightarrow> nat \<Rightarrow> ValidPool list \<Rightarrow> bool" where
  "add_pre pid ks failed i vs \<longleftrightarrow>
     (\<forall>j < length vs. \<not> failed (i + j) \<longrightarrow> i + j < length ks \<and> pid (vp_pool (vs ! j)) = Inr (ks ! (i + j))) \<and>
     (\<forall>v \<in> set vs. vp_r0 v \<noteq> None \<and> vp_r1 v \<noteq> None)"

text \<open>What it establishes for the pools from index \<open>i\<close> on; \<open>es\<close> are the errors it adds.\<close>

definition add_post ::
  "to_id \<Rightarrow> u64 \<Rightarrow> (nat \<Rightarrow> bool) \<Rightarrow> nat \<Rightarrow> ValidPool list \<Rightarrow> (u64 \<rightharpoonup> PoolView) \<Rightarrow> (u64 \<rightharpoonup> PoolView)
     \<Rightarrow> go_error list \<Rightarrow> bool" where
  "add_post pid bn failed i vs old new es \<longleftrightarrow> old \<subseteq>\<^sub>m new \<and>
     card (dom new) + length es =
       card (dom old) + length (filter (\<lambda>j. \<not> failed (i + j)) [0..<length vs]) \<and>
     (\<forall>j < length vs. \<not> failed (i + j) \<longrightarrow> accounted pid old new bn es (vs ! j))"

lemma not_failed_Suc:
  "length (filter (\<lambda>j. \<not> failed (i + j)) [0..<Suc n]) =
    (if failed i then 0 else 1) + length (filter (\<lambda>j. \<not> failed (Suc (i + j))) [0..<n])"
proof -
  have "[0..<Suc n] = 0 # map Suc [0..<n]" by (simp add: upt_conv_Cons map_Suc_upt del: upt_Suc)
  then show ?thesis by (simp add: filter_map comp_def)
qed

lemma all_less_Suc: "(\<forall>j < Suc n. P j) \<longleftrightarrow> P 0 \<and> (\<forall>j < n. P (Suc j))"
  by (auto simp: less_Suc_eq_0_disj)

lemma add_pre_Cons:
  "add_pre pid ks failed i (v # vs) \<longleftrightarrow>
    (\<not> failed i \<longrightarrow> i < length ks \<and> pid (vp_pool v) = Inr (ks ! i)) \<and>
    vp_r0 v \<noteq> None \<and> vp_r1 v \<noteq> None \<and> add_pre pid ks failed (Suc i) vs"
  by (auto simp: add_pre_def all_less_Suc)

lemma add_post_skip:
  "failed i \<Longrightarrow> add_post pid bn failed (Suc i) vs old new es \<Longrightarrow>
    add_post pid bn failed i (v # vs) old new es"
  by (simp add: add_post_def all_less_Suc not_failed_Suc del: upt_Suc)

lemma add_post_error:
  assumes "\<not> failed i" and "add_post pid bn failed (Suc i) vs old new es"
  shows "add_post pid bn failed i (v # vs) old new (InitializationError bn err (vp_pool v) # es)"
proof -
  have "accounted pid old new bn (InitializationError bn err (vp_pool v) # es) v"
    by (auto simp: accounted_def)
  moreover have "accounted pid old new bn (InitializationError bn err (vp_pool v) # es) u"
    if "accounted pid old new bn es u" for u
    using accounted_mono(2) [OF that map_le_refl map_le_refl, of "[InitializationError bn err (vp_pool v)]"]
    by simp
  ultimately show ?thesis using assms
    by (simp add: add_post_def all_less_Suc not_failed_Suc del: upt_Suc)
qed

lemma add_post_added:
  assumes "\<not> failed i" and "add_post pid bn failed (Suc i) vs mid new es"
    and "finite (dom old)" and "pid (vp_pool v) = Inr k" and "old k = None"
    and "mid = old(k \<mapsto> added_view k x y v)"
  shows "add_post pid bn failed i (v # vs) old new es"
proof -
  have le: "old \<subseteq>\<^sub>m mid" using assms(5,6) by (auto simp: map_le_def)
  have new: "mid \<subseteq>\<^sub>m new" using assms(2) by (simp add: add_post_def)
  then have "new k = Some (added_view k x y v)" using assms(6) by (simp add: map_le_def)
  with assms(4,5) have "accounted pid old new bn es v" unfolding accounted_def by blast
  moreover have "accounted pid old new bn es u" if "accounted pid mid new bn es u" for u
    using accounted_mono(1) [OF that le map_le_refl, of "[]"] by simp
  moreover have "card (dom mid) = Suc (card (dom old))"
    using assms(3,5,6) by (simp add: card_insert_if domIff)
  ultimately show ?thesis using assms(1,2) map_le_trans [OF le new]
    by (simp add: add_post_def all_less_Suc not_failed_Suc del: upt_Suc)
qed

lemma add_post_grows:
  assumes "add_post pid bn failed i vs (P(k \<mapsto> v)) Q es" and "P k = None"
  shows "Q \<noteq> P"
proof -
  from assms(1) have "P(k \<mapsto> v) \<subseteq>\<^sub>m Q" by (simp add: add_post_def)
  then have "Q k \<noteq> None" unfolding map_le_def by (metis domI fun_upd_same option.discI)
  with assms(2) show ?thesis by auto
qed

lemma add_loop_spec:
  assumes "\<And>w t. poolAddressToID D (fst (tokenAddressToID D w t)) = poolAddressToID D w"
    and "registry_wf r" and "add_pre (poolAddressToID D w) ks failed i vs"
  shows "\<exists>w' r' es. add_loop bn (tokenAddressToID D) (poolAddressToID D) ks failed i vs (w, r, errs) =
      Some (w', r', errs @ es) \<and> registry_wf r' \<and> poolAddressToID D w' = poolAddressToID D w \<and>
    (pools_of r' = pools_of r \<longrightarrow> r' = r) \<and> add_post (poolAddressToID D w) bn failed i vs (pools_of r) (pools_of r') es"
  using assms(2-3)
proof (induction vs arbitrary: i w r errs)
  case Nil
  then show ?case by (simp add: add_post_def)
next
  case (Cons v vs)
  let ?loop = "add_loop bn (tokenAddressToID D) (poolAddressToID D) ks failed"
  let ?pid = "poolAddressToID D w"
  have pre: "add_pre ?pid ks failed (Suc i) vs" "vp_r0 v \<noteq> None" "vp_r1 v \<noteq> None"
    using Cons.prems(2) by (simp_all add: add_pre_Cons)
  show ?case
  proof (cases "failed i")
    case True
    with Cons.IH [OF Cons.prems(1) pre(1), of errs] show ?thesis
      by (auto dest: add_post_skip)
  next
    case False
    then have k: "i < length ks" "?pid (vp_pool v) = Inr (ks ! i)"
      using Cons.prems(2) by (simp_all add: add_pre_Cons)
    obtain w1 r1 e where a: "addPool (vp_t0 v) (vp_t1 v) (vp_pool v) (vp_type v) (vp_fee v)
        (tokenAddressToID D) ?pid w r = (w1, r1, e)" by (metis prod_cases3)
    have w1: "poolAddressToID D w1 = ?pid" by (rule addPool_world [OF assms(1) a])
    have pre1: "add_pre (poolAddressToID D w1) ks failed (Suc i) vs" by (simp only: w1 pre(1))
    from add_step [OF Cons.prems(1) k(2) pre(2,3) a] show ?thesis
    proof (elim disjE exE conjE, goal_cases)
      case (1 err)
      then have "?loop i (v # vs) (w, r, errs) =
          ?loop (Suc i) vs (w1, r, errs @ [InitializationError bn err (vp_pool v)])"
        using False k(1) a by simp
      with Cons.IH [OF Cons.prems(1) pre1, of "errs @ [InitializationError bn err (vp_pool v)]"]
        add_post_error [where failed = failed and i = i, OF False] w1
      show ?case by fastforce
    next
      case (2 r2 x y)
      then have "?loop i (v # vs) (w, r, errs) = ?loop (Suc i) vs (w1, r2, errs)"
        using False k(1) a by simp
      moreover have "add_post ?pid bn failed i (v # vs) (pools_of r) new es"
        if "add_post ?pid bn failed (Suc i) vs (pools_of r2) new es" for new es
        by (rule add_post_added [OF False that, where k = "ks ! i" and x = x and y = y])
          (use 2 k finite_pools [OF Cons.prems(1)] in simp_all)
      moreover have "pools_of r' \<noteq> pools_of r"
        if "add_post ?pid bn failed (Suc i) vs (pools_of r2) (pools_of r') es" for r' es
        by (rule add_post_grows [OF that [unfolded 2(5)] 2(2)])
      ultimately show ?case using Cons.IH [OF 2(4) pre1, of errs] w1 by fastforce
    qed
  qed
qed

section \<open>The batch\<close>

text \<open>The pool an error of the initialization names.\<close>

fun init_error_pool :: "go_error \<Rightarrow> address option" where
  "init_error_pool (InitializationError b e p) = Some p"
| "init_error_pool (RegistrationError b e p t0 t1) = Some p"
| "init_error_pool e = None"

text \<open>The account given of pool number \<open>i\<close>: an error names it, or it was fetched without an
  error, was not in the registry, and is there now, under its ID, with the fetched values.\<close>

definition pool_accounted ::
  "to_id \<Rightarrow> (u64 \<rightharpoonup> PoolView) \<Rightarrow> (u64 \<rightharpoonup> PoolView) \<Rightarrow> go_error list \<Rightarrow> address list \<Rightarrow> init_result
     \<Rightarrow> nat \<Rightarrow> bool" where
  "pool_accounted pid old new errs ps res i \<longleftrightarrow>
     (\<exists>e \<in> set errs. init_error_pool e = Some (ps ! i)) \<or>
     (ir_errs res ! i = None \<and> (\<exists>k x y. pid (ps ! i) = Inr k \<and> old k = None \<and>
        new k = Some (added_view k x y (valid_at ps res i))))"

lemma length_filter_partition:
  "length (filter P xs) + length (filter (\<lambda>x. \<not> P x) xs) = length xs"
  by (induction xs) auto

lemma row_error_accounts:
  assumes "i < length ps" and "ir_errs res ! i \<noteq> None"
  shows "\<exists>e \<in> set (map (row_error bn ps res) (failed_rows res [0..<length ps])).
    init_error_pool e = Some (ps ! i)"
proof -
  have "i \<in> set (failed_rows res [0..<length ps])" using assms by simp
  then have "row_error bn ps res i \<in> set (map (row_error bn ps res) (failed_rows res [0..<length ps]))"
    unfolding set_map by (rule imageI)
  then show ?thesis by (rule rev_bexI) (simp add: row_error_def)
qed

lemma length_View: "state_inv s \<Longrightarrow> length (View s) = card (dom (pools_of (registry s)))"
  using distinct_card [OF View_pools(2)] View_pools(3) by fastforce

context persistent_deps
begin

text \<open>The registered pools: what the two loops after the registration do.\<close>

text \<open>A row of the registration is accounted for by its registration error or by its insertion.\<close>

lemma registration_accounts:
  assumes "length es = length valid" and j: "j < length valid"
    and "\<And>j. j < length valid \<Longrightarrow> es ! j = None \<Longrightarrow> accounted pid P Q bn errs (valid ! j)"
  shows "(\<exists>e \<in> set (map (reg_error bn valid es) (filter (\<lambda>j. es ! j \<noteq> None) [0..<length es]) @ errs).
      init_error_pool e = Some (vp_pool (valid ! j))) \<or>
    (\<exists>k x y. pid (vp_pool (valid ! j)) = Inr k \<and> P k = None \<and> Q k = Some (added_view k x y (valid ! j)))"
    (is "(\<exists>e \<in> set (?regErrs @ errs). _) \<or> _")
proof (cases "es ! j")
  case None
  with assms(3) j have "accounted pid P Q bn errs (valid ! j)" by simp
  then show ?thesis unfolding accounted_def by (metis UnCI init_error_pool.simps(1) set_append)
next
  case (Some e)
  then have "reg_error bn valid es j \<in> set ?regErrs" using j assms(1) by simp
  then have "reg_error bn valid es j \<in> set (?regErrs @ errs)" by simp
  then have "\<exists>e \<in> set (?regErrs @ errs). init_error_pool e = Some (vp_pool (valid ! j))"
    by (rule rev_bexI) (simp add: reg_error_def)
  then show ?thesis ..
qed

lemma registered_spec:
  assumes "registry_wf r" and "\<And>v. v \<in> set valid \<Longrightarrow> vp_r0 v \<noteq> None \<and> vp_r1 v \<noteq> None"
    and "registerPools D w (map vp_t0 valid) (map vp_t1 valid) (map vp_pool valid) = (w1, ks, es)"
  obtains w' r' errs where
    "do { (errs2, failed) \<leftarrow> registration_loop bn valid 0 es (errs1, (\<lambda>_. False));
          add_loop bn (tokenAddressToID D) (poolAddressToID D) ks failed 0 valid (w1, r, errs2) } =
      Some (w', r', errs1 @ errs)"
    "registry_wf r'" "pools_of r \<subseteq>\<^sub>m pools_of r'"
    "card (dom (pools_of r')) + length errs = card (dom (pools_of r)) + length valid"
    "\<And>j. j < length valid \<Longrightarrow> (\<exists>e \<in> set errs. init_error_pool e = Some (vp_pool (valid ! j))) \<or>
       (\<exists>k x y. poolAddressToID D w' (vp_pool (valid ! j)) = Inr k \<and> pools_of r k = None \<and>
          pools_of r' k = Some (added_view k x y (valid ! j)))"
    "pools_of r' = pools_of r \<Longrightarrow> r' = r"
proof -
  let ?failed = "\<lambda>j. j < length es \<and> es ! j \<noteq> None"
  let ?regErrs = "map (reg_error bn valid es) (filter (\<lambda>j. es ! j \<noteq> None) [0..<length es])"
  have len: "length ks = length valid" "length es = length valid"
    using register_shape [OF assms(3)] by simp_all
  have "poolAddressToID D w1 (vp_pool (valid ! j)) = Inr (ks ! j)" if "j < length valid" "es ! j = None" for j
    using register_ids [OF assms(3), of j] that by simp
  then have "add_pre (poolAddressToID D w1) ks ?failed 0 valid"
    using len assms(2) by (simp add: add_pre_def)
  from add_loop_spec [OF token_lookup assms(1) this, of bn "errs1 @ ?regErrs"]
  obtain w' r' es' where l: "add_loop bn (tokenAddressToID D) (poolAddressToID D) ks ?failed 0 valid
      (w1, r, errs1 @ ?regErrs) = Some (w', r', (errs1 @ ?regErrs) @ es')" "registry_wf r'"
    "poolAddressToID D w' = poolAddressToID D w1"
    "add_post (poolAddressToID D w1) bn ?failed 0 valid (pools_of r) (pools_of r') es'"
    "pools_of r' = pools_of r \<longrightarrow> r' = r" by blast
  have good: "filter (\<lambda>j. \<not> ?failed (0 + j)) [0..<length valid] = filter (\<lambda>j. \<not> es ! j \<noteq> None) [0..<length valid]"
    using len by (auto intro: filter_cong)
  have parts: "length (filter (\<lambda>j. es ! j \<noteq> None) [0..<length valid]) +
      length (filter (\<lambda>j. \<not> es ! j \<noteq> None) [0..<length valid]) = length valid"
    using length_filter_partition [of "\<lambda>j. es ! j \<noteq> None" "[0..<length valid]"] by simp
  note post = l(4) [unfolded add_post_def good]
  show ?thesis
  proof (rule that [of w' r' "?regErrs @ es'"])
    show "do { (errs2, failed) \<leftarrow> registration_loop bn valid 0 es (errs1, (\<lambda>_. False));
          add_loop bn (tokenAddressToID D) (poolAddressToID D) ks failed 0 valid (w1, r, errs2) } =
      Some (w', r', errs1 @ ?regErrs @ es')"
      using l(1) by (simp add: registration_loop_eq [OF len(2)])
    show "registry_wf r'" by (rule l(2))
    show "r' = r" if "pools_of r' = pools_of r" using that l(5) by blast
    show "pools_of r \<subseteq>\<^sub>m pools_of r'" using post by blast
    show "card (dom (pools_of r')) + length (?regErrs @ es') = card (dom (pools_of r)) + length valid"
      using post parts len by simp
    fix j assume j: "j < length valid"
    show "(\<exists>e \<in> set (?regErrs @ es'). init_error_pool e = Some (vp_pool (valid ! j))) \<or>
       (\<exists>k x y. poolAddressToID D w' (vp_pool (valid ! j)) = Inr k \<and> pools_of r k = None \<and>
          pools_of r' k = Some (added_view k x y (valid ! j)))"
    proof -
      have "accounted (poolAddressToID D w1) (pools_of r) (pools_of r') bn es' (valid ! j)"
        if "j < length valid" "es ! j = None" for j
        using post that by simp
      from registration_accounts [OF len(2) j this] show ?thesis unfolding l(3) .
    qed
  qed
qed

text \<open>Pools the initializer could not fetch are named by the error of their row, a fetched pool by
  what the registration and the insertion made of it.\<close>

lemma rows_accounted:
  assumes "i < length ps"
    and "ir_errs res ! i = None \<Longrightarrow> (\<exists>e \<in> set errs. init_error_pool e = Some (ps ! i)) \<or>
      (\<exists>k x y. pid (ps ! i) = Inr k \<and> P k = None \<and> Q k = Some (added_view k x y (valid_at ps res i)))"
  shows "pool_accounted pid P Q (map (row_error bn ps res) (failed_rows res [0..<length ps]) @ errs) ps res i"
proof (cases "ir_errs res ! i")
  case (Some e)
  then have "ir_errs res ! i \<noteq> None" by simp
  from row_error_accounts [OF assms(1) this, of bn] show ?thesis
    unfolding pool_accounted_def set_append by blast
next
  case None
  with assms(2) show ?thesis unfolding pool_accounted_def set_append by blast
qed

text \<open>Without a fetched pool, \<^verbatim>\<open>applyInitializations\<close> only reports the rows' errors.\<close>

lemma nothing_fetched:
  assumes "init_answer_ok (length ps) res" and "ps = [] \<or> ok_rows res [0..<length ps] = []"
  shows "applyInitializations D w bn ps res r = Some (w, r, map (row_error bn ps res) (failed_rows res [0..<length ps]))"
    and "i < length ps \<Longrightarrow>
      pool_accounted pid P Q (map (row_error bn ps res) (failed_rows res [0..<length ps])) ps res i"
proof -
  show "applyInitializations D w bn ps res r = Some (w, r, map (row_error bn ps res) (failed_rows res [0..<length ps]))"
    using assms(2) by (auto simp: applyInitializations_def filter_loop_eq [OF assms(1)])
  assume i: "i < length ps"
  with assms(2) have "ir_errs res ! i \<noteq> None" by (auto simp: filter_empty_conv)
  from row_error_accounts [OF i this]
  show "pool_accounted pid P Q (map (row_error bn ps res) (failed_rows res [0..<length ps])) ps res i"
    unfolding pool_accounted_def by blast
qed

text \<open>The whole of \<^verbatim>\<open>applyInitializations\<close>.\<close>

lemma applyInitializations_spec:
  assumes "registry_wf r" and "init_answer_ok (length ps) res"
  obtains w' r' errs where "applyInitializations D w bn ps res r = Some (w', r', errs)"
    "registry_wf r'" "pools_of r \<subseteq>\<^sub>m pools_of r'"
    "card (dom (pools_of r')) + length errs = card (dom (pools_of r)) + length ps"
    "\<And>i. i < length ps \<Longrightarrow> pool_accounted (poolAddressToID D w') (pools_of r) (pools_of r') errs ps res i"
    "pools_of r' = pools_of r \<Longrightarrow> r' = r"
proof -
  let ?bad = "failed_rows res [0..<length ps]" and ?ok = "ok_rows res [0..<length ps]"
  let ?valid = "map (valid_at ps res) ?ok" and ?errs1 = "map (row_error bn ps res) ?bad"
  have parts: "length ?bad + length ?ok = length ps"
    using length_filter_partition [of "\<lambda>i. ir_errs res ! i \<noteq> None" "[0..<length ps]"] by simp
  note F = filter_loop_eq [OF assms(2), of bn]
  show ?thesis
  proof (cases "ps = [] \<or> ?ok = []")
    case True
    show ?thesis
      by (rule that [OF nothing_fetched(1) [OF assms(2) True]])
        (use assms(1) parts True nothing_fetched(2) [OF assms(2) True] in auto)
  next
    case False
    obtain w1 ks es where reg: "registerPools D w (map vp_t0 ?valid) (map vp_t1 ?valid)
        (map vp_pool ?valid) = (w1, ks, es)" by (metis prod_cases3)
    have res: "vp_r0 v \<noteq> None \<and> vp_r1 v \<noteq> None" if "v \<in> set ?valid" for v
      using that assms(2) by (auto simp: valid_at_def init_answer_ok_def)
    obtain w' r' errs where R: "do { (errs2, failed) \<leftarrow> registration_loop bn ?valid 0 es (?errs1, (\<lambda>_. False));
          add_loop bn (tokenAddressToID D) (poolAddressToID D) ks failed 0 ?valid (w1, r, errs2) } =
        Some (w', r', ?errs1 @ errs)"
      "registry_wf r'" "pools_of r \<subseteq>\<^sub>m pools_of r'"
      "card (dom (pools_of r')) + length errs = card (dom (pools_of r)) + length ?valid"
      "\<And>j. j < length ?valid \<Longrightarrow> (\<exists>e \<in> set errs. init_error_pool e = Some (vp_pool (?valid ! j))) \<or>
         (\<exists>k x y. poolAddressToID D w' (vp_pool (?valid ! j)) = Inr k \<and> pools_of r k = None \<and>
            pools_of r' k = Some (added_view k x y (?valid ! j)))"
      "pools_of r' = pools_of r \<Longrightarrow> r' = r"
      using registered_spec [OF assms(1) res reg, of bn ?errs1] by blast
    have "applyInitializations D w bn ps res r = Some (w', r', ?errs1 @ errs)"
      using False R(1) reg by (simp add: applyInitializations_def F)
    moreover have "pool_accounted (poolAddressToID D w') (pools_of r) (pools_of r') (?errs1 @ errs) ps res i"
      if i: "i < length ps" for i
    proof (rule rows_accounted [OF i], goal_cases)
      case 1
      with i have "i \<in> set ?ok" by simp
      then obtain j where "j < length ?ok" "?ok ! j = i" by (metis in_set_conv_nth)
      then have j: "j < length ?valid" "?valid ! j = valid_at ps res i" by simp_all
      have name: "vp_pool (valid_at ps res i) = ps ! i" by (simp add: valid_at_def)
      show ?case by (rule R(5) [OF j(1), unfolded j(2) name])
    qed
    ultimately show ?thesis
      by (rule_tac that [of w' r' "?errs1 @ errs"]) (use R parts in auto)
  qed
qed

text \<open>The section under the lock keeps the invariant: the view is refreshed whenever a pool was
  added, and without a new pool the registry is the old one.\<close>

lemma init_apply_spec:
  assumes "state_inv s" and "init_answer_ok (length ps) res"
  obtains w' s' errs where
    "init_apply D w ps res s = Some (w', s', int (length ps) - int (length errs), errs)"
    "state_inv s'" "pools_of (registry s) \<subseteq>\<^sub>m pools_of (registry s')"
    "length (View s') + length errs = length (View s) + length ps"
    "\<And>i. i < length ps \<Longrightarrow> pool_accounted (poolAddressToID D w') (pools_of (registry s))
       (pools_of (registry s')) errs ps res i"
    "pendingInit s' = pendingInit s" "lastUpdatedAtBlock s' = lastUpdatedAtBlock s"
    "handled s' = handled s" "m_PendingInitQueueSize (metrics s') = m_PendingInitQueueSize (metrics s)"
    "m_PoolsInitialized (metrics s') = m_PoolsInitialized (metrics s)"
proof -
  note I = state_invD [OF assms(1)]
  obtain w' r' errs where A: "applyInitializations D w 0 ps res (registry s) = Some (w', r', errs)"
    "registry_wf r'" "pools_of (registry s) \<subseteq>\<^sub>m pools_of r'"
    "card (dom (pools_of r')) + length errs = card (dom (pools_of (registry s))) + length ps"
    "\<And>i. i < length ps \<Longrightarrow>
       pool_accounted (poolAddressToID D w') (pools_of (registry s)) (pools_of r') errs ps res i"
    "pools_of r' = pools_of (registry s) \<Longrightarrow> r' = registry s"
    using applyInitializations_spec [OF I(1) assms(2), where bn = 0 and w = w] by blast
  let ?n = "int (length ps) - int (length errs)" and ?t = "s\<lparr>registry := r'\<rparr>"
  show ?thesis
  proof (cases "?n > 0")
    case True
    obtain s' where s': "updateCachedView ?t = Some s'" "state_inv s'" "registry s' = r'"
      "pendingInit s' = pendingInit s" "lastUpdatedAtBlock s' = lastUpdatedAtBlock s"
      "handled s' = handled s"
      "m_PendingInitQueueSize (metrics s') = m_PendingInitQueueSize (metrics s)"
      "m_PoolsInitialized (metrics s') = m_PoolsInitialized (metrics s)"
      by (rule updateCachedView_inv [of ?t])
        (use A(2) I(3,4) in \<open>simp_all add: errors_counted_def\<close>)
    have "init_apply D w ps res s = Some (w', s', ?n, errs)"
      using True A(1) s'(1) by (simp add: init_apply_def)
    then show ?thesis
      by (rule that) (use s' A length_View [OF assms(1)] length_View [OF s'(2)] in simp_all)
  next
    case False
    then have "length ps \<le> length errs" by simp
    then have "card (dom (pools_of r')) \<le> card (dom (pools_of (registry s)))" using A(4) by simp
    then have "dom (pools_of r') = dom (pools_of (registry s))"
      using map_le_implies_dom_le [OF A(3)] finite_pools [OF A(2)] by (metis card_seteq)
    then have "pools_of (registry s) = pools_of r'" using A(3) by (metis map_le_antisym map_le_def)
    with A(6) have r: "r' = registry s" by simp
    then have "init_apply D w ps res s = Some (w', s, ?n, errs)"
      using False A(1) by (simp add: init_apply_def)
    then show ?thesis
      by (rule that) (use assms(1) A r length_View [OF assms(1)] in simp_all)
  qed
qed

end

text \<open>The second section under the lock with what follows it.\<close>

lemma init_apply_finish:
  assumes "persistent_deps D" and "state_inv t" and "init_answer_ok (length ps) res"
  obtains w' s3 n errs s' where "init_apply D w ps res t = Some (w', s3, n, errs)"
    "s' = init_finish n errs s3" "state_inv s'" "pools_of (registry t) \<subseteq>\<^sub>m pools_of (registry s')"
    "length (View s') + length errs = length (View t) + length ps"
    "m_PoolsInitialized (metrics s') + length (View t) = m_PoolsInitialized (metrics t) + length (View s')"
    "\<And>i. i < length ps \<Longrightarrow> pool_accounted (poolAddressToID D w') (pools_of (registry t))
       (pools_of (registry s')) errs ps res i"
    "pendingInit s' = pendingInit t" "lastUpdatedAtBlock s' = lastUpdatedAtBlock t"
    "handled s' = handled t @ errs"
    "m_PendingInitQueueSize (metrics s') = m_PendingInitQueueSize (metrics t)"
proof -
  show ?thesis
  proof (rule persistent_deps.init_apply_spec [OF assms, of w], goal_cases)
    case (1 w' s3 errs)
    let ?n = "int (length ps) - int (length errs)"
    let ?s' = "init_finish ?n errs s3"
    have F: "state_inv ?s'" "registry ?s' = registry s3" "View ?s' = View s3"
      "pendingInit ?s' = pendingInit t" "lastUpdatedAtBlock ?s' = lastUpdatedAtBlock t"
      "handled ?s' = handled t @ errs"
      "m_PendingInitQueueSize (metrics ?s') = m_PendingInitQueueSize (metrics t)"
      "m_PoolsInitialized (metrics ?s') = m_PoolsInitialized (metrics t) + nat ?n"
      using 1 by (simp_all add: init_finish_def Let_def state_inv_metrics)
    have "length (View t) \<le> length (View s3)"
      unfolding length_View [OF assms(2)] length_View [OF 1(2)]
      by (rule card_mono [OF finite_pools [OF state_invD(1) [OF 1(2)]] map_le_implies_dom_le [OF 1(3)]])
    then have "m_PoolsInitialized (metrics ?s') + length (View t) =
        m_PoolsInitialized (metrics t) + length (View ?s')"
      unfolding F(3,8) using 1(4) by linarith
    with 1 F show ?case by (intro that [of w' s3 ?n errs ?s']) simp_all
  qed
qed



section \<open>When the persistence layer is not consistent\<close>


definition skewed_deps :: "(World, unit) Deps" where
  "skewed_deps = (wired (example_setup 1))
     \<lparr>registerPools := (\<lambda>w t0s t1s ps. (w, map (\<lambda>_. 5) ps, map (\<lambda>_. None) ps))\<rparr>"


text \<open>
  C30. No sequence of blocks brings in a pool the persistence layer already knows: whatever the
  blocks contain, a pool whose address resolves to an ID is never queued, so if the registry
  lacks it, because the system was started without a snapshot, because adding it failed after
  its registration, or because it was deleted, it stays untracked. Blocks never add pools
  themselves, and no sequence of blocks panics.
\<close>

theorem known_pools_are_never_queued:
  assumes "chain_deps D" and "state_inv s" and "poolAddressToID D w a = Inr k"
    and "a \<notin> set (pendingInit s)"
  shows "\<exists>s'. foldM (listen_block D E w) bs s = Some s' \<and> state_inv s' \<and>
    a \<notin> set (pendingInit s') \<and> ID ` set (View s') = ID ` set (View s)"
proof -
  let ?P = "\<lambda>t. state_inv t \<and> a \<notin> set (pendingInit t) \<and> dom (pools_of (registry t)) = dom (pools_of (registry s))"
  have "\<exists>t'. listen_block D E w b t = Some t' \<and> ?P t'" if "?P t" for b t
  proof (cases "testBloom D (bl_Bloom b)")
    case False
    then show ?thesis using that
      by (simp add: listen_block_def block_skip_def state_inv_def errors_counted_def)
  next
    case True
    from that have t: "state_inv t" by simp
    show ?thesis
    proof (rule handleNewBlock_cases [OF assms(1) t, of E w b], goal_cases)
      case (1 err)
      with that True show ?case by (simp add: listen_block_def)
    next
      case (2 s' c logs ps r0s r1s e1 found e2)
      have "dom (pools_of (registry s')) = dom (pools_of (registry t))"
        unfolding 2(8) by (auto simp: dom_def)
      moreover have "a \<notin> set (pendingInit s')" using 2(9) that assms(3) by (simp add: wanted_def)
      ultimately show ?case using 2(1,6) that True by (simp add: listen_block_def)
    qed
  qed
  then obtain s' where "foldM (listen_block D E w) bs s = Some s'" "?P s'"
    using foldM_inv [of ?P s bs "listen_block D E w"] assms(2,4) by blast
  then show ?thesis using View_pools(3) assms(2) by (intro exI [of _ s']) metis
qed

theorem known_pools_are_never_queued_witness:
  "\<exists>s'. foldM (listen_block (wired (example_setup 1)) (example_env [swap_log 7]) registered_world)
      [example_block, example_block] empty_state = Some s' \<and>
    7 \<notin> set (pendingInit s') \<and> View s' = []"
proof -
  have "poolAddressToID (wired (example_setup 1)) registered_world 7 = Inr 1001"
    by (simp add: registered_world_def example_world_def mock_PoolAddressToID_def)
  moreover have "7 \<notin> set (pendingInit empty_state)" "View empty_state = []"
    by (simp_all add: empty_state_def initial_state_def View_def)
  ultimately show ?thesis
    using known_pools_are_never_queued [OF wired.chain_deps_axioms empty_state_inv,
        of "example_setup 1" registered_world 7 1001 "example_env [swap_log 7]"
        "[example_block, example_block]"]
    by auto
qed

end
