(* ===== verification/Maintenance_Props.thy ===== *)
theory Maintenance_Props
  imports Maintenance Init_Props
begin

text \<open>
  What holds of deletion, pruning and reconciliation: the exact result of each, on every branch,
  with the view kept in step with the registry.
\<close>

section \<open>Deletion\<close>

text \<open>The answer for each ID: an error if it is not tracked, or was already deleted by this call.\<close>

definition delete_result :: "u64 set \<Rightarrow> u64 list \<Rightarrow> nat \<Rightarrow> go_error option" where
  "delete_result K ks i =
     (if ks ! i \<in> K \<and> ks ! i \<notin> set (take i ks) then None else Some ErrPoolNotFound)"

lemma delete_results_Cons:
  "map (delete_result K (k # ks)) [0..<length (k # ks)] =
    (if k \<in> K then None else Some ErrPoolNotFound) # map (delete_result (K - {k}) ks) [0..<length ks]"
proof -
  have "[0..<length (k # ks)] = 0 # map Suc [0..<length ks]"
    by (simp add: upt_conv_Cons map_Suc_upt del: upt_Suc)
  then show ?thesis by (auto simp: delete_result_def)
qed

lemma delete_loop_spec:
  assumes "registry_wf r"
  shows "\<exists>r'. delete_loop ks (r, errs, hc, he) = Some (r',
      errs @ map (delete_result (dom (pools_of r)) ks) [0..<length ks],
      hc \<or> None \<in> delete_result (dom (pools_of r)) ks ` {0..<length ks},
      he \<or> Some ErrPoolNotFound \<in> delete_result (dom (pools_of r)) ks ` {0..<length ks}) \<and>
    registry_wf r' \<and> pools_of r' = pools_of r |` (- set ks) \<and>
    (None \<notin> delete_result (dom (pools_of r)) ks ` {0..<length ks} \<longrightarrow> r' = r)"
  using assms
proof (induction ks arbitrary: r errs hc he)
  case Nil
  then show ?case by (simp add: restrict_map_def)
next
  case (Cons k ks)
  obtain r1 where r1: "deletePool k r =
      Some (r1, if pools_of r k = None then Some ErrPoolNotFound else None)" "registry_wf r1"
    "pools_of r1 = (pools_of r)(k := None)"
    using reg.del_total [OF Cons.prems] by blast
  have same: "pools_of r k = None \<Longrightarrow> r1 = r" using r1(1) reg.del_absent [of r k] by simp
  let ?K = "dom (pools_of r)"
  have dom: "dom (pools_of r1) = ?K - {k}" using r1(3) by simp
  have split: "delete_result ?K (k # ks) ` {0..<length (k # ks)} =
      insert (if k \<in> ?K then None else Some ErrPoolNotFound)
        (delete_result (?K - {k}) ks ` {0..<length ks})"
    using arg_cong [OF delete_results_Cons [of ?K k ks], of set] by (simp del: upt_Suc)
  have res: "pools_of r1 |` (- set ks) = pools_of r |` (- set (k # ks))"
    using r1(3) by (auto simp: restrict_map_def fun_eq_iff)
  show ?case
  proof (cases "pools_of r k")
    case None
    then have "k \<notin> ?K" by auto
    with None Cons.IH [OF r1(2), of "errs @ [Some ErrPoolNotFound]" hc True] r1(1) same
    show ?thesis unfolding delete_results_Cons split res [symmetric] dom by auto
  next
    case (Some v)
    then have "k \<in> ?K" by auto
    with Some Cons.IH [OF r1(2), of "errs @ [None]" True he] r1(1)
    show ?thesis unfolding delete_results_Cons split res [symmetric] dom by auto
  qed
qed

lemma distinct_take_iff: "distinct ks \<longleftrightarrow> (\<forall>i < length ks. ks ! i \<notin> set (take i ks))"
  by (induction ks rule: rev_induct) (auto simp: nth_append less_Suc_eq)

lemma DeletePools_spec:
  assumes "state_inv s"
  obtains s' where "DeletePools ks s = Some (s',
      if set ks \<subseteq> dom (pools_of (registry s)) \<and> distinct ks then []
      else map (delete_result (dom (pools_of (registry s))) ks) [0..<length ks])"
    "state_inv s'" "pools_of (registry s') = pools_of (registry s) |` (- set ks)"
    "handled s' = handled s" "pendingInit s' = pendingInit s"
    "lastUpdatedAtBlock s' = lastUpdatedAtBlock s"
proof -
  note I = state_invD [OF assms]
  let ?K = "dom (pools_of (registry s))"
  let ?R = "delete_result ?K ks ` {0..<length ks}"
  obtain r' where r': "delete_loop ks (registry s, [], False, False) = Some (r',
      map (delete_result ?K ks) [0..<length ks], None \<in> ?R, Some ErrPoolNotFound \<in> ?R)"
    "registry_wf r'" "pools_of r' = pools_of (registry s) |` (- set ks)" "None \<notin> ?R \<longrightarrow> r' = registry s"
    using delete_loop_spec [OF I(1), of ks "[]" False False] by auto
  have err: "Some ErrPoolNotFound \<in> ?R \<longleftrightarrow> \<not> (set ks \<subseteq> ?K \<and> distinct ks)"
    by (auto simp: delete_result_def distinct_take_iff subset_iff in_set_conv_nth image_iff)
  let ?t = "s\<lparr>registry := r'\<rparr>"
  have t: "registry_wf (registry ?t)" "distinct (pendingInit ?t)" "errors_counted ?t"
    using r'(2) I(3,4) by (simp_all add: errors_counted_def)
  obtain s' where s': "updateCachedView ?t = Some s'" "state_inv s'" "registry s' = r'"
    "pendingInit s' = pendingInit s" "lastUpdatedAtBlock s' = lastUpdatedAtBlock s"
    "handled s' = handled s"
    by (rule updateCachedView_inv [OF t]) simp
  show ?thesis
  proof (cases "None \<in> ?R")
    case True
    then have "DeletePools ks s = Some (s', if set ks \<subseteq> ?K \<and> distinct ks then []
        else map (delete_result ?K ks) [0..<length ks])"
      using r'(1) s'(1) err by (simp add: DeletePools_def)
    then show ?thesis by (rule that) (use s' r' in simp_all)
  next
    case False
    with r'(4) have same: "r' = registry s" by simp
    have "DeletePools ks s = Some (s, if set ks \<subseteq> ?K \<and> distinct ks then []
        else map (delete_result ?K ks) [0..<length ks])"
      using False r'(1) err same by (simp add: DeletePools_def)
    then show ?thesis by (rule that) (use assms r' same in simp_all)
  qed
qed

text \<open>
  C10. \<^verbatim>\<open>DeletePools\<close> removes exactly the listed pools and nothing else, keeps the invariant, so
  readers no longer see them, and answers entry by entry: nil for a pool that was tracked, not
  found for an ID that was not or that the list already named; and it answers nil as a whole
  exactly if every ID was tracked and named once. \<^verbatim>\<open>DeletePool\<close> is the same for one ID.
\<close>

theorem DeletePools_exact:
  assumes "state_inv s"
  shows "\<exists>s' errs. DeletePools ks s = Some (s', errs) \<and> state_inv s' \<and>
    set (View s') = {v \<in> set (View s). ID v \<notin> set ks} \<and>
    pendingInit s' = pendingInit s \<and> LastUpdatedAtBlock s' = LastUpdatedAtBlock s \<and>
    (if set ks \<subseteq> ID ` set (View s) \<and> distinct ks then errs = []
     else length errs = length ks \<and> (\<forall>i < length ks. errs ! i =
       (if ks ! i \<in> ID ` set (View s) \<and> ks ! i \<notin> set (take i ks) then None else Some ErrPoolNotFound)))"
proof -
  obtain s' where D: "DeletePools ks s = Some (s',
      if set ks \<subseteq> dom (pools_of (registry s)) \<and> distinct ks then []
      else map (delete_result (dom (pools_of (registry s))) ks) [0..<length ks])"
    "state_inv s'" "pools_of (registry s') = pools_of (registry s) |` (- set ks)"
    "pendingInit s' = pendingInit s" "lastUpdatedAtBlock s' = lastUpdatedAtBlock s"
    using DeletePools_spec [OF assms, of ks] .
  have "v \<in> set (View s') \<longleftrightarrow> v \<in> set (View s) \<and> ID v \<notin> set ks" for v
    unfolding View_pools(1) [OF D(2)] View_pools(1) [OF assms] D(3) by (simp add: restrict_map_def)
  with D show ?thesis unfolding View_pools(3) [OF assms]
    by (auto simp: LastUpdatedAtBlock_def delete_result_def)
qed

theorem DeletePools_exact_witness:
  "\<exists>s'. DeletePools [1001, 5, 1001] tracking_state =
      Some (s', [None, Some ErrPoolNotFound, Some ErrPoolNotFound]) \<and> View s' = []"
proof -
  let ?ks = "[1001, 5, 1001] :: u64 list"
  obtain s' errs where D: "DeletePools ?ks tracking_state = Some (s', errs)"
    "set (View s') = {v \<in> set (View tracking_state). ID v \<notin> set ?ks}" "length errs = length ?ks"
    "\<forall>i < length ?ks. errs ! i = (if ?ks ! i \<in> ID ` set (View tracking_state) \<and>
      ?ks ! i \<notin> set (take i ?ks) then None else Some ErrPoolNotFound)"
  proof -
    have n: "\<not> (set ?ks \<subseteq> ID ` set (View tracking_state) \<and> distinct ?ks)" by simp
    show ?thesis
      using DeletePools_exact [OF tracking_state_inv, of ?ks] that unfolding if_not_P [OF n] by blast
  qed
  have "set (View s') = {}" using D(2) by (auto simp: example_pool_def)
  moreover have "errs = [None, Some ErrPoolNotFound, Some ErrPoolNotFound]"
  proof -
    obtain e0 e1 e2 where e: "errs = [e0, e1, e2]"
      using D(3) by (auto simp: length_Suc_conv)
    have "e0 = None" using D(4) [rule_format, of 0] e by (simp add: example_pool_def)
    moreover have "e1 = Some ErrPoolNotFound" using D(4) [rule_format, of 1] e by (simp add: example_pool_def)
    moreover have "e2 = Some ErrPoolNotFound" using D(4) [rule_format, of 2] e by (simp add: example_pool_def)
    ultimately show ?thesis by (simp add: e)
  qed
  ultimately show ?thesis using D(1) by simp
qed

section \<open>Pruning\<close>

definition blocked_view :: "('w, 'c) Deps \<Rightarrow> 'w \<Rightarrow> PoolView \<Rightarrow> bool" where
  "blocked_view D w v \<longleftrightarrow> (\<exists>a. poolIDToAddress D w (ID v) = Inr a \<and> inBlockedList D w a)"

text \<open>The errors for the views whose ID has no address.\<close>

definition unresolved_errors :: "('w, 'c) Deps \<Rightarrow> 'w \<Rightarrow> string \<Rightarrow> PoolView list \<Rightarrow> go_error list" where
  "unresolved_errors D w msg vs = concat (map (\<lambda>v. case poolIDToAddress D w (ID v) of
     Inl e \<Rightarrow> [PrunerError (Errorf [Lit msg] e) (ID v)] | Inr a \<Rightarrow> []) vs)"

lemma handle_errors_Cons: "handle_errors (e # es) s = handle_errors es (errorHandler e s)"
  by (simp add: handle_errors_def)

lemma handle_errors_append: "handle_errors (es @ fs) s = handle_errors fs (handle_errors es s)"
  by (simp add: handle_errors_def)

lemma handle_errors_Nil [simp]: "handle_errors [] s = s"
  by (simp add: handle_errors_def)

lemma prune_scan_loop_eq:
  "prune_scan_loop D w vs (s, td) =
    (handle_errors (unresolved_errors D w ''could not get address: '' vs) s,
     td @ map ID (filter (blocked_view D w) vs))"
  by (induction vs arbitrary: s td)
    (auto simp: unresolved_errors_def blocked_view_def handle_errors_Cons split: sum.split)

lemma prune_scan_eq:
  "prune_scan D w s = (handle_errors (unresolved_errors D w ''could not get address: '' (View s)) s,
    map ID (filter (blocked_view D w) (View s)))"
  by (simp add: prune_scan_def prune_scan_loop_eq)

text \<open>Removing the IDs of the views that satisfy \<open>P\<close>.\<close>

lemma View_restrict:
  assumes "state_inv s" and "state_inv s'"
    and "pools_of (registry s') = pools_of (registry s) |` (- set (map ID (filter P (View s))))"
    and "\<And>u v. ID u = ID v \<Longrightarrow> P u = P v"
  shows "set (View s') = {v \<in> set (View s). \<not> P v}"
proof (rule set_eqI)
  fix v
  let ?K = "set (map ID (filter P (View s)))"
  have K: "ID v \<in> ?K \<longleftrightarrow> P v" if "v \<in> set (View s)"
  proof
    assume "ID v \<in> ?K"
    then obtain u where "P u" "ID v = ID u" by auto
    then show "P v" using assms(4) [of v u] by simp
  qed (use that in auto)
  have "v \<in> set (View s') \<longleftrightarrow> pools_of (registry s') (ID v) = Some v" by (rule View_pools(1) [OF assms(2)])
  also have "\<dots> \<longleftrightarrow> ID v \<notin> ?K \<and> pools_of (registry s) (ID v) = Some v"
    unfolding assms(3) by (simp only: restrict_map_def Compl_iff split: if_split) blast
  also have "\<dots> \<longleftrightarrow> ID v \<notin> ?K \<and> v \<in> set (View s)" by (simp only: View_pools(1) [OF assms(1)])
  also have "\<dots> \<longleftrightarrow> v \<in> {v \<in> set (View s). \<not> P v}" using K by blast
  finally show "v \<in> set (View s') \<longleftrightarrow> v \<in> {v \<in> set (View s). \<not> P v}" .
qed

text \<open>
  C9. A pruner run removes exactly the pools whose address is known and blocked, keeps every
  other pool as it is and the invariant, and reports exactly one error for each pool whose ID
  the persistence layer cannot resolve; deleting itself never fails.
\<close>

theorem pruneBlockedPools_exact:
  assumes "state_inv s"
  shows "\<exists>s'. pruneBlockedPools D w s = Some s' \<and> state_inv s' \<and>
    set (View s') = {v \<in> set (View s). \<not> blocked_view D w v} \<and>
    handled s' = handled s @ unresolved_errors D w ''could not get address: '' (View s) \<and>
    pendingInit s' = pendingInit s \<and> LastUpdatedAtBlock s' = LastUpdatedAtBlock s"
proof -
  let ?es = "unresolved_errors D w ''could not get address: '' (View s)"
  let ?s1 = "handle_errors ?es s" and ?ks = "map ID (filter (blocked_view D w) (View s))"
  have s1: "state_inv ?s1" using assms by simp
  show ?thesis
  proof (cases "?ks = []")
    case True
    then have "{v \<in> set (View s). \<not> blocked_view D w v} = set (View s)"
      by (auto simp: filter_empty_conv)
    moreover have "pruneBlockedPools D w s = Some ?s1"
      using True by (auto simp: pruneBlockedPools_def prune_scan_eq unresolved_errors_def)
    ultimately show ?thesis using s1 by (simp add: LastUpdatedAtBlock_def)
  next
    case False
    have "distinct ?ks" using View_pools(2) [OF assms] by (rule distinct_map_filter)
    moreover have "set ?ks \<subseteq> dom (pools_of (registry ?s1))" using View_pools(3) [OF assms] by auto
    ultimately obtain s' where D: "DeletePools ?ks ?s1 = Some (s', [])" "state_inv s'"
      "pools_of (registry s') = pools_of (registry s) |` (- set ?ks)" "handled s' = handled s @ ?es"
      "pendingInit s' = pendingInit s" "lastUpdatedAtBlock s' = lastUpdatedAtBlock s"
      using DeletePools_spec [OF s1, of ?ks] by auto
    have "pruneBlockedPools D w s = Some s'"
      using False D(1) by (auto simp: pruneBlockedPools_def prune_scan_eq)
    moreover have "set (View s') = {v \<in> set (View s). \<not> blocked_view D w v}"
      by (rule View_restrict [OF assms D(2,3)]) (simp add: blocked_view_def)
    ultimately show ?thesis using D by (auto simp: LastUpdatedAtBlock_def)
  qed
qed

theorem pruneBlockedPools_exact_witness:
  "\<exists>s'. pruneBlockedPools (wired (example_setup 1)) (registered_world\<lparr>blocked := (\<lambda>a. a = 7)\<rparr>)
      tracking_state = Some s' \<and> View s' = [] \<and> handled s' = handled tracking_state"
proof -
  let ?w = "registered_world\<lparr>blocked := (\<lambda>a. a = 7)\<rparr>"
  have a: "poolIDToAddress (wired (example_setup 1)) ?w (ID example_pool) = Inr 7"
    by (simp add: registered_world_def example_world_def mock_PoolIDToAddress_def example_pool_def)
  then have "blocked_view (wired (example_setup 1)) ?w example_pool"
    "unresolved_errors (wired (example_setup 1)) ?w ''could not get address: '' [example_pool] = []"
    by (simp_all add: blocked_view_def unresolved_errors_def)
  moreover obtain s' where "pruneBlockedPools (wired (example_setup 1)) ?w tracking_state = Some s'"
    "set (View s') = {v \<in> set (View tracking_state). \<not> blocked_view (wired (example_setup 1)) ?w v}"
    "handled s' = handled tracking_state @ unresolved_errors (wired (example_setup 1)) ?w
       ''could not get address: '' (View tracking_state)"
    using pruneBlockedPools_exact [OF tracking_state_inv, of "wired (example_setup 1)" ?w] by blast
  ultimately have "set (View s') = {}" "handled s' = handled tracking_state" by auto
  then show ?thesis using \<open>pruneBlockedPools (wired (example_setup 1)) ?w tracking_state = Some s'\<close>
    by simp
qed

end
