(* ===== verification/Reconcile_Props.thy ===== *)
theory Reconcile_Props
  imports Maintenance_Props
begin

text \<open>
  What holds of \<^verbatim>\<open>runStateReconciliation\<close>: closed forms of its phases for any view at the time
  of the comparison, what an undisturbed run achieves, and what can happen between the comparison
  and the section under the lock.
\<close>

section \<open>The phases\<close>

definition resolvable :: "('w, 'c) Deps \<Rightarrow> 'w \<Rightarrow> PoolView \<Rightarrow> bool" where
  "resolvable D w v \<longleftrightarrow> (\<exists>a. poolIDToAddress D w (ID v) = Inr a)"

definition addr_of :: "('w, 'c) Deps \<Rightarrow> 'w \<Rightarrow> PoolView \<Rightarrow> address" where
  "addr_of D w v = (case poolIDToAddress D w (ID v) of Inr a \<Rightarrow> a | Inl e \<Rightarrow> 0)"

lemma resolve_loop_eq:
  "resolve_loop D w vs (s, a) =
    (handle_errors (unresolved_errors D w ''reconciler could not get address: '' vs) s,
     \<lparr>rs_addrs = rs_addrs a @ map (addr_of D w) (filter (resolvable D w) vs),
      rs_ids = rs_ids a @ map ID (filter (resolvable D w) vs),
      rs_prev = rs_prev a ++ view_map (filter (resolvable D w) vs)\<rparr>)"
  by (induction vs arbitrary: s a)
    (auto simp: unresolved_errors_def resolvable_def addr_of_def handle_errors_Cons view_map_def
      split: sum.split)

lemma recon_resolve_eq:
  "recon_resolve D w vs s =
    (handle_errors (unresolved_errors D w ''reconciler could not get address: '' vs) s,
     \<lparr>rs_addrs = map (addr_of D w) (filter (resolvable D w) vs),
      rs_ids = map ID (filter (resolvable D w) vs), rs_prev = view_map (filter (resolvable D w) vs)\<rparr>)"
  by (simp add: recon_resolve_def resolve_loop_eq)

lemma view_map_distinct:
  assumes "distinct (map ID vs)"
  shows "view_map vs k = Some v \<longleftrightarrow> v \<in> set vs \<and> ID v = k"
proof -
  have "distinct (map fst (rev (map (\<lambda>v. (ID v, v)) vs)))"
    using assms by (simp add: rev_map [symmetric] comp_def)
  then show ?thesis by (auto simp: view_map_def)
qed

text \<open>The update the comparison asks for at index \<open>i\<close>, with current views \<open>cur\<close>.\<close>

definition wanted_update ::
  "Resolved \<Rightarrow> reserves_result \<Rightarrow> (u64 \<rightharpoonup> PoolView) \<Rightarrow> nat \<Rightarrow> PendingUpdate list" where
  "wanted_update a fresh cur i =
     (let f0 = fst fresh ! i; f1 = fst (snd fresh) ! i; k = rs_ids a ! i; p = read_view (rs_prev a) k in
      case cur k of
        None \<Rightarrow> []
      | Some c \<Rightarrow>
        if snd (snd fresh) ! i = None \<and> (Reserve0 p, Reserve1 p) = (Reserve0 c, Reserve1 c) \<and>
           (Reserve0 c, Reserve1 c) \<noteq> (f0, f1)
        then [\<lparr>pu_id = k, pu_reserve0 = f0, pu_reserve1 = f1\<rparr>] else [])"

definition fetch_error :: "Resolved \<Rightarrow> reserves_result \<Rightarrow> nat \<Rightarrow> go_error list" where
  "fetch_error a fresh i = (case snd (snd fresh) ! i of
     None \<Rightarrow> []
   | Some err \<Rightarrow> [Errorf [Lit ''reconciler failed to get reserves for pool '', Hex (rs_addrs a ! i),
       Lit '': ''] err])"

lemma bigCmp_Some: "bigCmp (Some x) (Some y) = Some (if x < y then - 1 else if x = y then 0 else 1)"
  by simp

lemma is_idle_eq:
  "row_complete p \<Longrightarrow> row_complete c \<Longrightarrow>
    is_idle p c = Some ((Reserve0 p, Reserve1 p) = (Reserve0 c, Reserve1 c))"
  by (auto simp: is_idle_def row_complete_def)

lemma is_stale_eq:
  "row_complete c \<Longrightarrow> f0 \<noteq> None \<Longrightarrow> f1 \<noteq> None \<Longrightarrow>
    is_stale c f0 f1 = Some ((Reserve0 c, Reserve1 c) \<noteq> (f0, f1))"
  by (auto simp: is_stale_def row_complete_def)

lemma compare_loop_from:
  assumes "reserves_answer_ok (length (rs_addrs a)) fresh" and "length (rs_ids a) = length (rs_addrs a)"
    and "\<And>k. k \<in> set (rs_ids a) \<Longrightarrow> row_complete (read_view (rs_prev a) k)"
    and "\<And>k c. cur k = Some c \<Longrightarrow> row_complete c"
    and "i \<le> length (rs_addrs a)"
  shows "compare_loop a fresh cur i (drop i (rs_addrs a)) (s, ups) =
    Some (handle_errors (concat (map (fetch_error a fresh) [i..<length (rs_addrs a)])) s,
          ups @ concat (map (wanted_update a fresh cur) [i..<length (rs_addrs a)]))"
  using assms(5)
proof (induction "length (rs_addrs a) - i" arbitrary: i s ups)
  case 0
  then show ?case by simp
next
  case (Suc m)
  let ?n = "length (rs_addrs a)"
  from Suc have i: "i < ?n" and m: "m = ?n - Suc i" by simp_all
  have d: "drop i (rs_addrs a) = rs_addrs a ! i # drop (Suc i) (rs_addrs a)"
    using i by (rule Cons_nth_drop_Suc [symmetric])
  have u: "[i..<?n] = i # [Suc i..<?n]" using i by (rule upt_conv_Cons)
  obtain f0s f1s es where fresh: "fresh = (f0s, f1s, es)" by (metis prod_cases3)
  note IH = Suc.hyps(1) [OF m]
  have e: "idx es i = Some (es ! i)" and k: "idx (rs_ids a) i = Some (rs_ids a ! i)"
    using assms(1,2) i by (simp_all add: reserves_answer_ok_def fresh)
  show ?case
  proof (cases "es ! i")
    case (Some err)
    then have "wanted_update a fresh cur i = []"
      by (simp add: wanted_update_def fresh Let_def split: option.split)
    then show ?thesis using Some IH i by (simp add: d u e fresh fetch_error_def handle_errors_Cons)
  next
    case None
    have f: "i < length f0s" "i < length f1s" "f0s ! i \<noteq> None" "f1s ! i \<noteq> None"
      using assms(1) i None by (simp_all add: reserves_answer_ok_def fresh)
    have p: "row_complete (read_view (rs_prev a) (rs_ids a ! i))"
      using assms(2,3) i by simp
    show ?thesis
    proof (cases "cur (rs_ids a ! i)")
      case N: None
      then show ?thesis using None IH i k
        by (simp add: d u e fresh fetch_error_def wanted_update_def)
    next
      case (Some c)
      then have c: "row_complete c" by (rule assms(4))
      let ?w = "(Reserve0 (read_view (rs_prev a) (rs_ids a ! i)), Reserve1 (read_view (rs_prev a) (rs_ids a ! i))) =
          (Reserve0 c, Reserve1 c) \<and> (Reserve0 c, Reserve1 c) \<noteq> (f0s ! i, f1s ! i)"
      have "compare_loop a fresh cur i (drop i (rs_addrs a)) (s, ups) =
          compare_loop a fresh cur (Suc i) (drop (Suc i) (rs_addrs a)) (s, ups @ wanted_update a fresh cur i)"
        unfolding d using None Some f(1,2) k
        by (simp add: fresh e is_idle_eq [OF p c] is_stale_eq [OF c f(3,4)] wanted_update_def Let_def) auto
      then show ?thesis using IH None i by (simp add: u fetch_error_def fresh)
    qed
  qed
qed

text \<open>The section under the lock: the effect of a list of updates on one pool.\<close>

definition apply_updates :: "PendingUpdate list \<Rightarrow> u64 \<Rightarrow> PoolView \<Rightarrow> PoolView" where
  "apply_updates ups k v = fold (\<lambda>u v. if pu_id u = k
     then with_reserves (the (pu_reserve0 u)) (the (pu_reserve1 u)) v else v) ups v"

definition update_complete :: "PendingUpdate \<Rightarrow> bool" where
  "update_complete u \<longleftrightarrow> pu_reserve0 u \<noteq> None \<and> pu_reserve1 u \<noteq> None"

definition lost_errors :: "(u64 \<rightharpoonup> PoolView) \<Rightarrow> PendingUpdate list \<Rightarrow> go_error list" where
  "lost_errors m ups = map (\<lambda>u. UpdateError 0 ErrPoolNotFound 0 (pu_id u) None None)
     (filter (\<lambda>u. m (pu_id u) = None) ups)"

lemma lost_errors_Cons: "lost_errors m (u # ups) = lost_errors m [u] @ lost_errors m ups"
  by (simp add: lost_errors_def)

lemma handle_errors_registry: "(handle_errors es s)\<lparr>registry := r\<rparr> = handle_errors es (s\<lparr>registry := r\<rparr>)"
proof (induction es arbitrary: s)
  case (Cons e es)
  have "(errorHandler e s)\<lparr>registry := r\<rparr> = errorHandler e (s\<lparr>registry := r\<rparr>)"
    by (simp add: errorHandler_def Let_def)
  with Cons.IH [of "errorHandler e s"] show ?case by (simp add: handle_errors_Cons)
qed simp

lemma apply_updates_append:
  "map_option (apply_updates (us @ ups) k) v = map_option (apply_updates ups k) (map_option (apply_updates us k) v)"
  by (cases v) (simp_all add: apply_updates_def)

lemma recon_update_step:
  assumes "registry_wf (registry s)" and "update_complete u"
  obtains r where
    "recon_update u s = Some (handle_errors (lost_errors (pools_of (registry s)) [u]) (s\<lparr>registry := r\<rparr>))"
    "registry_wf r" "pools_of r = (\<lambda>k. map_option (apply_updates [u] k) (pools_of (registry s) k))"
proof -
  obtain x y where xy: "pu_reserve0 u = Some x" "pu_reserve1 u = Some y"
    using assms(2) by (auto simp: update_complete_def)
  let ?k = "pu_id u"
  obtain r e where r: "updatePool (Some x) (Some y) ?k (registry s) = Some (r, e)" "registry_wf r"
    "pools_of r = (case pools_of (registry s) ?k of None \<Rightarrow> pools_of (registry s)
       | Some v \<Rightarrow> (pools_of (registry s))(?k \<mapsto> with_reserves x y v))"
    "e = (if pools_of (registry s) ?k = None then Some ErrPoolNotFound else None)"
    using reg.upd_total [OF assms(1)] by metis
  show ?thesis
  proof (rule that)
    show "recon_update u s = Some (handle_errors (lost_errors (pools_of (registry s)) [u]) (s\<lparr>registry := r\<rparr>))"
      using r(1,4) xy by (simp add: recon_update_def lost_errors_def handle_errors_def)
    show "registry_wf r" by (rule r(2))
    show "pools_of r = (\<lambda>k. map_option (apply_updates [u] k) (pools_of (registry s) k))"
    proof
      show "pools_of r k = map_option (apply_updates [u] k) (pools_of (registry s) k)" for k
        using r(3) xy
        by (cases "pools_of (registry s) k"; cases "pools_of (registry s) ?k"; cases "k = ?k")
          (simp_all add: apply_updates_def)
    qed
  qed
qed

lemma recon_update_fold:
  assumes "registry_wf (registry s)" and "list_all update_complete ups"
  shows "\<exists>r'. foldM recon_update ups s =
      Some (handle_errors (lost_errors (pools_of (registry s)) ups) (s\<lparr>registry := r'\<rparr>)) \<and>
    registry_wf r' \<and> pools_of r' = (\<lambda>k. map_option (apply_updates ups k) (pools_of (registry s) k))"
  using assms
proof (induction ups arbitrary: s)
  case Nil
  then show ?case
    by (intro exI [of _ "registry s"])
      (simp add: lost_errors_def apply_updates_def option.map_ident)
next
  case (Cons u ups)
  let ?es = "lost_errors (pools_of (registry s)) [u]"
  from Cons.prems obtain r where r: "recon_update u s = Some (handle_errors ?es (s\<lparr>registry := r\<rparr>))"
    "registry_wf r" "pools_of r = (\<lambda>k. map_option (apply_updates [u] k) (pools_of (registry s) k))"
    by (auto elim: recon_update_step)
  from Cons.IH [of "handle_errors ?es (s\<lparr>registry := r\<rparr>)"] Cons.prems(2) r(2) obtain r' where
    "foldM recon_update ups (handle_errors ?es (s\<lparr>registry := r\<rparr>)) =
       Some (handle_errors (lost_errors (pools_of r) ups) (handle_errors ?es (s\<lparr>registry := r'\<rparr>)))"
    "registry_wf r'" "pools_of r' = (\<lambda>k. map_option (apply_updates ups k) (pools_of r k))"
    by (auto simp: handle_errors_registry)
  moreover have "lost_errors (pools_of r) ups = lost_errors (pools_of (registry s)) ups"
    by (simp add: lost_errors_def r(3))
  ultimately show ?case
    using apply_updates_append [of "[u]" ups] lost_errors_Cons [of "pools_of (registry s)" u ups]
    by (intro exI [of _ r']) (simp add: r(1,3) handle_errors_append)
qed

lemma apply_updates_Nil [simp]: "apply_updates [] k = (\<lambda>v. v)"
  by (simp add: apply_updates_def fun_eq_iff)

lemma recon_apply_spec:
  assumes "state_inv s" and "list_all update_complete ups"
  obtains s' where "recon_apply ups s = Some s'" "state_inv s'"
    "pools_of (registry s') = (\<lambda>k. map_option (apply_updates ups k) (pools_of (registry s) k))"
    "handled s' = handled s @ lost_errors (pools_of (registry s)) ups"
    "pendingInit s' = pendingInit s" "lastUpdatedAtBlock s' = lastUpdatedAtBlock s"
proof (cases ups)
  case Nil
  then show ?thesis using assms(1) that [of s]
    by (simp add: recon_apply_def lost_errors_def apply_updates_Nil option.map_ident)
next
  case (Cons u us)
  note I = state_invD [OF assms(1)]
  obtain r' where r': "foldM recon_update ups s =
      Some (handle_errors (lost_errors (pools_of (registry s)) ups) (s\<lparr>registry := r'\<rparr>))"
    "registry_wf r'" "pools_of r' = (\<lambda>k. map_option (apply_updates ups k) (pools_of (registry s) k))"
    using recon_update_fold [OF I(1) assms(2)] by blast
  let ?t = "handle_errors (lost_errors (pools_of (registry s)) ups) (s\<lparr>registry := r'\<rparr>)"
  have "errors_counted (s\<lparr>registry := r'\<rparr>)" using I(4) by (simp add: errors_counted_def)
  then have t: "registry_wf (registry ?t)" "distinct (pendingInit ?t)" "errors_counted ?t"
    using r'(2) I(3) by simp_all
  show ?thesis
  proof (rule updateCachedView_inv [OF t], goal_cases)
    case (1 s')
    have "recon_apply ups s = Some s'" using r'(1) 1(1) Cons by (simp add: recon_apply_def)
    then show ?case by (rule that) (use 1 r'(3) in simp_all)
  qed
qed

text \<open>What the resolve phase hands to the comparison, for the views of a state with the invariant.\<close>

definition resolved_of :: "('w, 'c) Deps \<Rightarrow> 'w \<Rightarrow> PoolView list \<Rightarrow> Resolved" where
  "resolved_of D w vs = \<lparr>rs_addrs = map (addr_of D w) (filter (resolvable D w) vs),
     rs_ids = map ID (filter (resolvable D w) vs), rs_prev = view_map (filter (resolvable D w) vs)\<rparr>"

lemma View_complete: "state_inv s \<Longrightarrow> v \<in> set (View s) \<Longrightarrow> row_complete v"
  using reg.view_ids(4) [OF state_invD(1,2)] by blast

lemma View_view_map:
  "state_inv s \<Longrightarrow> view_map (View s) k = Some v \<longleftrightarrow> v \<in> set (View s) \<and> ID v = k"
  by (rule view_map_distinct [OF View_pools(2)])

lemma resolved_prev:
  assumes "state_inv s" and "v \<in> set (View s)" and "resolvable D w v"
  shows "read_view (view_map (filter (resolvable D w) (View s))) (ID v) = v"
proof -
  have "distinct (map ID (filter (resolvable D w) (View s)))"
    using View_pools(2) [OF assms(1)] by (rule distinct_map_filter)
  then have "view_map (filter (resolvable D w) (View s)) (ID v) = Some v"
    using assms(2,3) by (simp add: view_map_distinct)
  then show ?thesis by (simp add: read_view_def)
qed

lemma recon_compare_eq:
  assumes "state_inv s0" and "state_inv s"
    and "reserves_answer_ok (length (filter (resolvable D w) (View s0))) fresh"
  shows "recon_compare (resolved_of D w (View s0)) fresh s =
    Some (handle_errors (concat (map (fetch_error (resolved_of D w (View s0)) fresh)
            [0..<length (filter (resolvable D w) (View s0))])) s,
          concat (map (wanted_update (resolved_of D w (View s0)) fresh (view_map (View s)))
            [0..<length (filter (resolvable D w) (View s0))]))"
proof -
  let ?a = "resolved_of D w (View s0)"
  have prev: "row_complete (read_view (rs_prev ?a) k)" if k: "k \<in> set (rs_ids ?a)" for k
  proof -
    obtain v where "v \<in> set (View s0)" "resolvable D w v" "ID v = k"
      using k by (auto simp: resolved_of_def)
    then show ?thesis using resolved_prev [OF assms(1)] View_complete [OF assms(1)]
      by (metis Resolved.select_convs(3) resolved_of_def)
  qed
  have cur: "row_complete c" if "view_map (View s) k = Some c" for k c
    using that View_complete [OF assms(2)] View_view_map [OF assms(2)] by blast
  have n: "length (rs_addrs ?a) = length (filter (resolvable D w) (View s0))"
    "length (rs_ids ?a) = length (rs_addrs ?a)" by (simp_all add: resolved_of_def)
  show ?thesis
    unfolding recon_compare_def
    using compare_loop_from [of ?a fresh "view_map (View s)" 0 s "[]"] assms(3) prev cur n by simp
qed

lemma wanted_update_resolved:
  assumes "state_inv s0" and "state_inv s" and "i < length (filter (resolvable D w) (View s0))"
    and "v = filter (resolvable D w) (View s0) ! i"
  shows "set (wanted_update (resolved_of D w (View s0)) (f0s, f1s, es) (view_map (View s)) i) =
    {u. es ! i = None \<and> u = \<lparr>pu_id = ID v, pu_reserve0 = f0s ! i, pu_reserve1 = f1s ! i\<rparr> \<and>
       (\<exists>c \<in> set (View s). ID c = ID v \<and> Reserve0 c = Reserve0 v \<and> Reserve1 c = Reserve1 v \<and>
          (Reserve0 c, Reserve1 c) \<noteq> (f0s ! i, f1s ! i))}"
proof -
  have "v \<in> set (filter (resolvable D w) (View s0))" unfolding assms(4) by (rule nth_mem [OF assms(3)])
  then have prev: "read_view (view_map (filter (resolvable D w) (View s0))) (ID v) = v"
    using resolved_prev [OF assms(1), of v D w] by simp
  have k: "rs_ids (resolved_of D w (View s0)) ! i = ID v"
    using assms(3,4) by (simp add: resolved_of_def)
  show ?thesis
  proof (cases "view_map (View s) (ID v)")
    case None
    then have "\<not> (\<exists>c \<in> set (View s). ID c = ID v)"
      using View_view_map [OF assms(2), of "ID v"] by fastforce
    with None k show ?thesis by (auto simp: wanted_update_def Let_def)
  next
    case (Some c)
    then have c: "x \<in> set (View s) \<and> ID x = ID v \<longleftrightarrow> x = c" for x
      using View_view_map [OF assms(2), of "ID v"] by (metis option.inject)
    let ?f = "(f0s ! i, f1s ! i)"
    have ex: "(\<exists>x \<in> set (View s). ID x = ID v \<and> P x) \<longleftrightarrow> P c" for P
    proof -
      have "(\<exists>x \<in> set (View s). ID x = ID v \<and> P x) \<longleftrightarrow>
          (\<exists>x. (x \<in> set (View s) \<and> ID x = ID v) \<and> P x)" by blast
      then show ?thesis unfolding c by simp
    qed
    have "rs_prev (resolved_of D w (View s0)) = view_map (filter (resolvable D w) (View s0))"
      by (simp add: resolved_of_def)
    then have "wanted_update (resolved_of D w (View s0)) (f0s, f1s, es) (view_map (View s)) i =
        (if es ! i = None \<and> (Reserve0 v, Reserve1 v) = (Reserve0 c, Reserve1 c) \<and>
            (Reserve0 c, Reserve1 c) \<noteq> ?f
         then [\<lparr>pu_id = ID v, pu_reserve0 = f0s ! i, pu_reserve1 = f1s ! i\<rparr>] else [])"
      unfolding wanted_update_def Let_def k prev Some by (simp only: k prev Some option.case fst_conv snd_conv)
    then show ?thesis unfolding ex by auto
  qed
qed

lemma apply_updates_other: "k \<notin> pu_id ` set ups \<Longrightarrow> apply_updates ups k v = v"
  by (induction ups arbitrary: v) (auto simp: apply_updates_def)

lemma apply_updates_same:
  assumes "distinct (map pu_id ups)" and "u \<in> set ups"
  shows "apply_updates ups (pu_id u) v = with_reserves (the (pu_reserve0 u)) (the (pu_reserve1 u)) v"
  using assms
proof (induction ups arbitrary: v)
  case Nil
  then show ?case by simp
next
  case (Cons x ups)
  show ?case
  proof (cases "u = x")
    case True
    with Cons.prems(1) have "pu_id u \<notin> pu_id ` set ups" by auto
    with True show ?thesis
      using apply_updates_other [of "pu_id u" ups] by (simp add: apply_updates_def)
  next
    case False
    with Cons.prems have "u \<in> set ups" "pu_id x \<noteq> pu_id u" by force+
    with Cons show ?thesis by (simp add: apply_updates_def)
  qed
qed

lemma distinct_concat_optional:
  assumes "distinct (map g [0..<n])" and "\<And>i. i < n \<Longrightarrow> f i = [] \<or> (\<exists>x. f i = [x] \<and> h x = g i)"
  shows "distinct (map h (concat (map f [0..<n])))"
  using assms
proof (induction n)
  case 0
  then show ?case by simp
next
  case (Suc n)
  then have IH: "distinct (map h (concat (map f [0..<n])))" by simp
  have sub: "set (map h (concat (map f [0..<n]))) \<subseteq> g ` {0..<n}"
  proof
    fix y assume "y \<in> set (map h (concat (map f [0..<n])))"
    then obtain i x where "i < n" "x \<in> set (f i)" "y = h x" by auto
    with Suc.prems(2) [of i] show "y \<in> g ` {0..<n}" by auto
  qed
  have "g n \<notin> g ` {0..<n}" using Suc.prems(1) by simp
  with sub have new: "g n \<notin> set (map h (concat (map f [0..<n])))" by blast
  have "map h (concat (map f [0..<Suc n])) = map h (concat (map f [0..<n])) \<or>
      map h (concat (map f [0..<Suc n])) = map h (concat (map f [0..<n])) @ [g n]"
    using Suc.prems(2) [of n] by auto
  with IH new show ?case by (metis distinct_append distinct_singleton disjoint_insert(1)
      empty_set inf_bot_right list.simps(15))
qed

section \<open>An undisturbed run\<close>

text \<open>What the comparison hands to the section under the lock.\<close>

lemma recon_compare_spec:
  fixes D :: "('w, 'c) Deps"
  assumes "state_inv s0" and "state_inv s"
    and "reserves_answer_ok (length (filter (resolvable D w) (View s0))) (f0s, f1s, es)"
    and "vs = filter (resolvable D w) (View s0)"
  obtains errs ups where
    "recon_compare (resolved_of D w (View s0)) (f0s, f1s, es) s = Some (handle_errors errs s, ups)"
    "list_all update_complete ups" "distinct (map pu_id ups)"
    "set ups = {u. \<exists>i < length vs. es ! i = None \<and>
       u = \<lparr>pu_id = ID (vs ! i), pu_reserve0 = f0s ! i, pu_reserve1 = f1s ! i\<rparr> \<and>
       (\<exists>c \<in> set (View s). ID c = ID (vs ! i) \<and> Reserve0 c = Reserve0 (vs ! i) \<and>
          Reserve1 c = Reserve1 (vs ! i) \<and> (Reserve0 c, Reserve1 c) \<noteq> (f0s ! i, f1s ! i))}"
    "errs = concat (map (fetch_error (resolved_of D w (View s0)) (f0s, f1s, es)) [0..<length vs])"
proof -
  let ?a = "resolved_of D w (View s0)"
  let ?g = "wanted_update ?a (f0s, f1s, es) (view_map (View s))"
  let ?ups = "concat (map ?g [0..<length vs])"
  have g: "set (?g i) = {u. es ! i = None \<and>
      u = \<lparr>pu_id = ID (vs ! i), pu_reserve0 = f0s ! i, pu_reserve1 = f1s ! i\<rparr> \<and>
      (\<exists>c \<in> set (View s). ID c = ID (vs ! i) \<and> Reserve0 c = Reserve0 (vs ! i) \<and>
         Reserve1 c = Reserve1 (vs ! i) \<and> (Reserve0 c, Reserve1 c) \<noteq> (f0s ! i, f1s ! i))}"
    if "i < length vs" for i
    using wanted_update_resolved [OF assms(1,2), of i D w] that by (simp add: assms(4))
  have ok: "f0s ! i \<noteq> None \<and> f1s ! i \<noteq> None" if "i < length vs" "es ! i = None" for i
    using assms(3) that by (simp add: reserves_answer_ok_def assms(4))
  have ids: "rs_ids ?a = map ID vs" by (simp add: resolved_of_def assms(4))
  have one: "?g i = [] \<or> (\<exists>x. ?g i = [x] \<and> pu_id x = map ID vs ! i)" for i
    unfolding wanted_update_def Let_def ids by (auto split: option.split)
  have "distinct (map ID vs)"
    unfolding assms(4) using View_pools(2) [OF assms(1)] by (rule distinct_map_filter)
  then have "distinct (map (\<lambda>i. map ID vs ! i) [0..<length vs])"
    using map_nth [of "map ID vs"] by simp
  then have d: "distinct (map pu_id ?ups)"
    by (rule distinct_concat_optional) (rule one)
  have set: "set ?ups = {u. \<exists>i < length vs. u \<in> set (?g i)}" by auto
  show ?thesis
  proof (rule that [OF _ _ d _ refl])
    show "recon_compare ?a (f0s, f1s, es) s =
        Some (handle_errors (concat (map (fetch_error ?a (f0s, f1s, es)) [0..<length vs])) s, ?ups)"
      unfolding assms(4) by (rule recon_compare_eq [OF assms(1-3)])
    show "list_all update_complete ?ups"
      unfolding list_all_iff set using g ok by (auto simp: update_complete_def)
    show "set ?ups = {u. \<exists>i < length vs. es ! i = None \<and>
       u = \<lparr>pu_id = ID (vs ! i), pu_reserve0 = f0s ! i, pu_reserve1 = f1s ! i\<rparr> \<and>
       (\<exists>c \<in> set (View s). ID c = ID (vs ! i) \<and> Reserve0 c = Reserve0 (vs ! i) \<and>
          Reserve1 c = Reserve1 (vs ! i) \<and> (Reserve0 c, Reserve1 c) \<noteq> (f0s ! i, f1s ! i))}"
      unfolding set using g by blast
  qed
qed

lemma recon_resolve_resolved:
  "recon_resolve D w vs s =
    (handle_errors (unresolved_errors D w ''reconciler could not get address: '' vs) s, resolved_of D w vs)"
  by (simp add: recon_resolve_eq resolved_of_def)

text \<open>The section under the lock, seen in the view.\<close>

lemma recon_apply_view:
  assumes "state_inv s" and "list_all update_complete ups" and "distinct (map pu_id ups)"
  obtains s' where "recon_apply ups s = Some s'" "state_inv s'"
    "ID ` set (View s') = ID ` set (View s)"
    "\<And>v u. v \<in> set (View s) \<Longrightarrow> u \<in> set ups \<Longrightarrow> pu_id u = ID v \<Longrightarrow>
       v\<lparr>Reserve0 := pu_reserve0 u, Reserve1 := pu_reserve1 u\<rparr> \<in> set (View s')"
    "\<And>v. v \<in> set (View s) \<Longrightarrow> ID v \<notin> pu_id ` set ups \<Longrightarrow> v \<in> set (View s')"
    "handled s' = handled s @ lost_errors (pools_of (registry s)) ups"
    "pendingInit s' = pendingInit s" "lastUpdatedAtBlock s' = lastUpdatedAtBlock s"
proof -
  obtain s' where A: "recon_apply ups s = Some s'" "state_inv s'"
    "pools_of (registry s') = (\<lambda>k. map_option (apply_updates ups k) (pools_of (registry s) k))"
    "handled s' = handled s @ lost_errors (pools_of (registry s)) ups"
    "pendingInit s' = pendingInit s" "lastUpdatedAtBlock s' = lastUpdatedAtBlock s"
    by (rule recon_apply_spec [OF assms(1,2)])
  show ?thesis
  proof (rule that [OF A(1,2) _ _ _ A(4-6)])
    show "ID ` set (View s') = ID ` set (View s)"
      unfolding View_pools(3) [OF A(2)] View_pools(3) [OF assms(1)] A(3) by (auto simp: dom_def)
    show "v\<lparr>Reserve0 := pu_reserve0 u, Reserve1 := pu_reserve1 u\<rparr> \<in> set (View s')"
      if "v \<in> set (View s)" "u \<in> set ups" "pu_id u = ID v" for v u
    proof -
      have "update_complete u" using assms(2) that(2) by (simp add: list_all_iff)
      then have "with_reserves (the (pu_reserve0 u)) (the (pu_reserve1 u)) v =
          v\<lparr>Reserve0 := pu_reserve0 u, Reserve1 := pu_reserve1 u\<rparr>"
        by (auto simp: update_complete_def with_reserves_def)
      with that apply_updates_same [OF assms(3) that(2)] show ?thesis
        unfolding View_pools(1) [OF A(2)] View_pools(1) [OF assms(1)] A(3) by simp
    qed
    show "v \<in> set (View s')" if "v \<in> set (View s)" "ID v \<notin> pu_id ` set ups" for v
      using that apply_updates_other [OF that(2)]
      unfolding View_pools(1) [OF A(2)] View_pools(1) [OF assms(1)] A(3) by simp
  qed
qed

text \<open>Without interference, the updates the comparison asks for are exactly the drift.\<close>

text \<open>The rows sent to the reserves reader are distinct pools of the view, named by their IDs.\<close>

lemma view_ID_inj:
  assumes "state_inv s" and "v \<in> set (View s)" "v' \<in> set (View s)" "ID v = ID v'"
  shows "v = v'"
  using assms(2-) View_pools(1) [OF assms(1)] by (metis option.inject)

lemma resolvable_rows:
  assumes inv: "state_inv s" and vs_def: "vs = filter (resolvable D w) (View s)" and i: "i < length vs"
  shows "vs ! i \<in> set (View s)" and "resolvable D w (vs ! i)"
    and "j < length vs \<Longrightarrow> ID (vs ! i) = ID (vs ! j) \<Longrightarrow> i = j"
proof -
  have "vs ! i \<in> set (filter (resolvable D w) (View s))"
    unfolding vs_def [symmetric] by (rule nth_mem [OF i])
  then show "vs ! i \<in> set (View s)" "resolvable D w (vs ! i)" by simp_all
  have "distinct (map ID vs)"
    unfolding vs_def using View_pools(2) [OF inv] by (simp add: distinct_map_filter)
  then show "i = j" if "j < length vs" "ID (vs ! i) = ID (vs ! j)"
    using that i by (metis length_map nth_eq_iff_index_eq nth_map)
qed

lemma drift_corrected:
  assumes inv: "state_inv s" and vs_def: "vs = filter (resolvable D w) (View s)"
    and ups: "set ups = {u. \<exists>i < length vs. es ! i = None \<and>
       u = \<lparr>pu_id = ID (vs ! i), pu_reserve0 = f0s ! i, pu_reserve1 = f1s ! i\<rparr> \<and>
       (\<exists>c \<in> set (View s). ID c = ID (vs ! i) \<and> Reserve0 c = Reserve0 (vs ! i) \<and>
          Reserve1 c = Reserve1 (vs ! i) \<and> (Reserve0 c, Reserve1 c) \<noteq> (f0s ! i, f1s ! i))}"
    and hit': "\<forall>v \<in> set (View s). \<forall>u \<in> set ups. pu_id u = ID v \<longrightarrow>
       v\<lparr>Reserve0 := pu_reserve0 u, Reserve1 := pu_reserve1 u\<rparr> \<in> View'"
    and miss': "\<forall>v \<in> set (View s). ID v \<notin> pu_id ` set ups \<longrightarrow> v \<in> View'"
  shows "v \<in> set (View s) \<Longrightarrow> \<not> resolvable D w v \<Longrightarrow> v \<in> View'"
    and "i < length vs \<Longrightarrow> (if es ! i = None then (vs ! i)\<lparr>Reserve0 := f0s ! i, Reserve1 := f1s ! i\<rparr>
       else vs ! i) \<in> View'"
    and "lost_errors (pools_of (registry s)) ups = []"
proof -
  note hit = hit' [rule_format] and miss = miss' [rule_format]
  note rows = resolvable_rows [OF inv vs_def]
  note vs = rows(1,2) and dist = rows(3) and inj = view_ID_inj [OF inv]
  show "v \<in> View'" if "v \<in> set (View s)" "\<not> resolvable D w v"
  proof (rule miss [OF that(1)])
    show "ID v \<notin> pu_id ` set ups"
      using that vs inj unfolding ups by fastforce
  qed
  show "(if es ! i = None then (vs ! i)\<lparr>Reserve0 := f0s ! i, Reserve1 := f1s ! i\<rparr>
      else vs ! i) \<in> View'" if i: "i < length vs"
  proof (cases "\<lparr>pu_id = ID (vs ! i), pu_reserve0 = f0s ! i, pu_reserve1 = f1s ! i\<rparr> \<in> set ups \<and> es ! i = None")
    case True
    with hit [OF vs(1) [OF i], of "\<lparr>pu_id = ID (vs ! i), pu_reserve0 = f0s ! i, pu_reserve1 = f1s ! i\<rparr>"]
    show ?thesis by simp
  next
    case no: False
    have "ID (vs ! i) \<notin> pu_id ` set ups"
    proof
      assume "ID (vs ! i) \<in> pu_id ` set ups"
      then obtain u where u: "u \<in> set ups" "pu_id u = ID (vs ! i)" by auto
      then obtain j where j: "j < length vs" "es ! j = None"
        "u = \<lparr>pu_id = ID (vs ! j), pu_reserve0 = f0s ! j, pu_reserve1 = f1s ! j\<rparr>"
        unfolding ups by blast
      with u(2) have "j = i" by (intro dist [OF j(1) i]) simp
      with j u(1) no show False by blast
    qed
    then have mem: "vs ! i \<in> View'" by (rule miss [OF vs(1) [OF i]])
    have "(vs ! i)\<lparr>Reserve0 := f0s ! i, Reserve1 := f1s ! i\<rparr> = vs ! i" if "es ! i = None"
    proof -
      from no that i vs(1) [OF i] have "(Reserve0 (vs ! i), Reserve1 (vs ! i)) = (f0s ! i, f1s ! i)"
        unfolding ups by auto
      then show ?thesis by simp
    qed
    with mem show ?thesis by simp
  qed
  have "pools_of (registry s) (pu_id u) \<noteq> None" if "u \<in> set ups" for u
    using that vs(1) View_pools(1) [OF inv] unfolding ups by fastforce
  then show "lost_errors (pools_of (registry s)) ups = []"
    by (simp add: lost_errors_def filter_empty_conv)
qed

lemma length_fetch_errors:
  "length (concat (map (fetch_error a (f0s, f1s, es)) is)) = length (filter (\<lambda>i. es ! i \<noteq> None) is)"
  by (induction "is") (auto simp: fetch_error_def split: option.split)

text \<open>The comparison and the section under the lock in one go, nothing having happened in between.\<close>

lemma recon_undisturbed:
  assumes "state_inv s" and "vs = filter (resolvable D w) (View s)"
    and "reserves_answer_ok (length vs) (f0s, f1s, es)"
  obtains s' s2 errs ups where
    "recon_compare (resolved_of D w (View s)) (f0s, f1s, es) s = Some (s2, ups)"
    "recon_apply ups s2 = Some s'" "state_inv s'" "ID ` set (View s') = ID ` set (View s)"
    "\<And>v. v \<in> set (View s) \<Longrightarrow> \<not> resolvable D w v \<Longrightarrow> v \<in> set (View s')"
    "\<And>i. i < length vs \<Longrightarrow> (if es ! i = None then (vs ! i)\<lparr>Reserve0 := f0s ! i, Reserve1 := f1s ! i\<rparr>
        else vs ! i) \<in> set (View s')"
    "handled s' = handled s @ errs" "length errs = length (filter (\<lambda>i. es ! i \<noteq> None) [0..<length vs])"
    "pendingInit s' = pendingInit s" "lastUpdatedAtBlock s' = lastUpdatedAtBlock s"
proof -
  let ?a = "resolved_of D w (View s)"
  obtain errs ups where C: "recon_compare ?a (f0s, f1s, es) s = Some (handle_errors errs s, ups)"
    "list_all update_complete ups" "distinct (map pu_id ups)"
    "set ups = {u. \<exists>i < length vs. es ! i = None \<and>
       u = \<lparr>pu_id = ID (vs ! i), pu_reserve0 = f0s ! i, pu_reserve1 = f1s ! i\<rparr> \<and>
       (\<exists>c \<in> set (View s). ID c = ID (vs ! i) \<and> Reserve0 c = Reserve0 (vs ! i) \<and>
          Reserve1 c = Reserve1 (vs ! i) \<and> (Reserve0 c, Reserve1 c) \<noteq> (f0s ! i, f1s ! i))}"
    "errs = concat (map (fetch_error ?a (f0s, f1s, es)) [0..<length vs])"
    by (rule recon_compare_spec [OF assms(1,1) assms(3) [unfolded assms(2)] assms(2)])
  let ?s2 = "handle_errors errs s"
  have s2: "state_inv ?s2" "View ?s2 = View s" using assms(1) by simp_all
  obtain s' where A: "recon_apply ups ?s2 = Some s'" "state_inv s'"
    "ID ` set (View s') = ID ` set (View s)"
    "\<And>v u. v \<in> set (View s) \<Longrightarrow> u \<in> set ups \<Longrightarrow> pu_id u = ID v \<Longrightarrow>
       v\<lparr>Reserve0 := pu_reserve0 u, Reserve1 := pu_reserve1 u\<rparr> \<in> set (View s')"
    "\<And>v. v \<in> set (View s) \<Longrightarrow> ID v \<notin> pu_id ` set ups \<Longrightarrow> v \<in> set (View s')"
    "handled s' = handled ?s2 @ lost_errors (pools_of (registry ?s2)) ups"
    "pendingInit s' = pendingInit s" "lastUpdatedAtBlock s' = lastUpdatedAtBlock s"
    using recon_apply_view [OF s2(1) C(2,3)] s2(2) by (metis handle_errors_simps(3,4))
  have hit: "\<forall>v \<in> set (View s). \<forall>u \<in> set ups. pu_id u = ID v \<longrightarrow>
      v\<lparr>Reserve0 := pu_reserve0 u, Reserve1 := pu_reserve1 u\<rparr> \<in> set (View s')"
    and miss: "\<forall>v \<in> set (View s). ID v \<notin> pu_id ` set ups \<longrightarrow> v \<in> set (View s')"
    using A(4,5) by blast+
  note drift = drift_corrected [where View' = "set (View s')", OF assms(1,2) C(4) hit miss]
  have h: "handled s' = handled s @ errs" using A(6) drift(3) by simp
  have n: "length errs = length (filter (\<lambda>i. es ! i \<noteq> None) [0..<length vs])"
    unfolding C(5) by (rule length_fetch_errors)
  show ?thesis
    by (rule that [OF C(1) A(1-3) _ _ h n A(7,8)]) (rule drift(1), assumption+, rule drift(2))
qed

text \<open>
  C7. A reconciler run that nothing interferes with corrects the drift and nothing else. With
  well-shaped dependencies it never panics and keeps the invariant, the queue, the block number
  and the set of tracked pools. If there are pools and a client, every pool whose address the
  persistence layer knows and whose fetch succeeded has exactly the fetched reserves afterwards,
  and every other pool, whose ID has no address or whose fetch failed, is unchanged; the errors
  reported are one per pool without an address, then one per failed fetch.
\<close>

theorem reconciliation_corrects_drift:
  assumes "chain_deps D" and "state_inv s"
    and "vs = filter (resolvable D w) (View s)"
  shows "\<exists>s'. runStateReconciliation D w s = Some s' \<and> state_inv s' \<and>
    pendingInit s' = pendingInit s \<and> LastUpdatedAtBlock s' = LastUpdatedAtBlock s \<and>
    ID ` set (View s') = ID ` set (View s) \<and>
    (if View s = [] then s' = s
     else case getClient D w of
       Inl err \<Rightarrow> registry s' = registry s \<and>
         handled s' = handled s @ [Errorf [Lit ''reconciler: failed to get eth client: ''] err]
     | Inr c \<Rightarrow> (case getReserves D w (map (addr_of D w) vs) c of (f0s, f1s, es) \<Rightarrow>
         (\<forall>v \<in> set (View s). \<not> resolvable D w v \<longrightarrow> v \<in> set (View s')) \<and>
         (\<forall>i < length vs. (if es ! i = None then (vs ! i)\<lparr>Reserve0 := f0s ! i, Reserve1 := f1s ! i\<rparr>
            else vs ! i) \<in> set (View s')) \<and>
         (\<exists>errs. handled s' = handled s @
            unresolved_errors D w ''reconciler could not get address: '' (View s) @ errs \<and>
            length errs = length (filter (\<lambda>i. es ! i \<noteq> None) [0..<length vs]))))"
proof (cases "View s = []")
  case True
  then show ?thesis using assms(2) by (simp add: runStateReconciliation_def LastUpdatedAtBlock_def)
next
  case False
  show ?thesis
  proof (cases "getClient D w")
    case (Inl err)
    with False assms(2) show ?thesis
      by (simp add: runStateReconciliation_def recon_no_client_def LastUpdatedAtBlock_def Let_def)
  next
    case (Inr c)
    obtain f0s f1s es where f: "getReserves D w (map (addr_of D w) vs) c = (f0s, f1s, es)"
      by (metis prod_cases3)
    let ?s1 = "handle_errors (unresolved_errors D w ''reconciler could not get address: '' (View s)) s"
    have ok: "reserves_answer_ok (length vs) (f0s, f1s, es)"
      using chain_deps.reserves_shape [OF assms(1), of "map (addr_of D w) vs" w c] f by simp
    have s1: "state_inv ?s1" "vs = filter (resolvable D w) (View ?s1)" using assms(2,3) by simp_all
    show ?thesis
    proof (rule recon_undisturbed [OF s1 ok], goal_cases)
      case (1 s' s2 errs ups)
      then have "runStateReconciliation D w s = Some s'"
        using False Inr f
        by (simp add: runStateReconciliation_def Let_def recon_resolve_resolved resolved_of_def assms(3))
      then show ?case
        unfolding if_not_P [OF False] Inr sum.case f prod.case
        by (intro exI [of _ s'] conjI ballI allI impI)
          (use 1 in \<open>simp_all add: LastUpdatedAtBlock_def\<close>)
    qed
  qed
qed

lemma example_pool_resolves:
  "resolvable (wired u) registered_world example_pool" "addr_of (wired u) registered_world example_pool = 7"
  by (simp_all add: resolvable_def addr_of_def registered_world_def example_world_def
      mock_PoolIDToAddress_def example_pool_def)

lemma example_fetch:
  "getReserves (wired (example_setup 1)) registered_world [7] () = ([Some 8], [Some 9], [None])"
  by (simp add: GetReserves_def reserve_slots_def reserves_worker_cases getReservesForPool_def
      registered_world_def example_world_def example_call_def example_setup_def example_sigs_def
      SetBytes_be_bytes del: be_bytes.simps)

theorem reconciliation_corrects_drift_witness:
  "\<exists>s'. runStateReconciliation (wired (example_setup 1)) registered_world tracking_state = Some s' \<and>
    example_pool\<lparr>Reserve0 := Some 8, Reserve1 := Some 9\<rparr> \<in> set (View s')"
proof -
  have "getClient (wired (example_setup 1)) registered_world = Inr ()"
    by (simp add: registered_world_def example_world_def)
  then show ?thesis
    using reconciliation_corrects_drift [OF wired.chain_deps_axioms tracking_state_inv refl,
        of "example_setup 1" registered_world]
    by (auto simp: example_pool_resolves example_fetch [simplified])
qed

section \<open>Interference\<close>

text \<open>
  C32. The idle check does not keep the reconciler from overwriting newer data. The comparison
  runs before the lock is taken, so a block can be processed in between: whatever state with the
  invariant the section under the lock then finds, every update the comparison asked for is
  applied, and the pool has the reserves fetched earlier, not those of the block.
\<close>

theorem reconciler_can_overwrite_newer_reserves:
  assumes "state_inv s0" and "state_inv s1" and "state_inv s2"
    and "reserves_answer_ok (length (rs_addrs (snd (recon_resolve D w (View s0) s0)))) fresh"
    and "recon_compare (snd (recon_resolve D w (View s0) s0)) fresh s1 = Some (t, ups)"
    and "u \<in> set ups" and "v \<in> set (View s2)" and "ID v = pu_id u"
  shows "\<exists>s3. recon_apply ups s2 = Some s3 \<and>
    v\<lparr>Reserve0 := pu_reserve0 u, Reserve1 := pu_reserve1 u\<rparr> \<in> set (View s3)"
proof -
  obtain f0s f1s es where f: "fresh = (f0s, f1s, es)" by (metis prod_cases3)
  have ok: "reserves_answer_ok (length (filter (resolvable D w) (View s0))) (f0s, f1s, es)"
    using assms(4) by (simp add: recon_resolve_resolved resolved_of_def f)
  obtain errs ups' where "recon_compare (resolved_of D w (View s0)) (f0s, f1s, es) s1 =
      Some (handle_errors errs s1, ups')"
    "list_all update_complete ups'" "distinct (map pu_id ups')"
    by (rule recon_compare_spec [OF assms(1,2) ok refl])
  with assms(5) have "list_all update_complete ups" "distinct (map pu_id ups)"
    by (simp_all add: recon_resolve_resolved f)
  then show ?thesis
    using recon_apply_view [OF assms(3)] assms(6-8) by metis
qed

theorem reconciler_can_overwrite_newer_reserves_witness:
  "\<exists>a t ups s2 s3. a = snd (recon_resolve (wired (example_setup 1)) registered_world
      (View tracking_state) tracking_state) \<and>
    recon_compare a ([Some 8], [Some 9], [None]) tracking_state = Some (t, ups) \<and>
    handleNewBlock (wired (example_setup 1)) (example_env [swap_log 7, sync_log 7 40 50])
      registered_world example_block tracking_state = Some (s2, None) \<and>
    example_pool\<lparr>Reserve0 := Some 40, Reserve1 := Some 50\<rparr> \<in> set (View s2) \<and>
    recon_apply ups s2 = Some s3 \<and>
    example_pool\<lparr>Reserve0 := Some 8, Reserve1 := Some 9\<rparr> \<in> set (View s3)"
proof -
  let ?D = "wired (example_setup 1)" and ?w = registered_world and ?s = tracking_state
  let ?a = "snd (recon_resolve ?D ?w (View ?s) ?s)" and ?f = "([Some 8], [Some 9], [None])"
  have n: "length (rs_addrs ?a) = 1"
    by (simp add: recon_resolve_resolved resolved_of_def example_pool_resolves)
  have ok: "reserves_answer_ok 1 ?f" by (simp add: reserves_answer_ok_def)
  obtain errs ups where c: "recon_compare (resolved_of ?D ?w (View ?s)) ?f ?s = Some (handle_errors errs ?s, ups)"
    "set ups = {u. \<exists>i < length (filter (resolvable ?D ?w) (View ?s)). [None] ! i = (None :: go_error option) \<and>
       u = \<lparr>pu_id = ID (filter (resolvable ?D ?w) (View ?s) ! i), pu_reserve0 = [Some 8] ! i,
            pu_reserve1 = [Some 9] ! i\<rparr> \<and>
       (\<exists>c \<in> set (View ?s). ID c = ID (filter (resolvable ?D ?w) (View ?s) ! i) \<and>
          Reserve0 c = Reserve0 (filter (resolvable ?D ?w) (View ?s) ! i) \<and>
          Reserve1 c = Reserve1 (filter (resolvable ?D ?w) (View ?s) ! i) \<and>
          (Reserve0 c, Reserve1 c) \<noteq> ([Some 8] ! i, [Some 9] ! i))}"
    by (rule recon_compare_spec [OF tracking_state_inv tracking_state_inv _ refl, of ?D ?w "[Some 8]"
        "[Some 9]" "[None]"]) (use ok in \<open>simp_all add: example_pool_resolves\<close>)
  let ?u = "\<lparr>pu_id = 1001, pu_reserve0 = Some 8, pu_reserve1 = Some 9\<rparr>"
  have u: "?u \<in> set ups" unfolding c(2) by (simp add: example_pool_resolves) (simp add: example_pool_def)
  obtain s2 where s2: "handleNewBlock ?D (example_env [swap_log 7, sync_log 7 40 50]) ?w example_block ?s =
      Some (s2, None)" "state_inv s2"
    "example_pool\<lparr>Reserve0 := Some 40, Reserve1 := Some 50\<rparr> \<in> set (View s2)"
    by (rule example_block_run)
  have c': "recon_compare ?a ?f ?s = Some (handle_errors errs ?s, ups)"
    using c(1) by (simp add: recon_resolve_resolved)
  from reconciler_can_overwrite_newer_reserves [OF tracking_state_inv tracking_state_inv s2(2) _ c' u s2(3)]
    n ok obtain s3 where "recon_apply ups s2 = Some s3"
    "example_pool\<lparr>Reserve0 := Some 8, Reserve1 := Some 9\<rparr> \<in> set (View s3)"
    by (auto simp: example_pool_def)
  with c' s2 show ?thesis by blast
qed

end
