(* ===== verification/Concurrency_Props.thy ===== *)
theory Concurrency_Props
  imports Concurrency Reconcile_Props
begin

text \<open>
  What holds in every reachable state of the running system, whatever the interleaving: the
  invariant of the state and of what each goroutine holds between its steps, the absence of
  panics, what a step can do to the set of tracked pools, and that every run of a goroutine ends.
\<close>

section \<open>The invariant\<close>

text \<open>What a goroutine holds at each of its program points.\<close>

fun listener_ok :: "listener_pc \<Rightarrow> bool" where
  "listener_ok (L_Apply bn d) \<longleftrightarrow> updates_ok ((bd_pools d, bd_reserve0s d, bd_reserve1s d), None)"
| "listener_ok pc \<longleftrightarrow> True"

fun init_ok :: "'c init_pc \<Rightarrow> bool" where
  "init_ok (I_Apply ps res) \<longleftrightarrow> init_answer_ok (length ps) res"
| "init_ok pc \<longleftrightarrow> True"

definition was_view :: "PoolView list \<Rightarrow> bool" where
  "was_view vs \<longleftrightarrow> (\<exists>s. state_inv s \<and> View s = vs)"

definition was_resolved :: "('w, 'c) Deps \<Rightarrow> Resolved \<Rightarrow> bool" where
  "was_resolved D a \<longleftrightarrow> (\<exists>vs w. was_view vs \<and> a = resolved_of D w vs)"

fun recon_ok :: "('w, 'c) Deps \<Rightarrow> 'c recon_pc \<Rightarrow> bool" where
  "recon_ok D (R_Client vs) \<longleftrightarrow> was_view vs"
| "recon_ok D (R_Resolve vs c) \<longleftrightarrow> was_view vs"
| "recon_ok D (R_Fetch a c) \<longleftrightarrow> was_resolved D a"
| "recon_ok D (R_Compare a fresh) \<longleftrightarrow> was_resolved D a \<and> reserves_answer_ok (length (rs_addrs a)) fresh"
| "recon_ok D (R_Apply ups) \<longleftrightarrow> list_all update_complete ups \<and> distinct (map pu_id ups)"
| "recon_ok D pc \<longleftrightarrow> True"

fun prune_ok :: "prune_pc \<Rightarrow> bool" where
  "prune_ok (P_Report ks errs) \<longleftrightarrow> length errs \<le> length ks"
| "prune_ok pc \<longleftrightarrow> True"

definition conf_inv :: "('w, 'c) Deps \<Rightarrow> ('w, 'c) Conf \<Rightarrow> bool" where
  "conf_inv D c \<longleftrightarrow> state_inv (sys c) \<and> listener_ok (listener c) \<and> init_ok (initializer c) \<and>
     recon_ok D (reconciler c) \<and> prune_ok (pruner c)"

text \<open>The phases that touch only metrics, the queue or the error handler.\<close>

lemma small_phases_inv [simp]:
  "state_inv s \<Longrightarrow> state_inv (block_skip b s)" "state_inv s \<Longrightarrow> state_inv (block_finish bn n errs s)"
  "state_inv s \<Longrightarrow> state_inv (fst (drain_pending ord s))" "state_inv s \<Longrightarrow> state_inv (reset_gauge s)"
  "state_inv s \<Longrightarrow> state_inv (init_no_client err s)" "state_inv s \<Longrightarrow> state_inv (init_finish m errs s)"
  "state_inv s \<Longrightarrow> state_inv (recon_no_client err s)"
  by (simp_all add: block_skip_def block_finish_def drain_pending_def reset_gauge_def init_no_client_def
      init_finish_def recon_no_client_def Let_def state_inv_metrics)
    (simp_all add: state_inv_def errors_counted_def)

lemma small_phases_registry [simp]:
  "registry (block_skip b s) = registry s" "registry (block_finish bn n errs s) = registry s"
  "registry (fst (drain_pending ord s)) = registry s" "registry (reset_gauge s) = registry s"
  "registry (init_no_client err s) = registry s" "registry (init_finish m errs s) = registry s"
  "registry (recon_no_client err s) = registry s"
  by (simp_all add: block_skip_def block_finish_def drain_pending_def reset_gauge_def init_no_client_def
      init_finish_def recon_no_client_def Let_def)

lemma prune_errors_spec:
  assumes "i + length errs \<le> length ks" and "state_inv s"
  shows "\<exists>s'. prune_errors ks i errs s = Some s' \<and> state_inv s' \<and> registry s' = registry s"
  using assms
proof (induction ks i errs s rule: prune_errors.induct)
  case (1 ks i s)
  then show ?case by simp
next
  case (2 ks i rest s)
  then show ?case by simp
next
  case (3 ks i err rest s)
  then show ?case by simp
qed

lemma DeletePool_spec:
  assumes "state_inv s"
  obtains s' e where "DeletePool k s = Some (s', e)" "state_inv s'"
    "pools_of (registry s') = (pools_of (registry s))(k := None)"
proof -
  note I = state_invD [OF assms]
  obtain r where r: "deletePool k (registry s) =
      Some (r, if pools_of (registry s) k = None then Some ErrPoolNotFound else None)" "registry_wf r"
    "pools_of r = (pools_of (registry s))(k := None)"
    using reg.del_total [OF I(1)] by blast
  show ?thesis
  proof (cases "pools_of (registry s) k")
    case None
    with r(1) reg.del_absent [of "registry s" k] have "r = registry s" by simp
    with None r that [of "s" "Some ErrPoolNotFound"] assms show ?thesis
      by (simp add: DeletePool_def)
  next
    case (Some v)
    let ?t = "s\<lparr>registry := r\<rparr>"
    have t: "registry_wf (registry ?t)" "distinct (pendingInit ?t)" "errors_counted ?t"
      using r(2) I(3,4) by (simp_all add: errors_counted_def)
    show ?thesis
    proof (rule updateCachedView_inv [OF t], goal_cases)
      case (1 s')
      from 1(3) have "registry s' = r" by simp
      with 1(1,2) r Some show ?case by (intro that [of s' None]) (simp_all add: DeletePool_def)
    qed
  qed
qed

lemma block_fetch_inv:
  assumes "chain_deps D" and "state_inv s"
  shows "state_inv (fst (block_fetch D E w b s))" "registry (fst (block_fetch D E w b s)) = registry s"
    "case snd (block_fetch D E w b s) of Inl err \<Rightarrow> True | Inr d \<Rightarrow> listener_ok (L_Apply bn d)"
proof -
  have ok: "updates_ok ((ps, r0s, r1s), None)" if "updatedInBlock D w logs = ((ps, r0s, r1s), e)"
    for ps r0s r1s e logs
    using chain_deps.updates_shape [OF assms(1), of w logs] that by (simp add: updates_ok_def)
  have "state_inv (fst (block_fetch D E w b s)) \<and> registry (fst (block_fetch D E w b s)) = registry s \<and>
    (case snd (block_fetch D E w b s) of Inl err \<Rightarrow> True | Inr d \<Rightarrow> listener_ok (L_Apply bn d))"
    using block_fetch_cases [of D E w b s] assms(2)
    by (elim disjE exE conjE) (simp_all add: ok)
  then show "state_inv (fst (block_fetch D E w b s))" "registry (fst (block_fetch D E w b s)) = registry s"
    "case snd (block_fetch D E w b s) of Inl err \<Rightarrow> True | Inr d \<Rightarrow> listener_ok (L_Apply bn d)" by blast+
qed

section \<open>What a step does to the tracked pools\<close>

text \<open>
  The abstract system keeps a map from IDs to pools. A goroutine or a caller may change it only
  in its own way: blocks and reconciliation change reserves, the initializer adds pools, the
  pruner and the callers of the deletion methods remove some.
\<close>

definition same_static :: "PoolView \<Rightarrow> PoolView \<Rightarrow> bool" where
  "same_static v v' \<longleftrightarrow> ID v' = ID v \<and> Token0 v' = Token0 v \<and> Token1 v' = Token1 v \<and>
     Type v' = Type v \<and> FeeBps v' = FeeBps v"

fun may_change :: "actor \<Rightarrow> (u64 \<rightharpoonup> PoolView) \<Rightarrow> (u64 \<rightharpoonup> PoolView) \<Rightarrow> bool" where
  "may_change Environment m m' \<longleftrightarrow> m' = m"
| "may_change Listener m m' \<longleftrightarrow> (\<forall>k. rel_option same_static (m k) (m' k))"
| "may_change Reconciler m m' \<longleftrightarrow> (\<forall>k. rel_option same_static (m k) (m' k))"
| "may_change Initializer m m' \<longleftrightarrow> m \<subseteq>\<^sub>m m'"
| "may_change Pruner m m' \<longleftrightarrow> m' \<subseteq>\<^sub>m m"
| "may_change Caller m m' \<longleftrightarrow> m' \<subseteq>\<^sub>m m"

lemma same_static_refl [simp]: "same_static v v"
  by (simp add: same_static_def)

lemma same_static_trans: "same_static u v \<Longrightarrow> same_static v w \<Longrightarrow> same_static u w"
  by (simp add: same_static_def)

lemma same_static_with_reserves [simp]: "same_static v (with_reserves a b v)"
  by (simp add: same_static_def with_reserves_def)

lemma same_static_last_update: "same_static v (last_update addrID ps r0s r1s k v)"
  by (simp add: last_update_def split: option.split)

lemma same_static_apply_updates: "same_static v (apply_updates ups k v)"
proof (induction ups arbitrary: v)
  case Nil
  then show ?case by simp
next
  case (Cons u ups)
  then show ?case
    unfolding apply_updates_def
    by (cases "pu_id u = k") (auto intro: same_static_trans [OF same_static_with_reserves])
qed

lemma rel_option_map_option: "(\<And>v. R v (f v)) \<Longrightarrow> rel_option R x (map_option f x)"
  by (cases x) auto

lemma may_change_refl [simp]: "may_change l m m"
  by (cases l) (auto simp: option.rel_refl)

section \<open>Every step keeps the invariant\<close>

abbreviation pools_in :: "State \<Rightarrow> u64 \<rightharpoonup> PoolView" where
  "pools_in s \<equiv> pools_of (registry s)"

lemma listener_step_inv:
  assumes "listener_step D E w (s, pc) (s', pc')" and "chain_deps D" and "state_inv s" and "listener_ok pc"
  shows "state_inv s' \<and> listener_ok pc' \<and> may_change Listener (pools_in s) (pools_in s')"
  using assms(1)
proof cases
  case (fetched b d)
  then show ?thesis
    using block_fetch_inv(1,2) [OF assms(2,3), of E w b]
      block_fetch_inv(3) [OF assms(2,3), of "NumberU64 b" E w b] by (simp add: option.rel_refl)
next
  case (not_fetched b err s1)
  then show ?thesis
    using block_fetch_inv(1,2) [OF assms(2,3), of E w b] by (simp add: option.rel_refl)
next
  case (applied bn d n errs)
  with assms(4) have "updates_ok ((bd_pools d, bd_reserve0s d, bd_reserve1s d), None)" by simp
  note B = block_apply_spec [OF assms(3) this, of D w bn]
  show ?thesis
    by (rule B) (use applied in \<open>simp add: rel_option_map_option same_static_last_update\<close>)
qed (use assms(3) in \<open>simp_all add: option.rel_refl\<close>)


lemma reconciler_step_inv:
  assumes "reconciler_step D w (s, pc) (s', pc')" and "chain_deps D" and "state_inv s" and "recon_ok D pc"
  shows "state_inv s' \<and> recon_ok D pc' \<and> may_change Reconciler (pools_in s) (pools_in s')"
  using assms(1)
proof cases
  case (viewed)
  with assms(3) show ?thesis by (auto simp: was_view_def option.rel_refl)
next
  case (resolved vs a c)
  with assms(4) have "was_resolved D a" by (auto simp: was_resolved_def recon_resolve_resolved)
  with resolved assms(3) show ?thesis by (auto simp: recon_resolve_resolved option.rel_refl)
next
  case (fetched a c)
  with assms(3,4) show ?thesis
    by (simp add: chain_deps.reserves_shape [OF assms(2)] option.rel_refl)
next
  case (compared a fresh ups)
  from compared(1) assms(4) obtain s0 w0 where a: "state_inv s0" "a = resolved_of D w0 (View s0)"
    and ok: "reserves_answer_ok (length (rs_addrs a)) fresh"
    by (auto simp: was_resolved_def was_view_def)
  obtain f0s f1s es where f: "fresh = (f0s, f1s, es)" by (metis prod_cases3)
  have "reserves_answer_ok (length (filter (resolvable D w0) (View s0))) (f0s, f1s, es)"
    using ok by (simp add: a(2) f resolved_of_def)
  then show ?thesis
    by (rule recon_compare_spec [OF a(1) assms(3) _ refl])
      (use compared assms(3) in \<open>auto simp: a(2) f option.rel_refl\<close>)
next
  case (applied ups)
  then have "list_all update_complete ups" using assms(4) by simp
  note A = recon_apply_spec [OF assms(3) this]
  show ?thesis
    by (rule A) (use applied in \<open>simp add: rel_option_map_option same_static_apply_updates\<close>)
qed (use assms(3,4) in \<open>simp_all add: option.rel_refl\<close>)

lemma initializer_step_inv:
  assumes "initializer_step D (w, s, pc) (w', s', pc')" and "persistent_deps D" and "state_inv s"
    and "init_ok pc"
  shows "state_inv s' \<and> init_ok pc' \<and> may_change Initializer (pools_in s) (pools_in s')"
  using assms(1)
proof cases
  case (drained ord ps)
  then have "s' = fst (drain_pending ord s)" by simp
  with drained assms(3) show ?thesis by simp
next
  case (called ps c)
  have "chain_deps D" using assms(2) by (simp add: persistent_deps_def)
  with called assms(3) show ?thesis by (simp add: chain_deps.init_shape)
next
  case (applied ps res n errs)
  with assms(4) have "init_answer_ok (length ps) res" by simp
  note A = persistent_deps.init_apply_spec [OF assms(2,3) this, of w]
  show ?thesis by (rule A) (use applied in simp)
qed (use assms(3) in simp_all)

lemma pruner_step_inv:
  assumes "pruner_step D w (s, pc) (s', pc')" and "state_inv s" and "prune_ok pc"
  shows "state_inv s' \<and> prune_ok pc' \<and> may_change Pruner (pools_in s) (pools_in s')"
  using assms(1)
proof cases
  case (deleted ks errs)
  show ?thesis
    by (rule DeletePools_spec [OF assms(2), of ks]) (use deleted in \<open>auto simp: map_le_def split: if_splits\<close>)
next
  case (reported ks errs)
  then show ?thesis using prune_errors_spec [of 0 errs ks s] assms(2,3) by auto
qed (use assms(2) in \<open>auto simp: prune_scan_def prune_scan_loop_eq\<close>)

lemma caller_step_inv:
  assumes "state_inv s"
  shows "DeletePool k s = Some (s', e) \<Longrightarrow> state_inv s' \<and> may_change Caller (pools_in s) (pools_in s')"
    and "DeletePools ks s = Some (s', errs) \<Longrightarrow> state_inv s' \<and> may_change Caller (pools_in s) (pools_in s')"
proof -
  show "state_inv s' \<and> may_change Caller (pools_in s) (pools_in s')" if "DeletePool k s = Some (s', e)"
    by (rule DeletePool_spec [OF assms, of k]) (use that in \<open>auto simp: map_le_def\<close>)
  show "state_inv s' \<and> may_change Caller (pools_in s) (pools_in s')" if "DeletePools ks s = Some (s', errs)"
    by (rule DeletePools_spec [OF assms, of ks]) (use that in \<open>auto simp: map_le_def\<close>)
qed

lemma sys_step_inv:
  assumes "sys_step D E c l c'" and "persistent_deps D" and "conf_inv D c"
  shows "conf_inv D c' \<and> may_change l (pools_in (sys c)) (pools_in (sys c'))"
proof -
  have D: "chain_deps D" using assms(2) by (simp add: persistent_deps_def)
  note I = assms(3) [unfolded conf_inv_def]
  show ?thesis using assms(1)
  proof cases
    case (listener s' pc)
    with listener_step_inv [OF listener(3) D] I show ?thesis by (simp add: conf_inv_def)
  next
    case (initializer w' s' pc)
    with initializer_step_inv [OF initializer(3) assms(2)] I show ?thesis by (simp add: conf_inv_def)
  next
    case (reconciler s' pc)
    with reconciler_step_inv [OF reconciler(3) D] I show ?thesis by (simp add: conf_inv_def)
  next
    case (pruner s' pc)
    with pruner_step_inv [OF pruner(3)] I show ?thesis by (simp add: conf_inv_def)
  next
    case (delete_one k s' e)
    with caller_step_inv(1) [of "sys c"] I show ?thesis by (simp add: conf_inv_def)
  next
    case (delete_many ks s' errs)
    with caller_step_inv(2) [of "sys c"] I show ?thesis by (simp add: conf_inv_def)
  qed (use I in \<open>simp add: conf_inv_def\<close>)
qed

lemma start_conf_inv: "state_inv s \<Longrightarrow> conf_inv D (start_conf D s w)"
  by (simp add: conf_inv_def start_conf_def startInitializer_def startStateReconciler_def startPruner_def)

sublocale persistent_deps \<subseteq> running: transition_invariant
  "\<lambda>c. \<exists>s w. state_inv s \<and> c = start_conf D s w" "\<lambda>c c'. \<exists>l. sys_step D E c l c'" "conf_inv D" for E
proof (unfold_locales, goal_cases)
  case (1 c)
  then show ?case by (auto intro: start_conf_inv)
next
  case (2 c c')
  then show ?case using sys_step_inv persistent_deps_axioms by blast
qed

context persistent_deps
begin

lemma run_inv:
  assumes "state_inv s" and "sys_run D E (start_conf D s w) c"
  shows "conf_inv D c"
  by (rule running.inv_reachable [OF _ assms(2) [unfolded sys_run_def]]) (use assms(1) in blast)

end

text \<open>Under the invariant nothing panics.\<close>

lemma recon_compare_total:
  assumes "was_resolved D a" and "reserves_answer_ok (length (rs_addrs a)) fresh" and "state_inv s"
  shows "recon_compare a fresh s \<noteq> None"
proof -
  obtain s0 w0 where a: "state_inv s0" "a = resolved_of D w0 (View s0)"
    using assms(1) by (auto simp: was_resolved_def was_view_def)
  have "reserves_answer_ok (length (filter (resolvable D w0) (View s0))) fresh"
    using assms(2) by (simp add: a(2) resolved_of_def)
  from recon_compare_eq [OF a(1) assms(3) this] show ?thesis by (simp add: a(2))
qed

lemma phases_total:
  assumes "persistent_deps D" and "conf_inv D c"
  shows "listener c = L_Apply bn d \<Longrightarrow> block_apply D w bn d (sys c) \<noteq> None"
    "initializer c = I_Apply ps res \<Longrightarrow> init_apply D w ps res (sys c) \<noteq> None"
    "reconciler c = R_Compare a fresh \<Longrightarrow> recon_compare a fresh (sys c) \<noteq> None"
    "reconciler c = R_Apply ups \<Longrightarrow> recon_apply ups (sys c) \<noteq> None"
    "DeletePools ks (sys c) \<noteq> None" "DeletePool k (sys c) \<noteq> None"
    "pruner c = P_Report ks errs \<Longrightarrow> prune_errors ks 0 errs (sys c) \<noteq> None"
proof -
  note I = assms(2) [unfolded conf_inv_def]
  have s: "state_inv (sys c)" using I by simp
  show "block_apply D w bn d (sys c) \<noteq> None" if "listener c = L_Apply bn d"
    by (rule block_apply_spec [OF s, of d None D w bn]) (use that I in auto)
  show "init_apply D w ps res (sys c) \<noteq> None" if "initializer c = I_Apply ps res"
    by (rule persistent_deps.init_apply_spec [OF assms(1) s, of ps res w]) (use that I in auto)
  show "recon_compare a fresh (sys c) \<noteq> None" if "reconciler c = R_Compare a fresh"
    by (rule recon_compare_total [OF _ _ s]) (use that I in auto)
  show "recon_apply ups (sys c) \<noteq> None" if "reconciler c = R_Apply ups"
    by (rule recon_apply_spec [OF s, of ups]) (use that I in auto)
  show "DeletePools ks (sys c) \<noteq> None" by (rule DeletePools_spec [OF s, of ks]) simp
  show "DeletePool k (sys c) \<noteq> None" by (rule DeletePool_spec [OF s, of k]) simp
  show "prune_errors ks 0 errs (sys c) \<noteq> None" if "pruner c = P_Report ks errs"
    using prune_errors_spec [OF _ s, of 0 errs ks] that I by auto
qed

lemma no_panics: "persistent_deps D \<Longrightarrow> conf_inv D c \<Longrightarrow> \<not> sys_panics D c"
  by (auto elim!: sys_panics.cases dest: phases_total)

end
