(* ===== verification/Turns.thy ===== *)
theory Turns
  imports Concurrency_Props
begin

text \<open>
  The step relations of the goroutines against the routines they come from: an undisturbed turn of
  a goroutine, from one wait to the next, is one run of its routine (\<^verbatim>\<open>listen_block\<close>,
  \<^verbatim>\<open>runPendingInitializations\<close>, \<^verbatim>\<open>runStateReconciliation\<close>, \<^verbatim>\<open>pruneBlockedPools\<close>).
\<close>

text \<open>Steps up to and including the first one that ends in a waiting state.\<close>

inductive turn :: "('s \<Rightarrow> 's \<Rightarrow> bool) \<Rightarrow> ('s \<Rightarrow> bool) \<Rightarrow> 's \<Rightarrow> 's \<Rightarrow> bool" for step waiting where
  arrives: "step x y \<Longrightarrow> waiting y \<Longrightarrow> turn step waiting x y"
| moves: "step x y \<Longrightarrow> \<not> waiting y \<Longrightarrow> turn step waiting y z \<Longrightarrow> turn step waiting x z"

lemma turn_iff:
  "turn step waiting x z \<longleftrightarrow>
    (step x z \<and> waiting z) \<or> (\<exists>y. step x y \<and> \<not> waiting y \<and> turn step waiting y z)"
  by (subst turn.simps) blast

lemma turn_steps: "turn step waiting x z \<Longrightarrow> step\<^sup>*\<^sup>* x z"
  by (induction rule: turn.induct) (auto intro: converse_rtranclp_into_rtranclp)

text \<open>Steps of one goroutine are steps of the whole system.\<close>

lemma steps_lift:
  assumes "r\<^sup>*\<^sup>* x y" and "\<And>x y. r x y \<Longrightarrow> s (f x) (f y)"
  shows "s\<^sup>*\<^sup>* (f x) (f y)"
  using assms(1) by induction (auto intro: assms(2) rtranclp.rtrancl_into_rtrancl)

section \<open>The listener\<close>

abbreviation listener_turn ::
  "('w, 'c) Deps \<Rightarrow> ('w, 'c) Env \<Rightarrow> 'w \<Rightarrow> State \<times> listener_pc \<Rightarrow> State \<times> listener_pc \<Rightarrow> bool" where
  "listener_turn D E w \<equiv> turn (listener_step D E w) (\<lambda>x. snd x = L_Wait)"

lemma listener_turn_Stopped: "\<not> listener_turn D E w (s, L_Stopped) z"
  by (subst turn_iff) (simp add: listener_Stopped)

lemma listener_turn_Finish:
  "listener_turn D E w (s, L_Finish bn n errs) z \<longleftrightarrow> z = (block_finish bn n errs s, L_Wait)"
  by (subst turn_iff) (auto simp: listener_Finish)

lemma listener_turn_Apply:
  "listener_turn D E w (s, L_Apply bn d) z \<longleftrightarrow>
    (\<exists>s' n errs. block_apply D w bn d s = Some (s', n, errs) \<and> z = (block_finish bn n errs s', L_Wait))"
  by (subst turn_iff) (simp add: listener_Apply, auto simp: listener_turn_Finish)

inductive_simps listener_Wait: "listener_step D E w (s, L_Wait) (s', pc')"

lemma listen_block_iff:
  "listen_block D E w b s = Some s' \<longleftrightarrow>
    (if testBloom D (bl_Bloom b) then
       (\<exists>t err. block_fetch D E w b s = (t, Inl err) \<and> s' = errorHandler err t) \<or>
       (\<exists>t d t' n errs. block_fetch D E w b s = (t, Inr d) \<and>
          block_apply D w (NumberU64 b) d t = Some (t', n, errs) \<and>
          s' = block_finish (NumberU64 b) n errs t')
     else s' = block_skip b s)"
  by (cases "snd (block_fetch D E w b s)"; cases "block_fetch D E w b s")
    (auto simp: listen_block_def handleNewBlock_def bind_Some_iff)

lemma listen_block_fetched:
  "testBloom D (bl_Bloom b) \<Longrightarrow> block_fetch D E w b s = (t, Inr d) \<Longrightarrow>
    block_apply D w (NumberU64 b) d t = Some (t', n, errs) \<Longrightarrow>
    listen_block D E w b s = Some (block_finish (NumberU64 b) n errs t')"
  by (simp add: listen_block_iff)

lemma listener_turn_fetched:
  assumes "testBloom D (bl_Bloom b)" and "block_fetch D E w b s = (t, Inr d)"
    and "block_apply D w (NumberU64 b) d t = Some (t', n, errs)"
  shows "listener_turn D E w (s, L_Wait) (block_finish (NumberU64 b) n errs t', L_Wait)"
  by (rule turn.moves, rule listener_step.fetched [OF assms(1,2)])
    (use assms(3) in \<open>simp_all add: listener_turn_Apply\<close>)

lemma listener_turn_Wait:
  "listener_turn D E w (s, L_Wait) (s', L_Wait) \<longleftrightarrow> (\<exists>b. listen_block D E w b s = Some s')"
    (is "?turn \<longleftrightarrow> ?run")
proof
  assume ?turn
  then show ?run
  proof cases
    case arrives
    then show ?thesis by (auto simp: listener_Wait listen_block_iff)
  next
    case (moves y)
    then obtain t pc where "y = (t, pc)" by (cases y)
    with moves show ?thesis
      by (auto simp: listener_Wait listener_turn_Stopped listener_turn_Apply)
        (metis listen_block_fetched)
  qed
next
  assume ?run
  then obtain b where b: "listen_block D E w b s = Some s'" by blast
  show ?turn
  proof (cases "testBloom D (bl_Bloom b)")
    case True
    with b show ?thesis
      by (auto simp: listen_block_iff listener_turn_fetched intro: turn.arrives listener_step.not_fetched)
  next
    case False
    with b show ?thesis by (auto simp: listen_block_iff intro: turn.arrives listener_step.skip)
  qed
qed

section \<open>The initializer\<close>

abbreviation initializer_turn ::
  "('w, 'c) Deps \<Rightarrow> 'w \<times> State \<times> 'c init_pc \<Rightarrow> 'w \<times> State \<times> 'c init_pc \<Rightarrow> bool" where
  "initializer_turn D \<equiv> turn (initializer_step D) (\<lambda>x. snd (snd x) = I_Wait)"

inductive_simps initializer_steps:
  "initializer_step D (w, s, I_Wait) y" "initializer_step D (w, s, I_Gauge ps) y"
  "initializer_step D (w, s, I_Client ps) y" "initializer_step D (w, s, I_Call ps c) y"
  "initializer_step D (w, s, I_Apply ps res) y" "initializer_step D (w, s, I_Finish n errs) y"
  "initializer_step D (w, s, I_Stopped) y"

lemma initializer_turns:
  "\<not> initializer_turn D (w, s, I_Stopped) z"
  "initializer_turn D (w, s, I_Finish n errs) z \<longleftrightarrow> z = (w, init_finish n errs s, I_Wait)"
  "initializer_turn D (w, s, I_Apply ps res) z \<longleftrightarrow> (\<exists>w' s' n errs.
     init_apply D w ps res s = Some (w', s', n, errs) \<and> z = (w', init_finish n errs s', I_Wait))"
  "initializer_turn D (w, s, I_Call ps c) z \<longleftrightarrow>
     initializer_turn D (w, s, I_Apply ps (poolInitializer D w ps c)) z"
  "initializer_turn D (w, s, I_Client ps) z \<longleftrightarrow> (case getClient D w of
     Inl err \<Rightarrow> z = (w, init_no_client err s, I_Wait) | Inr c \<Rightarrow> initializer_turn D (w, s, I_Call ps c) z)"
  "initializer_turn D (w, s, I_Gauge ps) z \<longleftrightarrow> (if ps = [] then z = (w, reset_gauge s, I_Wait)
     else initializer_turn D (w, reset_gauge s, I_Client ps) z)"
proof -
  show "\<not> initializer_turn D (w, s, I_Stopped) z"
    by (subst turn_iff) (simp add: initializer_steps)
  show f: "initializer_turn D (w, s, I_Finish n errs) z \<longleftrightarrow> z = (w, init_finish n errs s, I_Wait)"
    for w s n errs z by (subst turn_iff) (auto simp: initializer_steps)
  show "initializer_turn D (w, s, I_Apply ps res) z \<longleftrightarrow> (\<exists>w' s' n errs.
     init_apply D w ps res s = Some (w', s', n, errs) \<and> z = (w', init_finish n errs s', I_Wait))"
    by (subst turn_iff) (simp add: initializer_steps, auto simp: f)
  show "initializer_turn D (w, s, I_Call ps c) z \<longleftrightarrow>
     initializer_turn D (w, s, I_Apply ps (poolInitializer D w ps c)) z"
    by (subst turn_iff) (auto simp: initializer_steps)
  show "initializer_turn D (w, s, I_Client ps) z \<longleftrightarrow> (case getClient D w of
     Inl err \<Rightarrow> z = (w, init_no_client err s, I_Wait) | Inr c \<Rightarrow> initializer_turn D (w, s, I_Call ps c) z)"
    by (subst turn_iff) (auto simp: initializer_steps split: sum.split)
  show "initializer_turn D (w, s, I_Gauge ps) z \<longleftrightarrow> (if ps = [] then z = (w, reset_gauge s, I_Wait)
     else initializer_turn D (w, reset_gauge s, I_Client ps) z)"
    by (subst turn_iff) (auto simp: initializer_steps)
qed

lemma initializer_turn_Wait:
  "initializer_turn D (w, s, I_Wait) (w', s', I_Wait) \<longleftrightarrow>
    (\<exists>ord. go_range_order ord \<and> runPendingInitializations D ord w s = Some (w', s'))"
proof -
  have "initializer_turn D (w, s, I_Wait) (w', s', I_Wait) \<longleftrightarrow>
    (\<exists>ord t ps. go_range_order ord \<and> drain_pending ord s = (t, ps) \<and>
       initializer_turn D (w, t, I_Gauge ps) (w', s', I_Wait))"
    by (subst turn_iff)
      (simp add: initializer_steps conj_disj_distribR ex_disj_distrib initializer_turns(1), blast)
  also have "\<dots> \<longleftrightarrow> (\<exists>ord. go_range_order ord \<and> runPendingInitializations D ord w s = Some (w', s'))"
  proof -
    have "initializer_turn D (w, t, I_Gauge ps) (w', s', I_Wait) \<longleftrightarrow>
        runPendingInitializations D ord w s = Some (w', s')"
      if "drain_pending ord s = (t, ps)" for ord t ps
      using that
      by (auto simp: runPendingInitializations_def initializer_turns bind_Some_iff split: sum.split)
    then show ?thesis by (metis surj_pair)
  qed
  finally show ?thesis .
qed

section \<open>The reconciler\<close>

abbreviation reconciler_turn ::
  "('w, 'c) Deps \<Rightarrow> 'w \<Rightarrow> State \<times> 'c recon_pc \<Rightarrow> State \<times> 'c recon_pc \<Rightarrow> bool" where
  "reconciler_turn D w \<equiv> turn (reconciler_step D w) (\<lambda>x. snd x = R_Wait)"

inductive_simps reconciler_steps:
  "reconciler_step D w (s, R_Wait) y" "reconciler_step D w (s, R_Client vs) y"
  "reconciler_step D w (s, R_Resolve vs c) y" "reconciler_step D w (s, R_Fetch a c) y"
  "reconciler_step D w (s, R_Compare a fresh) y" "reconciler_step D w (s, R_Apply ups) y"
  "reconciler_step D w (s, R_Stopped) y"

lemma reconciler_turns:
  "\<not> reconciler_turn D w (s, R_Stopped) z"
  "reconciler_turn D w (s, R_Apply ups) z \<longleftrightarrow> (\<exists>s'. recon_apply ups s = Some s' \<and> z = (s', R_Wait))"
  "reconciler_turn D w (s, R_Compare a fresh) z \<longleftrightarrow> (\<exists>s' ups. recon_compare a fresh s = Some (s', ups) \<and>
     reconciler_turn D w (s', R_Apply ups) z)"
  "reconciler_turn D w (s, R_Fetch a c) z \<longleftrightarrow>
     reconciler_turn D w (s, R_Compare a (getReserves D w (rs_addrs a) c)) z"
  "reconciler_turn D w (s, R_Resolve vs c) z \<longleftrightarrow>
     reconciler_turn D w (fst (recon_resolve D w vs s), R_Fetch (snd (recon_resolve D w vs s)) c) z"
  "reconciler_turn D w (s, R_Client vs) z \<longleftrightarrow> (case getClient D w of
     Inl err \<Rightarrow> z = (recon_no_client err s, R_Wait) | Inr c \<Rightarrow> reconciler_turn D w (s, R_Resolve vs c) z)"
proof -
  show "\<not> reconciler_turn D w (s, R_Stopped) z"
    by (subst turn_iff) (simp add: reconciler_steps)
  show "reconciler_turn D w (s, R_Apply ups) z \<longleftrightarrow> (\<exists>s'. recon_apply ups s = Some s' \<and> z = (s', R_Wait))"
    by (subst turn_iff) (auto simp: reconciler_steps)
  show "reconciler_turn D w (s, R_Compare a fresh) z \<longleftrightarrow> (\<exists>s' ups. recon_compare a fresh s = Some (s', ups) \<and>
     reconciler_turn D w (s', R_Apply ups) z)"
    by (subst turn_iff) (simp add: reconciler_steps, auto)
  show "reconciler_turn D w (s, R_Fetch a c) z \<longleftrightarrow>
     reconciler_turn D w (s, R_Compare a (getReserves D w (rs_addrs a) c)) z"
    by (subst turn_iff) (auto simp: reconciler_steps)
  show "reconciler_turn D w (s, R_Resolve vs c) z \<longleftrightarrow>
     reconciler_turn D w (fst (recon_resolve D w vs s), R_Fetch (snd (recon_resolve D w vs s)) c) z"
    by (subst turn_iff) (cases "recon_resolve D w vs s"; auto simp: reconciler_steps)
  show "reconciler_turn D w (s, R_Client vs) z \<longleftrightarrow> (case getClient D w of
     Inl err \<Rightarrow> z = (recon_no_client err s, R_Wait) | Inr c \<Rightarrow> reconciler_turn D w (s, R_Resolve vs c) z)"
    by (subst turn_iff) (auto simp: reconciler_steps split: sum.split)
qed

lemma reconciler_turn_Wait:
  "reconciler_turn D w (s, R_Wait) (s', R_Wait) \<longleftrightarrow> runStateReconciliation D w s = Some s'"
proof -
  have "reconciler_turn D w (s, R_Wait) (s', R_Wait) \<longleftrightarrow>
    (if View s = [] then s' = s else reconciler_turn D w (s, R_Client (View s)) (s', R_Wait))"
    by (subst turn_iff) (auto simp: reconciler_steps reconciler_turns(1))
  also have "\<dots> \<longleftrightarrow> runStateReconciliation D w s = Some s'"
    by (auto simp: runStateReconciliation_def reconciler_turns bind_Some_iff Let_def
        split: sum.split prod.split)
  finally show ?thesis .
qed

section \<open>The pruner\<close>

abbreviation pruner_turn ::
  "('w, 'c) Deps \<Rightarrow> 'w \<Rightarrow> State \<times> prune_pc \<Rightarrow> State \<times> prune_pc \<Rightarrow> bool" where
  "pruner_turn D w \<equiv> turn (pruner_step D w) (\<lambda>x. snd x = P_Wait)"

inductive_simps pruner_steps:
  "pruner_step D w (s, P_Wait) y" "pruner_step D w (s, P_Delete ks) y"
  "pruner_step D w (s, P_Report ks errs) y" "pruner_step D w (s, P_Stopped) y"

lemma pruner_turns:
  "\<not> pruner_turn D w (s, P_Stopped) z"
  "pruner_turn D w (s, P_Report ks errs) z \<longleftrightarrow>
     (\<exists>s'. prune_errors ks 0 errs s = Some s' \<and> z = (s', P_Wait))"
  "pruner_turn D w (s, P_Delete ks) z \<longleftrightarrow> (\<exists>s' errs. DeletePools ks s = Some (s', errs) \<and>
     pruner_turn D w (s', P_Report ks errs) z)"
proof -
  show "\<not> pruner_turn D w (s, P_Stopped) z"
    by (subst turn_iff) (simp add: pruner_steps)
  show "pruner_turn D w (s, P_Report ks errs) z \<longleftrightarrow>
     (\<exists>s'. prune_errors ks 0 errs s = Some s' \<and> z = (s', P_Wait))"
    by (subst turn_iff) (auto simp: pruner_steps)
  show "pruner_turn D w (s, P_Delete ks) z \<longleftrightarrow> (\<exists>s' errs. DeletePools ks s = Some (s', errs) \<and>
     pruner_turn D w (s', P_Report ks errs) z)"
    by (subst turn_iff) (simp add: pruner_steps, auto)
qed

lemma pruner_turn_Wait:
  "pruner_turn D w (s, P_Wait) (s', P_Wait) \<longleftrightarrow> pruneBlockedPools D w s = Some s'"
proof -
  obtain t ks where p: "prune_scan D w s = (t, ks)" by fastforce
  have "View s = [] \<Longrightarrow> t = s \<and> ks = []" using p by (simp add: prune_scan_def)
  moreover have "pruner_turn D w (s, P_Wait) (s', P_Wait) \<longleftrightarrow>
    (if ks = [] then s' = t else pruner_turn D w (t, P_Delete ks) (s', P_Wait))"
    using p by (subst turn_iff) (auto simp: pruner_steps pruner_turns(1))
  ultimately show ?thesis
    using p by (auto simp: pruneBlockedPools_def pruner_turns bind_Some_iff)
qed

text \<open>
  The goroutines are the routines, and no more. An undisturbed turn of the listener from wait
  to wait is the handling of some block by \<^verbatim>\<open>listen_block\<close>; one of the initializer is
  \<^verbatim>\<open>runPendingInitializations\<close> for some order of the pending map; one of the reconciler is
  \<^verbatim>\<open>runStateReconciliation\<close>, one of the pruner \<^verbatim>\<open>pruneBlockedPools\<close>; each in both directions.
\<close>

lemma turns_are_routines:
  "(turn (listener_step D E w) (\<lambda>x. snd x = L_Wait) (s, L_Wait) (s', L_Wait) \<longleftrightarrow>
     (\<exists>b. listen_block D E w b s = Some s')) \<and>
   (turn (initializer_step D) (\<lambda>x. snd (snd x) = I_Wait) (w, s, I_Wait) (w', s', I_Wait) \<longleftrightarrow>
     (\<exists>ord. go_range_order ord \<and> runPendingInitializations D ord w s = Some (w', s'))) \<and>
   (turn (reconciler_step D w) (\<lambda>x. snd x = R_Wait) (s, R_Wait) (s', R_Wait) \<longleftrightarrow>
     runStateReconciliation D w s = Some s') \<and>
   (turn (pruner_step D w) (\<lambda>x. snd x = P_Wait) (s, P_Wait) (s', P_Wait) \<longleftrightarrow>
     pruneBlockedPools D w s = Some s')"
  by (intro conjI listener_turn_Wait initializer_turn_Wait reconciler_turn_Wait pruner_turn_Wait)

end
