(* ===== verification/Running_Props.thy ===== *)
theory Running_Props
  imports Turns
begin

text \<open>
  Properties of the running system: construction, safety in every reachable state, refinement of
  the abstract tracker, and a gauge the interleaving lets drift.
\<close>

section \<open>Construction\<close>

lemma deps_of_valid: "validate c = None \<Longrightarrow> deps_of c \<noteq> None"
  by (auto simp: validate_def deps_of_def New_def split: if_splits)

lemma loaded_nil: "loaded [] 0 = NewUniswapV2Registry"
  using load_complete [of "[]"] by (simp add: NewUniswapV2RegistryFromViews_def)

lemma new_system_cases:
  assumes "list_all row_complete vs"
  shows "newUniswapV2System cfg (loaded vs 0) m =
    (case validate cfg of
       Some err \<Rightarrow> Some (m, Inl (Errorf [Lit ''invalid uniswapv2 system configuration: ''] err))
     | None \<Rightarrow>
       (case register_metrics (promauto_With (PrometheusReg cfg)) (SystemName cfg) m of
          None \<Rightarrow> None
        | Some m' \<Rightarrow> if Logger cfg = None then None
            else Some (m', Inr (the (deps_of cfg), initial_state (loaded vs 0) vs))))"
proof (cases "validate cfg")
  case None
  then obtain d where "deps_of cfg = Some d" using deps_of_valid by blast
  with None view_loaded [OF assms] show ?thesis
    by (auto simp: newUniswapV2System_def NewMetrics_def initial_state_def
        split: Option.bind_splits option.splits)
qed (simp add: newUniswapV2System_def)

lemma initial_loaded_inv:
  assumes "list_all row_complete vs"
  shows "state_inv (initial_state (loaded vs 0) vs) \<longleftrightarrow> distinct (map ID vs)"
  using view_loaded [OF assms]
  by (simp add: state_inv_def initial_state_def loaded_wf errors_counted_def zero_metrics_def)

text \<open>
  C36. Construction from a snapshot, in every case. A view without reserves is a nil dereference
  before the configuration is looked at. An invalid configuration is the wrapped error of the
  first missing field, and the registerer is left alone. With a valid one, a registerer that
  refuses one of the nine collectors, as one that already holds the names does, makes construction
  panic; and so does a missing logger, which \<^verbatim>\<open>validate\<close> does not ask for. Otherwise the system
  starts with exactly the given views, an empty queue and a zero \<^verbatim>\<open>PoolsInRegistry\<close> gauge whatever
  the number of views; its state has the invariant if and only if no ID is repeated, which nothing
  checks. The constructor without a snapshot is that of the empty one.
\<close>

theorem construction_cases:
  "NewUniswapV2SystemFromViews cfg views m =
    (if \<not> list_all row_complete views then None
     else case validate cfg of
       Some err \<Rightarrow> Some (m, Inl (Errorf [Lit ''invalid uniswapv2 system configuration: ''] err))
     | None \<Rightarrow>
       (case register_metrics (promauto_With (PrometheusReg cfg)) (SystemName cfg) m of
          None \<Rightarrow> None
        | Some m' \<Rightarrow> if Logger cfg = None then None
            else Some (m', Inr (the (deps_of cfg), initial_state (loaded views 0) views)))) \<and>
   NewUniswapV2System cfg m = NewUniswapV2SystemFromViews cfg [] m \<and>
   View (initial_state (loaded views 0) views) = views \<and>
   pendingInit (initial_state (loaded views 0) views) = [] \<and>
   m_PoolsInRegistry (metrics (initial_state (loaded views 0) views)) = 0 \<and>
   (list_all row_complete views \<and> state_inv (initial_state (loaded views 0) views) \<longleftrightarrow>
      list_all row_complete views \<and> distinct (map ID views))"
proof (intro conjI)
  show "NewUniswapV2SystemFromViews cfg views m =
    (if \<not> list_all row_complete views then None
     else case validate cfg of
       Some err \<Rightarrow> Some (m, Inl (Errorf [Lit ''invalid uniswapv2 system configuration: ''] err))
     | None \<Rightarrow>
       (case register_metrics (promauto_With (PrometheusReg cfg)) (SystemName cfg) m of
          None \<Rightarrow> None
        | Some m' \<Rightarrow> if Logger cfg = None then None
            else Some (m', Inr (the (deps_of cfg), initial_state (loaded views 0) views))))"
    by (simp add: NewUniswapV2SystemFromViews_def load_complete load_incomplete new_system_cases)
  show "NewUniswapV2System cfg m = NewUniswapV2SystemFromViews cfg [] m"
    by (simp add: NewUniswapV2System_def NewUniswapV2SystemFromViews_def load_complete loaded_nil)
  show "list_all row_complete views \<and> state_inv (initial_state (loaded views 0) views) \<longleftrightarrow>
      list_all row_complete views \<and> distinct (map ID views)"
    using initial_loaded_inv by blast
qed (simp_all add: initial_state_def View_def zero_metrics_def)

lemma constructed_inv:
  assumes "NewUniswapV2SystemFromViews cfg views m = Some (m', Inr (D, s))" and "distinct (map ID views)"
  shows "state_inv s"
proof -
  have "list_all row_complete views"
    using assms(1) load_incomplete by (fastforce simp: NewUniswapV2SystemFromViews_def)
  with assms show ?thesis
    by (auto simp: NewUniswapV2SystemFromViews_def load_complete new_system_cases initial_loaded_inv
        split: option.splits if_splits)
qed

section \<open>Safety\<close>

text \<open>
  C3. The running system is safe. Start it from a snapshot with distinct IDs, with dependencies
  that keep their contracts, in any outside world; let the listener, the initializer, the
  reconciler, the pruner, any callers of the deletion methods and the environment take any number
  of steps in any order. Then the registry's index is exact, readers see exactly the registry's
  pools, no address is queued twice, the error counters agree with the reported errors, and
  nobody panics at the next step.
\<close>

theorem running_system_safe:
  assumes "NewUniswapV2SystemFromViews cfg views m = Some (m', Inr (D, s))" and "distinct (map ID views)"
    and "persistent_deps D" and "sys_run D E (start_conf D s w) c"
  shows "state_inv (sys c) \<and> viewRegistry (registry (sys c)) = Some (View (sys c)) \<and> \<not> sys_panics D c"
proof -
  have "conf_inv D c"
    by (rule persistent_deps.run_inv [OF assms(3) constructed_inv [OF assms(1,2)] assms(4)])
  then show ?thesis
    using no_panics [OF assms(3)] state_invD(2) by (auto simp: conf_inv_def)
qed

text \<open>Steps that cannot remove a pool.\<close>

definition keeping_step ::
  "('w, 'c) Deps \<Rightarrow> ('w, 'c) Env \<Rightarrow> ('w, 'c) Conf \<Rightarrow> ('w, 'c) Conf \<Rightarrow> bool" where
  "keeping_step D E c c' \<longleftrightarrow> (\<exists>l. l \<noteq> Pruner \<and> l \<noteq> Caller \<and> sys_step D E c l c')"

lemma keeping_run: "(keeping_step D E)\<^sup>*\<^sup>* c c' \<Longrightarrow> sys_run D E c c'"
  unfolding sys_run_def by (rule rtranclp_mono [THEN predicate2D]) (auto simp: keeping_step_def)

text \<open>An undisturbed turn as a run of the whole system.\<close>

lemma listener_steps_keep:
  assumes "(listener_step D E (world c))\<^sup>*\<^sup>* (sys c, listener c) (s', pc')"
  shows "(keeping_step D E)\<^sup>*\<^sup>* c (c\<lparr>sys := s', listener := pc'\<rparr>)"
proof -
  let ?f = "\<lambda>x. c\<lparr>sys := fst x, listener := snd x\<rparr>"
  have "keeping_step D E (?f x) (?f y)" if "listener_step D E (world c) x y" for x y
    unfolding keeping_step_def
    by (rule exI [of _ Listener]) (use sys_step.listener [of D E "?f x" "fst y" "snd y"] that in simp)
  with assms have "(keeping_step D E)\<^sup>*\<^sup>* (?f (sys c, listener c)) (?f (s', pc'))" by (rule steps_lift)
  then show ?thesis by simp
qed

lemma block_keeping_run:
  assumes "listen_block D E (world c) b (sys c) = Some s'" and "listener c = L_Wait"
  shows "(keeping_step D E)\<^sup>*\<^sup>* c (c\<lparr>sys := s'\<rparr>)"
proof -
  have "listener_turn D E (world c) (sys c, L_Wait) (s', L_Wait)"
    using assms(1) by (auto simp: listener_turn_Wait)
  from turn_steps [OF this] have "(keeping_step D E)\<^sup>*\<^sup>* c (c\<lparr>sys := s', listener := L_Wait\<rparr>)"
    unfolding assms(2) [symmetric] by (rule listener_steps_keep)
  then show ?thesis using assms(2) by (cases c) simp
qed

lemma init_keeping_run:
  assumes "runPendingInitializations D ord (world c) (sys c) = Some (w', s')" and "go_range_order ord"
    and "initializer c = I_Wait"
  shows "(keeping_step D E)\<^sup>*\<^sup>* c (c\<lparr>world := w', sys := s'\<rparr>)"
proof -
  let ?f = "\<lambda>x. c\<lparr>world := fst x, sys := fst (snd x), initializer := snd (snd x)\<rparr>"
  have "initializer_turn D (world c, sys c, I_Wait) (w', s', I_Wait)"
    using assms(1,2) by (auto simp: initializer_turn_Wait)
  then have "(initializer_step D)\<^sup>*\<^sup>* (world c, sys c, I_Wait) (w', s', I_Wait)" by (rule turn_steps)
  moreover have "keeping_step D E (?f x) (?f y)" if "initializer_step D x y" for x y
    unfolding keeping_step_def
    by (rule exI [of _ Initializer])
      (use sys_step.initializer [of D "?f x" "fst y" "fst (snd y)" "snd (snd y)" E] that in simp)
  ultimately have "(keeping_step D E)\<^sup>*\<^sup>* (?f (world c, sys c, I_Wait)) (?f (w', s', I_Wait))"
    by (rule steps_lift)
  moreover have "?f (world c, sys c, I_Wait) = c" "?f (w', s', I_Wait) = c\<lparr>world := w', sys := s'\<rparr>"
    using assms(3) by (cases c; simp)+
  ultimately show ?thesis by simp
qed

definition example_names :: "string list" where
  "example_names = the (register_metrics name_list ''uniswap_v2'' [])"

lemma example_system:
  "NewUniswapV2SystemFromViews (wired_config (example_setup 1)) [example_pool] [] =
    Some (example_names, Inr (wired (example_setup 1), tracking_state))"
proof -
  have "register_metrics name_list ''uniswap_v2'' [] = Some example_names"
    using register_names [of "''uniswap_v2''"] by (auto simp: example_names_def)
  moreover have "SystemName (wired_config (example_setup 1)) = ''uniswap_v2''"
    "PrometheusReg (wired_config (example_setup 1)) = Some name_list"
    "Logger (wired_config (example_setup 1)) = Some ()"
    by (simp_all add: wired_config_def)
  ultimately show ?thesis
    by (simp add: NewUniswapV2SystemFromViews_def load_complete new_system_cases wired_config_valid
        wired_def tracking_state_def example_pool_def row_complete_def promauto_With_def)
qed

lemma example_run:
  obtains c where "(keeping_step (wired (example_setup 1)) (example_env [swap_log 7, sync_log 7 40 50]))\<^sup>*\<^sup>*
      (start_conf (wired (example_setup 1)) tracking_state registered_world) c"
    "example_pool\<lparr>Reserve0 := Some 40, Reserve1 := Some 50\<rparr> \<in> set (View (sys c))"
proof -
  let ?D = "wired (example_setup 1)" and ?E = "example_env [swap_log 7, sync_log 7 40 50]"
  let ?c = "start_conf ?D tracking_state registered_world"
  obtain s' where "handleNewBlock ?D ?E registered_world example_block tracking_state = Some (s', None)"
    and v: "example_pool\<lparr>Reserve0 := Some 40, Reserve1 := Some 50\<rparr> \<in> set (View s')"
    by (rule example_block_run)
  moreover have "testBloom ?D (bl_Bloom example_block)"
    by (simp add: example_block_def example_setup_def SwapEventInBloom_def)
  ultimately have "listen_block ?D ?E registered_world example_block tracking_state = Some s'"
    by (simp add: listen_block_def)
  then have "(keeping_step ?D ?E)\<^sup>*\<^sup>* ?c (?c\<lparr>sys := s'\<rparr>)"
    using block_keeping_run [of ?D ?E ?c example_block s'] by (simp add: start_conf_def)
  then show ?thesis by (rule that) (simp add: v)
qed

theorem running_system_safe_witness:
  "\<exists>c. sys_run (wired (example_setup 1)) (example_env [swap_log 7, sync_log 7 40 50])
      (start_conf (wired (example_setup 1)) tracking_state registered_world) c \<and>
    example_pool\<lparr>Reserve0 := Some 40, Reserve1 := Some 50\<rparr> \<in> set (View (sys c)) \<and>
    state_inv (sys c) \<and> \<not> sys_panics (wired (example_setup 1)) c"
proof (rule example_run, goal_cases)
  case (1 c)
  have "distinct (map ID [example_pool])" by simp
  from running_system_safe [OF example_system this wired.persistent_deps_axioms keeping_run [OF 1(1)]] 1
  show ?case by (blast intro: keeping_run)
qed

section \<open>The abstract tracker\<close>

lemma view_map_pools:
  assumes "state_inv s"
  shows "view_map (View s) = pools_in s"
proof
  fix k
  have "ID v = k" if "pools_in s k = Some v" for v
    using that unfolding reg.view_map_of [OF state_invD(1,2) [OF assms], symmetric]
    by (auto dest: map_of_SomeD)
  then have "view_map (View s) k = Some v \<longleftrightarrow> pools_in s k = Some v" for v
    using View_view_map [OF assms] View_pools(1) [OF assms] by metis
  then show "view_map (View s) k = pools_in s k" by (metis option.exhaust)
qed

text \<open>
  C8. The running system refines a map from IDs to pools, which is what readers see. In every
  reachable state, a step of the listener or the reconciler changes at most reserves, a step of the
  initializer only adds pools, a step of the pruner or a caller only removes some, and a change of
  the outside world alone changes nothing.
\<close>

theorem steps_refine_tracker:
  assumes "NewUniswapV2SystemFromViews cfg views m = Some (m', Inr (D, s))" and "distinct (map ID views)"
    and "persistent_deps D" and "sys_run D E (start_conf D s w) c" and "sys_step D E c l c'"
  shows "may_change l (view_map (View (sys c))) (view_map (View (sys c')))"
proof -
  have c: "conf_inv D c"
    by (rule persistent_deps.run_inv [OF assms(3) constructed_inv [OF assms(1,2)] assms(4)])
  from sys_step_inv [OF assms(5,3) this] have "conf_inv D c'" "may_change l (pools_in (sys c)) (pools_in (sys c'))"
    by simp_all
  with c show ?thesis by (simp add: conf_inv_def view_map_pools)
qed

theorem steps_refine_tracker_witness:
  "\<exists>c c'. sys_step (wired (example_setup 1)) (example_env [swap_log 7, sync_log 7 40 50]) c Caller c' \<and>
    View (sys c) \<noteq> [] \<and> View (sys c') = [] \<and>
    may_change Caller (view_map (View (sys c))) (view_map (View (sys c')))"
proof -
  let ?D = "wired (example_setup 1)" and ?E = "example_env [swap_log 7, sync_log 7 40 50]"
  let ?c = "start_conf ?D tracking_state registered_world"
  obtain s' e where d: "DeletePool 1001 tracking_state = Some (s', e)" "state_inv s'"
    "pools_in s' = (pools_in tracking_state)(1001 := None)"
    by (rule DeletePool_spec [OF tracking_state_inv])
  have "ID ` set (View s') = {}"
    using View_pools(3) [OF d(2)] View_pools(3) [OF tracking_state_inv] d(3) by (simp add: example_pool_def)
  then have "View s' = []" by simp
  moreover have step: "sys_step ?D ?E ?c Caller (?c\<lparr>sys := s'\<rparr>)"
    using sys_step.delete_one [of 1001 ?c s' e] d(1) by (simp add: start_conf_def)
  moreover have "sys_run ?D ?E ?c ?c" by (simp add: sys_run_def)
  ultimately show ?thesis
    using steps_refine_tracker [OF example_system _ wired.persistent_deps_axioms _ step, of registered_world]
    by (intro exI [of _ ?c] exI [of _ "?c\<lparr>sys := s'\<rparr>"]) (simp add: start_conf_def)
qed

lemma kept_once:
  assumes "may_change l m m'" and "l \<noteq> Pruner" and "l \<noteq> Caller" and "m k = Some v"
  shows "\<exists>v'. m' k = Some v' \<and> same_static v v'"
proof (cases l)
  case Listener
  with assms(1) have "rel_option same_static (m k) (m' k)" by simp
  with assms(4) show ?thesis by (cases "m' k") auto
next
  case Reconciler
  with assms(1) have "rel_option same_static (m k) (m' k)" by simp
  with assms(4) show ?thesis by (cases "m' k") auto
next
  case Initializer
  with assms(1,4) show ?thesis by (intro exI [of _ v]) (auto simp: map_le_def dom_def)
qed (use assms in simp_all)

lemma kept_along:
  assumes "(keeping_step D E)\<^sup>*\<^sup>* c c'" and "persistent_deps D" and "conf_inv D c"
    and "pools_in (sys c) k = Some v"
  shows "conf_inv D c' \<and> (\<exists>v'. pools_in (sys c') k = Some v' \<and> same_static v v')"
  using assms(1)
proof induction
  case base
  with assms(3,4) show ?case by simp
next
  case (step c1 c2)
  then obtain l v1 where l: "l \<noteq> Pruner" "l \<noteq> Caller" "sys_step D E c1 l c2"
    and v1: "pools_in (sys c1) k = Some v1" "same_static v v1"
    by (auto simp: keeping_step_def)
  from sys_step_inv [OF l(3) assms(2)] step.IH
  have s: "conf_inv D c2" "may_change l (pools_in (sys c1)) (pools_in (sys c2))" by simp_all
  from kept_once [OF s(2) l(1,2) v1(1)] s(1) v1(2) same_static_trans show ?case by blast
qed

text \<open>
  C15. A tracked pool is lost only to the pruner or a deletion, and is never changed into another:
  as long as neither the pruner nor a caller of the deletion methods takes a step, whatever the
  listener, the initializer, the reconciler and the environment do in between, every pool readers
  have seen is still shown, with the same tokens, type and fee.
\<close>

theorem tracked_pools_are_kept:
  assumes "NewUniswapV2SystemFromViews cfg views m = Some (m', Inr (D, s))" and "distinct (map ID views)"
    and "persistent_deps D" and "sys_run D E (start_conf D s w) c"
    and "(keeping_step D E)\<^sup>*\<^sup>* c c'" and "v \<in> set (View (sys c))"
  shows "\<exists>v' \<in> set (View (sys c')). ID v' = ID v \<and> Token0 v' = Token0 v \<and> Token1 v' = Token1 v \<and>
    Type v' = Type v \<and> FeeBps v' = FeeBps v"
proof -
  have c: "conf_inv D c"
    by (rule persistent_deps.run_inv [OF assms(3) constructed_inv [OF assms(1,2)] assms(4)])
  then have "pools_in (sys c) (ID v) = Some v"
    using View_pools(1) [of "sys c"] assms(6) by (simp add: conf_inv_def)
  from kept_along [OF assms(5,3) c this] obtain v' where
    "state_inv (sys c')" "pools_in (sys c') (ID v) = Some v'" "same_static v v'"
    by (auto simp: conf_inv_def)
  then show ?thesis
    using View_pools(1) [of "sys c'" v'] by (intro bexI [of _ v']) (auto simp: same_static_def)
qed

theorem tracked_pools_are_kept_witness:
  "\<exists>c'. (keeping_step (wired (example_setup 1)) (example_env [swap_log 7, sync_log 7 40 50]))\<^sup>*\<^sup>*
      (start_conf (wired (example_setup 1)) tracking_state registered_world) c' \<and>
    example_pool\<lparr>Reserve0 := Some 40, Reserve1 := Some 50\<rparr> \<in> set (View (sys c')) \<and>
    (\<exists>v' \<in> set (View (sys c')). ID v' = 1001 \<and> Token0 v' = 1 \<and> Token1 v' = 2 \<and> FeeBps v' = 30)"
proof -
  let ?D = "wired (example_setup 1)" and ?E = "example_env [swap_log 7, sync_log 7 40 50]"
  let ?c = "start_conf ?D tracking_state registered_world"
  obtain c' where c': "(keeping_step ?D ?E)\<^sup>*\<^sup>* ?c c'"
    "example_pool\<lparr>Reserve0 := Some 40, Reserve1 := Some 50\<rparr> \<in> set (View (sys c'))"
    by (rule example_run)
  have "sys_run ?D ?E ?c ?c" "example_pool \<in> set (View (sys ?c))" "distinct (map ID [example_pool])"
    by (simp_all add: sys_run_def start_conf_def)
  from tracked_pools_are_kept [OF example_system this(3) wired.persistent_deps_axioms this(1) c'(1) this(2)]
  have "\<exists>v' \<in> set (View (sys c')). ID v' = 1001 \<and> Token0 v' = 1 \<and> Token1 v' = 2 \<and> FeeBps v' = 30"
    by (simp add: example_pool_def) blast
  with c' show ?thesis by blast
qed

section \<open>A gauge out of step\<close>

lemma run_pending_empties:
  assumes "persistent_deps D" and "state_inv s" and "go_range_order ord"
  obtains w' s' where "runPendingInitializations D ord w s = Some (w', s')"
    "pendingInit s' = []" "m_PendingInitQueueSize (metrics s') = 0"
proof -
  let ?t = "reset_gauge (fst (drain_pending ord s))" and ?ps = "snd (drain_pending ord s)"
  have t: "state_inv ?t" "pendingInit ?t = []" "m_PendingInitQueueSize (metrics ?t) = 0"
    using assms(2) by (auto simp: drain_pending_def reset_gauge_def state_inv_def errors_counted_def)
  consider (none) "?ps = []" | (fails) err where "?ps \<noteq> []" "getClient D w = Inl err"
    | (goes) c where "?ps \<noteq> []" "getClient D w = Inr c"
    by (metis sum.exhaust)
  then show ?thesis
  proof cases
    case none
    then have "runPendingInitializations D ord w s = Some (w, ?t)"
      by (simp add: runPendingInitializations_def split_beta Let_def)
    then show ?thesis using t(2,3) by (rule that)
  next
    case fails
    then have "runPendingInitializations D ord w s = Some (w, init_no_client err ?t)"
      by (simp add: runPendingInitializations_def split_beta Let_def)
    then show ?thesis by (rule that) (use t in \<open>simp_all add: init_no_client_def\<close>)
  next
    case goes
    have "chain_deps D" using assms(1) by (simp add: persistent_deps_def)
    note ok = chain_deps.init_shape [OF this, of ?ps w c]
    show ?thesis
    proof (rule persistent_deps.init_apply_spec [OF assms(1) t(1) ok, of w], goal_cases)
      case (1 w' s' errs)
      let ?n = "int (length ?ps) - int (length errs)"
      have "runPendingInitializations D ord w s = Some (w', init_finish ?n errs s')"
        using goes 1(1) by (simp add: runPendingInitializations_def split_beta Let_def)
      then show ?case by (rule that) (use 1 t in \<open>simp_all add: init_finish_def Let_def\<close>)
    qed
  qed
qed

text \<open>
  C39. The gauge \<^verbatim>\<open>PendingInitQueueSize\<close> can stay wrong. The listener adds to it after it has left
  the lock under which it queued the pools: whenever it is there with \<open>n\<close> newly queued pools, a
  turn of the initializer can come first, which empties the queue and sets the gauge to 0; then
  both goroutines wait again, the queue is empty, and the gauge says \<open>n\<close>.
\<close>

theorem queue_gauge_drifts:
  assumes "persistent_deps D" and "state_inv s" and "sys_run D E (start_conf D s w) c"
    and "listener c = L_Finish bn n errs" and "0 < n" and "initializer c = I_Wait"
  shows "\<exists>c'. sys_run D E c c' \<and> listener c' = L_Wait \<and> initializer c' = I_Wait \<and>
    pendingInit (sys c') = [] \<and> m_PendingInitQueueSize (metrics (sys c')) = int n"
proof -
  have "state_inv (sys c)"
    using persistent_deps.run_inv [OF assms(1-3)] by (simp add: conf_inv_def)
  then obtain w' s' where r: "runPendingInitializations D (\<lambda>ks. ks) (world c) (sys c) = Some (w', s')"
    "pendingInit s' = []" "m_PendingInitQueueSize (metrics s') = 0"
    by (rule run_pending_empties [OF assms(1) _ go_range_order_id])
  let ?c1 = "c\<lparr>world := w', sys := s'\<rparr>"
  let ?c2 = "?c1\<lparr>sys := block_finish bn n errs s', listener := L_Wait\<rparr>"
  have "sys_run D E c ?c1"
    by (rule keeping_run [OF init_keeping_run [OF r(1) go_range_order_id assms(6)]])
  moreover have "sys_step D E ?c1 Listener ?c2"
    by (rule sys_step.listener) (use assms(4) in \<open>simp add: listener_step.finished\<close>)
  ultimately have "sys_run D E c ?c2"
    unfolding sys_run_def by (blast intro: rtranclp.rtrancl_into_rtrancl)
  moreover have "pendingInit (sys ?c2) = []" "m_PendingInitQueueSize (metrics (sys ?c2)) = int n"
    using r(2,3) assms(5) by (simp_all add: block_finish_def Let_def)
  ultimately show ?thesis using assms(6) by (intro exI [of _ ?c2]) simp
qed

lemma example_queueing:
  obtains s2 where "sys_run (wired (example_setup 1)) (example_env [swap_log 7])
    (start_conf (wired (example_setup 1)) empty_state (example_world newMockPersistence))
    ((start_conf (wired (example_setup 1)) empty_state (example_world newMockPersistence))
       \<lparr>sys := s2, listener := L_Finish 17 1 []\<rparr>)"
proof -
  let ?D = "wired (example_setup 1)" and ?E = "example_env [swap_log 7]"
  let ?w = "example_world newMockPersistence" let ?c = "start_conf ?D empty_state ?w"
  have f: "getClient ?D ?w = Inr ()" "getLogsWithRetry ?D ?E ?w () example_block = Inr [swap_log 7]"
    "discoverPools ?D ?w [swap_log 7] = ([7], None)"
    by (simp_all add: example_world_def getLogsWithRetry_def max_attempts_def example_setup_def
        example_env_def upt_rec numeral_2_eq_2 Let_def DiscoverPools_def swap_log_def add_key_def)
  obtain ps r0s r1s e where u: "updatedInBlock ?D ?w [swap_log 7] = ((ps, r0s, r1s), e)"
    by (metis prod_cases3 surj_pair)
  let ?d = "\<lparr>bd_pools = ps, bd_reserve0s = r0s, bd_reserve1s = r1s, bd_discovered = [7]\<rparr>"
  let ?s1 = "handle_errors (parse_errors 17 e None) empty_state"
  have b: "NumberU64 example_block = 17" "testBloom ?D (bl_Bloom example_block)"
    by (simp_all add: NumberU64_def example_block_def example_setup_def SwapEventInBloom_def)
  have "block_fetch ?D ?E ?w example_block empty_state = (?s1, Inr ?d)"
    using block_fetch_cases [of ?D ?E ?w example_block empty_state]
    unfolding f(1) f(2) sum.inject using u f(2,3) b by auto
  from listener_step.fetched [OF b(2) this]
  have s1: "listener_step ?D ?E ?w (empty_state, L_Wait) (?s1, L_Apply 17 ?d)" by (simp add: b(1))
  have i: "state_inv ?s1" "pendingInit ?s1 = []"
    using empty_state_inv by (simp_all add: empty_state_def initial_state_def)
  have ok: "updates_ok ((bd_pools ?d, bd_reserve0s ?d, bd_reserve1s ?d), e)"
    using wired.updates_shape [of "example_setup 1" ?w "[swap_log 7]"] u by simp
  show ?thesis
  proof (rule block_apply_spec [OF i(1) ok, of ?D ?w 17], goal_cases)
    case (1 s2 n)
    have "{a. a = 7 \<and> wanted ?D ?w a} = {7}"
      by (auto simp: wanted_def example_world_def mock_PoolAddressToID_def newMockPersistence_def)
    then have "set (pendingInit s2) = {7}" "distinct (pendingInit s2)" "n = length (pendingInit s2)"
      using 1(2,5,6) i(2) by (simp_all add: state_inv_def)
    then have "n = 1" using distinct_card [of "pendingInit s2"] by simp
    with 1(1) have s2: "listener_step ?D ?E ?w (?s1, L_Apply 17 ?d) (s2, L_Finish 17 1 [])"
      by (simp add: listener_step.applied)
    have c: "world ?c = ?w" "sys ?c = empty_state" "listener ?c = L_Wait" by (simp_all add: start_conf_def)
    from s1 s2 have "(listener_step ?D ?E (world ?c))\<^sup>*\<^sup>* (sys ?c, listener ?c) (s2, L_Finish 17 1 [])"
      unfolding c by (meson converse_rtranclp_into_rtranclp r_into_rtranclp)
    from keeping_run [OF listener_steps_keep [OF this]] show ?case by (rule that)
  qed
qed

theorem queue_gauge_drifts_witness:
  "\<exists>c'. sys_run (wired (example_setup 1)) (example_env [swap_log 7])
      (start_conf (wired (example_setup 1)) empty_state (example_world newMockPersistence)) c' \<and>
    listener c' = L_Wait \<and> initializer c' = I_Wait \<and>
    pendingInit (sys c') = [] \<and> m_PendingInitQueueSize (metrics (sys c')) = 1"
proof (rule example_queueing, goal_cases)
  case (1 s2)
  let ?D = "wired (example_setup 1)"
  let ?c0 = "start_conf ?D empty_state (example_world newMockPersistence)"
  let ?c = "?c0\<lparr>sys := s2, listener := L_Finish 17 1 []\<rparr>"
  have "initializer ?c = I_Wait" by (simp add: start_conf_def startInitializer_def example_setup_def)
  then obtain c' where "sys_run ?D (example_env [swap_log 7]) ?c c'" "listener c' = L_Wait"
    "initializer c' = I_Wait" "pendingInit (sys c') = []"
    "m_PendingInitQueueSize (metrics (sys c')) = int 1"
    using queue_gauge_drifts [OF wired.persistent_deps_axioms empty_state_inv 1, of 17 1 "[]"] by auto
  with 1 show ?case unfolding sys_run_def by (intro exI [of _ c']) (auto intro: rtranclp_trans)
qed

end
