(* ===== verification/Whitelist_Props.thy ===== *)
theory Whitelist_Props
  imports Running_Props
begin

text \<open>
  The whitelist seen from the outside: in the running system wired with the repository's
  initializer, no interleaving brings a pool before the readers that is not from the snapshot or
  from a factory of the list.
\<close>

definition all_pools :: "(PoolView \<Rightarrow> bool) \<Rightarrow> (u64 \<rightharpoonup> PoolView) \<Rightarrow> bool" where
  "all_pools G m \<longleftrightarrow> (\<forall>k v. m k = Some v \<longrightarrow> G v)"

text \<open>A predicate that does not look at the reserves.\<close>

definition static_pred :: "(PoolView \<Rightarrow> bool) \<Rightarrow> bool" where
  "static_pred G \<longleftrightarrow> (\<forall>v v'. same_static v v' \<longrightarrow> G v \<longrightarrow> G v')"

lemma all_pools_rel:
  assumes "\<forall>k. rel_option same_static (m k) (m' k)" and "all_pools G m" and "static_pred G"
  shows "all_pools G m'"
  unfolding all_pools_def
proof (intro allI impI)
  fix k v'
  assume v': "m' k = Some v'"
  have "rel_option same_static (m k) (m' k)" using assms(1) by simp
  with v' obtain v where "m k = Some v" "same_static v v'" by (cases "m k") auto
  with assms(2,3) show "G v'" unfolding all_pools_def static_pred_def by blast
qed

lemma all_pools_sub: "m' \<subseteq>\<^sub>m m \<Longrightarrow> all_pools G m \<Longrightarrow> all_pools G m'"
  unfolding all_pools_def map_le_def by (metis domI)

lemma all_pools_change:
  assumes "may_change l m m'" and "l \<noteq> Initializer" and "all_pools G m" and "static_pred G"
  shows "all_pools G m'"
  using assms all_pools_rel [of m m' G] all_pools_sub [of m' m G] by (cases l) auto

lemma updatePool_pools:
  assumes "registry_wf r" and "updatePool p q k r = Some (r', e)"
  shows "registry_wf r' \<and> (\<forall>j. rel_option same_static (pools_of r j) (pools_of r' j))"
proof (cases "pools_of r k")
  case None
  with assms reg.upd_absent show ?thesis by (auto simp: option.rel_refl)
next
  case (Some v)
  then obtain i where "idToIndex r k = Some i" by (auto simp: pools_of_def)
  with assms(2) obtain a b where "p = Some a" "q = Some b"
    by (auto simp: updatePool_def deref_def bind_Some_iff)
  with reg.upd_present [OF assms(1) Some, of a b] assms(2) Some show ?thesis
    by (auto simp: option.rel_refl)
qed

lemma addPool_pools:
  assumes "registry_wf r" and "addPool t0 t1 p ty f tid pid w r = (w', r', e)"
  shows "registry_wf r' \<and> (pools_of r' = pools_of r \<or>
    (\<exists>k x y. pools_of r' = (pools_of r)(k \<mapsto> fresh_pool k x y ty f)))"
  using reg.add_cases [of t0 t1 p ty f tid pid w r]
proof (elim disjE exE conjE)
  fix w2 err
  assume "addPool t0 t1 p ty f tid pid w r = (w2, r, Some err)"
  with assms show ?thesis by simp
next
  fix k w1 w2 x y
  assume "pid p = Inr k" "pools_of r k = None" "tid w t0 = (w1, Inr x)" "tid w1 t1 = (w2, Inr y)"
  from reg.add_ok [of r pid p k tid w t0 w1 x t1 w2 y ty f, OF assms(1) this] assms(2)
  show ?thesis by auto
qed

lemma add_loop_pools:
  assumes "add_loop bn tid pid ks failed i vs (w, r, errs) = Some (w', r', errs')"
    and "registry_wf r" and "all_pools G (pools_of r)" and "static_pred G"
    and "\<forall>v \<in> set vs. \<forall>k x y. G (fresh_pool k x y (vp_type v) (vp_fee v))"
  shows "registry_wf r' \<and> all_pools G (pools_of r')"
  using assms(1-3,5)
proof (induction vs arbitrary: i w r errs)
  case Nil
  then show ?case by simp
next
  case (Cons v vs)
  show ?case
  proof (cases "failed i")
    case True
    with Cons.prems show ?thesis by (intro Cons.IH) auto
  next
    case False
    obtain w1 r1 e where a: "addPool (vp_t0 v) (vp_t1 v) (vp_pool v) (vp_type v) (vp_fee v) tid (pid w) w r =
        (w1, r1, e)" by (metis prod_cases3)
    from addPool_pools [OF Cons.prems(2) a] Cons.prems(3,4)
    have r1: "registry_wf r1" "all_pools G (pools_of r1)"
      by (auto simp: all_pools_def split: if_splits)
    show ?thesis
    proof (cases e)
      case (Some err)
      with False a Cons.prems(1) obtain errs2 where
        "add_loop bn tid pid ks failed (Suc i) vs (w1, r1, errs2) = Some (w', r', errs')"
        by (auto simp: bind_Some_iff)
      from Cons.IH [OF this r1] Cons.prems(4) show ?thesis by simp
    next
      case None
      with False a Cons.prems(1) have "\<exists>k r2 e2. updatePool (vp_r0 v) (vp_r1 v) k r1 = Some (r2, e2) \<and>
          (\<exists>errs2. add_loop bn tid pid ks failed (Suc i) vs (w1, r2, errs2) = Some (w', r', errs'))"
        by (auto simp: bind_Some_iff split: option.splits)
      then obtain k r2 e2 where u: "updatePool (vp_r0 v) (vp_r1 v) k r1 = Some (r2, e2)"
        "\<exists>errs2. add_loop bn tid pid ks failed (Suc i) vs (w1, r2, errs2) = Some (w', r', errs')" by blast
      from updatePool_pools [OF r1(1) u(1)] all_pools_rel [OF _ r1(2) assms(4)]
      have "registry_wf r2" "all_pools G (pools_of r2)" by blast+
      with u(2) Cons.IH Cons.prems(4) show ?thesis by auto
    qed
  qed
qed

definition rows_ok :: "(PoolView \<Rightarrow> bool) \<Rightarrow> init_result \<Rightarrow> bool" where
  "rows_ok G res \<longleftrightarrow> (\<forall>i < length (ir_errs res). ir_errs res ! i = None \<longrightarrow>
     (\<forall>k x y. G (fresh_pool k x y (ir_poolTypes res ! i) (ir_feeBps res ! i))))"

lemma applyInitializations_pools:
  assumes "applyInitializations D w bn ps res r = Some (w', r', errs)" and "registry_wf r"
    and "init_answer_ok (length ps) res" and "all_pools G (pools_of r)" and "static_pred G" and "rows_ok G res"
  shows "all_pools G (pools_of r')"
proof -
  let ?valid = "map (valid_at ps res) (ok_rows res [0..<length ps])"
  have len: "length (ir_errs res) = length ps" using assms(3) by (simp add: init_answer_ok_def)
  have v: "\<forall>v \<in> set ?valid. \<forall>k x y. G (fresh_pool k x y (vp_type v) (vp_fee v))"
    using assms(6) by (auto simp: rows_ok_def len valid_at_def)
  note A = assms(1) [unfolded applyInitializations_def filter_loop_eq [OF assms(3)]]
  from A consider "r' = r"
    | ks failed w1 errs2 where "add_loop bn (tokenAddressToID D) (poolAddressToID D) ks failed 0 ?valid
        (w1, r, errs2) = Some (w', r', errs)"
    by (auto simp: bind_Some_iff Let_def split: if_splits prod.splits)
  then show ?thesis
  proof cases
    case 1
    with assms(4) show ?thesis by simp
  next
    case 2
    from add_loop_pools [OF this assms(2,4,5) v] show ?thesis by simp
  qed
qed

section \<open>The running system\<close>

fun init_rows :: "(PoolView \<Rightarrow> bool) \<Rightarrow> 'c init_pc \<Rightarrow> bool" where
  "init_rows G (I_Apply ps res) \<longleftrightarrow> rows_ok G res"
| "init_rows G pc \<longleftrightarrow> True"

lemma init_apply_pools:
  assumes "init_apply D w ps res s = Some (w', s', n, errs)" and "state_inv s"
    and "init_answer_ok (length ps) res" and "all_pools G (pools_in s)" and "static_pred G" and "rows_ok G res"
  shows "all_pools G (pools_in s')"
proof -
  from assms(1) obtain r where r: "applyInitializations D w 0 ps res (registry s) = Some (w', r, errs)"
    "registry s' = r"
    by (auto simp: init_apply_def updateCachedView_def bind_Some_iff Let_def split: if_splits)
  have "registry_wf (registry s)" using assms(2) by (simp add: state_inv_def)
  from applyInitializations_pools [OF r(1) this assms(3-6)] show ?thesis by (simp add: r(2))
qed

lemma initializer_step_pools:
  assumes "initializer_step D (w, s, pc) (w', s', pc')" and "state_inv s" and "init_ok pc"
    and "all_pools G (pools_in s)" and "init_rows G pc" and "static_pred G"
    and "\<forall>w ps c. rows_ok G (poolInitializer D w ps c)"
  shows "all_pools G (pools_in s') \<and> init_rows G pc'"
  using assms(1)
proof cases
  case (drained ord ps)
  then have "registry s' = registry s" by (auto simp: drain_pending_def split: if_splits)
  with drained assms(4) show ?thesis by simp
next
  case (applied ps res n errs)
  with init_apply_pools [OF applied(3) assms(2) _ assms(4,6)] assms(3,5) show ?thesis by simp
qed (use assms(4,7) in simp_all)

definition pools_inv :: "(PoolView \<Rightarrow> bool) \<Rightarrow> ('w, 'c) Deps \<Rightarrow> ('w, 'c) Conf \<Rightarrow> bool" where
  "pools_inv G D c \<longleftrightarrow> conf_inv D c \<and> all_pools G (pools_in (sys c)) \<and> init_rows G (initializer c)"

lemma pools_inv_step:
  assumes "sys_step D E c l c'" and "persistent_deps D" and "static_pred G"
    and "\<forall>w ps c. rows_ok G (poolInitializer D w ps c)" and "pools_inv G D c"
  shows "pools_inv G D c'"
proof -
  have I: "conf_inv D c" "all_pools G (pools_in (sys c))" "init_rows G (initializer c)"
    using assms(5) by (simp_all add: pools_inv_def)
  note S = sys_step_inv [OF assms(1,2) I(1)]
  show ?thesis
  proof (cases "l = Initializer")
    case False
    then have "initializer c' = initializer c" using assms(1) by (auto elim: sys_stepE)
    with S all_pools_change [OF conjunct2 [OF S] False I(2) assms(3)] I(3) show ?thesis
      by (simp add: pools_inv_def)
  next
    case True
    from assms(1) [unfolded True] obtain w' s' pc where
      "initializer_step D (world c, sys c, initializer c) (w', s', pc)"
      "c' = c\<lparr>world := w', sys := s', initializer := pc\<rparr>" by (auto elim: sys_stepE)
    with initializer_step_pools [OF this(1) _ _ I(2,3) assms(3,4)] S I(1) show ?thesis
      by (simp add: pools_inv_def conf_inv_def)
  qed
qed

lemma pools_inv_run:
  assumes "sys_run D E c c'" and "persistent_deps D" and "static_pred G"
    and "\<forall>w ps c. rows_ok G (poolInitializer D w ps c)" and "pools_inv G D c"
  shows "pools_inv G D c'"
  using assms(1) unfolding sys_run_def
  by induction (use assms(2-5) pools_inv_step in blast)+

text \<open>A pool of the snapshot, or one of type 0 with the fee of a factory of the list.\<close>

definition admitted :: "PoolInitializer \<Rightarrow> PoolView list \<Rightarrow> PoolView \<Rightarrow> bool" where
  "admitted p views v \<longleftrightarrow> (\<exists>v0 \<in> set views. same_static v0 v) \<or>
     (Type v = 0 \<and> (\<exists>fa f. factoryMap p fa = Some f \<and> FeeBps v = kf_FeeBps f))"

lemma admitted_static: "static_pred (admitted p views)"
  unfolding static_pred_def admitted_def by (auto simp: same_static_def)

lemma Initialize_admitted: "rows_ok (admitted p views) (Initialize p bta sigs ce calls ps)"
  unfolding rows_ok_def
proof (intro allI impI)
  fix i k x y
  let ?res = "Initialize p bta sigs ce calls ps"
  assume i: "i < length (ir_errs ?res)" "ir_errs ?res ! i = None"
  have n: "i < length ps" using i(1) by (simp add: Initialize_eq init_slots_def)
  note N = init_slots_nth [OF n, where w = "\<lambda>i. init_worker p bta sigs (ce i) (calls i) (ps ! i)"]
  have "is_err (init_worker p bta sigs (ce i) (calls i) (ps ! i)) = None"
    using i(2) by (simp add: Initialize_eq N)
  then obtain fa f where "factoryMap p fa = Some f"
    "is_type (init_worker p bta sigs (ce i) (calls i) (ps ! i)) = 0"
    "is_fee (init_worker p bta sigs (ce i) (calls i) (ps ! i)) = kf_FeeBps f"
    by (rule init_worker_ok) simp
  then show "admitted p views (fresh_pool k x y (ir_poolTypes ?res ! i) (ir_feeBps ?res ! i))"
    by (auto simp: admitted_def fresh_pool_def Initialize_eq N)
qed

text \<open>
  C6. No interleaving lets a pool past the whitelist. In the running system wired with the
  repository's initializer, every pool readers ever see is one of the snapshot, with its tokens,
  type and fee, or has type 0 and the fee of a factory on the initializer's list.
\<close>

theorem only_whitelisted_pools:
  assumes "NewUniswapV2SystemFromViews (wired_config u) views m = Some (m', Inr (wired u, s))"
    and "distinct (map ID views)" and "sys_run (wired u) E (start_conf (wired u) s w) c"
    and "v \<in> set (View (sys c))"
  shows "(\<exists>v0 \<in> set views. same_static v0 v) \<or>
    (Type v = 0 \<and> (\<exists>fa f. factoryMap (su_initializer u) fa = Some f \<and> FeeBps v = kf_FeeBps f))"
proof -
  let ?G = "admitted (su_initializer u) views"
  have s: "state_inv s" by (rule constructed_inv [OF assms(1,2)])
  have "View s = views"
    using assms(1) by (auto simp: NewUniswapV2SystemFromViews_def bind_Some_iff load_iff new_system_cases
        View_def initial_state_def split: option.splits if_splits)
  have "all_pools ?G (pools_in s)"
    unfolding all_pools_def
  proof (intro allI impI)
    fix k v
    assume k: "pools_in s k = Some v"
    with pools_of_ID [OF registry_wf_safe [OF state_invD(1) [OF s]]] have "ID v = k" by blast
    with k have "v \<in> set views" using View_pools(1) [OF s] \<open>View s = views\<close> by simp
    then show "?G v" unfolding admitted_def using same_static_refl by blast
  qed
  then have "pools_inv ?G (wired u) (start_conf (wired u) s w)"
    unfolding pools_inv_def using start_conf_inv [OF s, of "wired u" w]
    by (simp add: start_conf_def) (simp add: startInitializer_def)
  from pools_inv_run [OF assms(3) wired.persistent_deps_axioms admitted_static _ this]
  have "pools_inv ?G (wired u) c" by (simp add: Initialize_admitted)
  then have "state_inv (sys c)" "all_pools ?G (pools_in (sys c))"
    by (simp_all add: pools_inv_def conf_inv_def)
  with View_pools(1) [of "sys c" v] assms(4) show ?thesis
    by (auto simp: all_pools_def admitted_def)
qed

theorem only_whitelisted_pools_witness:
  "\<exists>c v. sys_run (wired (example_setup 1)) (example_env [swap_log 7, sync_log 7 40 50])
      (start_conf (wired (example_setup 1)) tracking_state registered_world) c \<and>
    v \<in> set (View (sys c)) \<and> Reserve0 v = Some 40 \<and>
    ((\<exists>v0 \<in> set [example_pool]. same_static v0 v) \<or>
     (Type v = 0 \<and> (\<exists>fa f. factoryMap (su_initializer (example_setup 1)) fa = Some f \<and>
        FeeBps v = kf_FeeBps f)))"
proof (rule example_run, goal_cases)
  case (1 c)
  note run = keeping_run [OF 1(1)]
  have "distinct (map ID [example_pool])" by simp
  from only_whitelisted_pools [OF example_system this run 1(2)] run 1(2) show ?case
    by (intro exI [of _ c] exI [of _ "example_pool\<lparr>Reserve0 := Some 40, Reserve1 := Some 50\<rparr>"]) simp
qed

end
