(* ===== verification/Heap_Registry.thy ===== *)
theory Heap_Registry
  imports Registry_Spec
begin

text \<open>
  The registry and its views with their \<^verbatim>\<open>*big.Int\<close> pointers. The other theories read a reserve
  as its value, which is right only as long as no two holders of a number share it by accident.
  Here the numbers live in a heap, the operations of \<^verbatim>\<open>src/registry.go\<close> allocate, write and copy
  pointers as the code does, and the lemmas show that they refine the operations on values and
  write to nothing but the registry's own numbers.
\<close>

section \<open>The heap\<close>

text \<open>A \<^verbatim>\<open>*big.Int\<close>; \<^const>\<open>None\<close> is nil. Pointers from \<open>brk\<close> on are not yet allocated.\<close>

type_synonym bigref = "nat option"

record Heap =
  store :: "nat \<Rightarrow> int"
  brk :: nat

text \<open>\<^verbatim>\<open>big.NewInt(v)\<close>, \<^verbatim>\<open>new(big.Int).Set(p)\<close> and \<^verbatim>\<open>z.Set(p)\<close>\<close>

definition NewInt :: "int \<Rightarrow> Heap \<Rightarrow> bigref \<times> Heap" where
  "NewInt v h = (Some (brk h), \<lparr>store = (store h)(brk h := v), brk = Suc (brk h)\<rparr>)"

definition new_set :: "bigref \<Rightarrow> Heap \<Rightarrow> (bigref \<times> Heap) go" where
  "new_set p h = do { q \<leftarrow> p; Some (NewInt (store h q) h) }"

definition set_ref :: "bigref \<Rightarrow> bigref \<Rightarrow> Heap \<Rightarrow> Heap go" where
  "set_ref z p h = do { q \<leftarrow> p; a \<leftarrow> z; Some (h\<lparr>store := (store h)(a := store h q)\<rparr>) }"

definition val :: "Heap \<Rightarrow> bigref \<Rightarrow> bigptr" where
  "val h p = map_option (store h) p"

section \<open>The operations\<close>

record RefView =
  rv_ID :: u64
  rv_Token0 :: u64
  rv_Token1 :: u64
  rv_Reserve0 :: bigref
  rv_Reserve1 :: bigref
  rv_Type :: u8
  rv_FeeBps :: u16

type_synonym RefRegistry = "bigref Columns"

definition ref_fill_row :: "nat \<times> RefView \<Rightarrow> Heap \<times> RefRegistry \<Rightarrow> (Heap \<times> RefRegistry) go" where
  "ref_fill_row = (\<lambda>(i, view) (h, r). do {
     cid \<leftarrow> set_idx (ids r) i (rv_ID view);
     ct0 \<leftarrow> set_idx (token0 r) i (rv_Token0 view);
     ct1 \<leftarrow> set_idx (token1 r) i (rv_Token1 view);
     cty \<leftarrow> set_idx (pooltype r) i (rv_Type view);
     cfee \<leftarrow> set_idx (fee r) i (rv_FeeBps view);
     (q0, h1) \<leftarrow> new_set (rv_Reserve0 view) h;
     cr0 \<leftarrow> set_idx (reserve0 r) i q0;
     (q1, h2) \<leftarrow> new_set (rv_Reserve1 view) h1;
     cr1 \<leftarrow> set_idx (reserve1 r) i q1;
     Some (h2, \<lparr>ids = cid, token0 = ct0, token1 = ct1, reserve0 = cr0, reserve1 = cr1,
           pooltype = cty, fee = cfee, idToIndex = (idToIndex r)(rv_ID view \<mapsto> i)\<rparr>) })"

definition ref_load :: "RefView list \<Rightarrow> Heap \<Rightarrow> (Heap \<times> RefRegistry) go" where
  "ref_load views h =
     (let n = length views in
      foldM ref_fill_row (enumerate 0 views)
        (h, \<lparr>ids = replicate n 0, token0 = replicate n 0, token1 = replicate n 0,
           reserve0 = replicate n None, reserve1 = replicate n None, pooltype = replicate n 0,
           fee = replicate n 0, idToIndex = Map.empty\<rparr>))"

definition ref_addPool ::
  "address \<Rightarrow> address \<Rightarrow> address \<Rightarrow> u8 \<Rightarrow> u16 \<Rightarrow> 'w token_to_id \<Rightarrow> to_id \<Rightarrow> 'w \<Rightarrow> Heap \<times> RefRegistry
     \<Rightarrow> 'w \<times> (Heap \<times> RefRegistry) \<times> go_error option" where
  "ref_addPool t0 t1 pool poolType feeBps tokenAddressToID poolAddressToID w = (\<lambda>(h, r).
     (case poolAddressToID pool of
        Inl err \<Rightarrow> (w, (h, r), Some (DependencyError ''poolAddressToID'' pool err))
      | Inr poolID \<Rightarrow>
        if idToIndex r poolID \<noteq> None then (w, (h, r), Some ErrPoolExists)
        else (case tokenAddressToID w t0 of
          (w1, Inl err) \<Rightarrow> (w1, (h, r), Some (DependencyError ''tokenAddressToID'' t0 err))
        | (w1, Inr tokenID0) \<Rightarrow>
          (case tokenAddressToID w1 t1 of
            (w2, Inl err) \<Rightarrow> (w2, (h, r), Some (DependencyError ''tokenAddressToID'' t1 err))
          | (w2, Inr tokenID1) \<Rightarrow>
            (let (q0, h1) = NewInt 0 h; (q1, h2) = NewInt 0 h1;
                 newIndex = length (ids r @ [poolID]) - 1 in
             (w2, (h2,
              \<lparr>ids = ids r @ [poolID], token0 = token0 r @ [tokenID0],
               token1 = token1 r @ [tokenID1], reserve0 = reserve0 r @ [q0],
               reserve1 = reserve1 r @ [q1], pooltype = pooltype r @ [poolType],
               fee = fee r @ [feeBps], idToIndex = (idToIndex r)(poolID \<mapsto> newIndex)\<rparr>), None))))))"

text \<open>The update writes into the registry's numbers and leaves its pointers as they are.\<close>

definition ref_updatePool ::
  "bigref \<Rightarrow> bigref \<Rightarrow> u64 \<Rightarrow> Heap \<times> RefRegistry \<Rightarrow> ((Heap \<times> RefRegistry) \<times> go_error option) go" where
  "ref_updatePool r0 r1 poolID = (\<lambda>(h, r).
     (case idToIndex r poolID of
        None \<Rightarrow> Some ((h, r), Some ErrPoolNotFound)
      | Some index \<Rightarrow> do {
          z0 \<leftarrow> idx (reserve0 r) index;
          h1 \<leftarrow> set_ref z0 r0 h;
          z1 \<leftarrow> idx (reserve1 r) index;
          h2 \<leftarrow> set_ref z1 r1 h1;
          Some ((h2, r), None) }))"

text \<open>\<^const>\<open>deletePool\<close> moves reserves whatever they are; here it moves pointers.\<close>

definition ref_deletePool ::
  "u64 \<Rightarrow> Heap \<times> RefRegistry \<Rightarrow> ((Heap \<times> RefRegistry) \<times> go_error option) go" where
  "ref_deletePool poolID = (\<lambda>(h, r). do { (r', e) \<leftarrow> deletePool poolID r; Some ((h, r'), e) })"

definition ref_row_view :: "RefRegistry \<Rightarrow> nat \<Rightarrow> Heap \<Rightarrow> (RefView \<times> Heap) go" where
  "ref_row_view r i h = do {
     k \<leftarrow> idx (ids r) i;
     t0 \<leftarrow> idx (token0 r) i;
     t1 \<leftarrow> idx (token1 r) i;
     p0 \<leftarrow> idx (reserve0 r) i;
     (q0, h1) \<leftarrow> new_set p0 h;
     p1 \<leftarrow> idx (reserve1 r) i;
     (q1, h2) \<leftarrow> new_set p1 h1;
     ty \<leftarrow> idx (pooltype r) i;
     f \<leftarrow> idx (fee r) i;
     Some (\<lparr>rv_ID = k, rv_Token0 = t0, rv_Token1 = t1, rv_Reserve0 = q0, rv_Reserve1 = q1,
            rv_Type = ty, rv_FeeBps = f\<rparr>, h2) }"

fun ref_view_rows :: "RefRegistry \<Rightarrow> nat list \<Rightarrow> Heap \<Rightarrow> (RefView list \<times> Heap) go" where
  "ref_view_rows r [] h = Some ([], h)"
| "ref_view_rows r (i # is) h = do {
     (v, h1) \<leftarrow> ref_row_view r i h;
     (vs, h2) \<leftarrow> ref_view_rows r is h1;
     Some (v # vs, h2) }"

definition ref_viewRegistry :: "Heap \<times> RefRegistry \<Rightarrow> (RefView list \<times> Heap) go" where
  "ref_viewRegistry = (\<lambda>(h, r). ref_view_rows r [0..<length (ids r)] h)"

section \<open>Reading values\<close>

definition nums :: "Heap \<Rightarrow> bigref list \<Rightarrow> int list" where
  "nums h ps = map (\<lambda>p. store h (the p)) ps"

definition read_reg :: "Heap \<Rightarrow> RefRegistry \<Rightarrow> UniswapV2Registry" where
  "read_reg h r = \<lparr>ids = ids r, token0 = token0 r, token1 = token1 r,
     reserve0 = nums h (reserve0 r), reserve1 = nums h (reserve1 r),
     pooltype = pooltype r, fee = fee r, idToIndex = idToIndex r\<rparr>"

definition read_view :: "Heap \<Rightarrow> RefView \<Rightarrow> PoolView" where
  "read_view h v = \<lparr>ID = rv_ID v, Token0 = rv_Token0 v, Token1 = rv_Token1 v,
     Reserve0 = val h (rv_Reserve0 v), Reserve1 = val h (rv_Reserve1 v), Type = rv_Type v,
     FeeBps = rv_FeeBps v\<rparr>"

text \<open>The numbers a registry owns, and what keeps them apart: every row has two of its own.\<close>

definition owned :: "RefRegistry \<Rightarrow> bigref set" where
  "owned r = set (reserve0 r @ reserve1 r)"

definition ref_ok :: "Heap \<Rightarrow> RefRegistry \<Rightarrow> bool" where
  "ref_ok h r \<longleftrightarrow> distinct (reserve0 r @ reserve1 r) \<and> (\<forall>x \<in> owned r. \<exists>p < brk h. x = Some p)"

text \<open>From one state to a later one: no number but the registry's own has changed, and it has not
  come to own a number that was there before.\<close>

definition frame :: "Heap \<Rightarrow> RefRegistry \<Rightarrow> Heap \<Rightarrow> RefRegistry \<Rightarrow> bool" where
  "frame h r h' r' \<longleftrightarrow> brk h \<le> brk h' \<and>
     (\<forall>p < brk h. Some p \<notin> owned r \<longrightarrow> store h' p = store h p \<and> Some p \<notin> owned r')"

lemma frame_refl [simp]: "frame h r h r"
  by (simp add: frame_def)

lemma frame_trans: "frame h r h1 r1 \<Longrightarrow> frame h1 r1 h2 r2 \<Longrightarrow> frame h r h2 r2"
  by (auto simp: frame_def)

lemma read_reg_simps [simp]:
  "ids (read_reg h r) = ids r" "token0 (read_reg h r) = token0 r" "token1 (read_reg h r) = token1 r"
  "reserve0 (read_reg h r) = nums h (reserve0 r)" "reserve1 (read_reg h r) = nums h (reserve1 r)"
  "pooltype (read_reg h r) = pooltype r" "fee (read_reg h r) = fee r"
  "idToIndex (read_reg h r) = idToIndex r"
  by (simp_all add: read_reg_def)

lemma length_nums [simp]: "length (nums h ps) = length ps"
  by (simp add: nums_def)

lemma registry_safe_read [simp]: "registry_safe (read_reg h r) \<longleftrightarrow> registry_safe r"
  unfolding registry_safe_def columns_ok_def read_reg_simps length_nums ..

lemma ref_ok_None: "ref_ok h r \<Longrightarrow> None \<notin> owned r"
  by (auto simp: ref_ok_def)

lemma nums_cong: "(\<And>p. p \<in> set ps \<Longrightarrow> store h (the p) = store h' (the p)) \<Longrightarrow> nums h ps = nums h' ps"
  unfolding nums_def by (rule map_cong [OF refl])

lemma nums_other:
  assumes "None \<notin> set ps" and "Some a \<notin> set ps"
  shows "nums (h\<lparr>store := (store h)(a := v)\<rparr>) ps = nums h ps"
proof (rule nums_cong)
  fix p
  assume "p \<in> set ps"
  with assms show "store (h\<lparr>store := (store h)(a := v)\<rparr>) (the p) = store h (the p)" by (cases p) auto
qed

lemma nums_update:
  assumes "distinct ps" and "None \<notin> set ps" and "i < length ps" and "ps ! i = Some a"
  shows "nums (h\<lparr>store := (store h)(a := v)\<rparr>) ps = (nums h ps)[i := v]"
proof (rule nth_equalityI)
  fix j
  assume "j < length (nums (h\<lparr>store := (store h)(a := v)\<rparr>) ps)"
  then have j: "j < length ps" by simp
  then have "ps ! j \<noteq> None" using assms(2) by (metis nth_mem)
  moreover have "ps ! j = ps ! i \<Longrightarrow> j = i" using assms(1,3) j by (simp add: nth_eq_iff_index_eq)
  ultimately show "nums (h\<lparr>store := (store h)(a := v)\<rparr>) ps ! j = (nums h ps)[i := v] ! j"
    using j assms(3,4) by (auto simp: nums_def nth_list_update)
qed simp

text \<open>Writing where the registry owns nothing, and allocating, are invisible to it.\<close>

lemma read_reg_foreign:
  assumes "ref_ok h r" and "Some a \<notin> owned r"
  shows "read_reg (h\<lparr>store := (store h)(a := v)\<rparr>) r = read_reg h r"
  using assms ref_ok_None [OF assms(1)] by (simp add: read_reg_def owned_def nums_other)

lemma NewInt_eq: "NewInt v h = (Some (brk h), h\<lparr>store := (store h)(brk h := v)\<rparr>\<lparr>brk := Suc (brk h)\<rparr>)"
  by (simp add: NewInt_def)

lemma read_reg_brk [simp]: "read_reg (h\<lparr>brk := n\<rparr>) r = read_reg h r"
  by (simp add: read_reg_def nums_def)

lemma read_reg_NewInt:
  assumes "ref_ok h r"
  shows "read_reg (snd (NewInt v h)) r = read_reg h r" and "ref_ok (snd (NewInt v h)) r"
    and "frame h r (snd (NewInt v h)) r"
proof -
  have "Some (brk h) \<notin> owned r" using assms by (auto simp: ref_ok_def)
  from read_reg_foreign [OF assms this]
  show "read_reg (snd (NewInt v h)) r = read_reg h r" by (simp add: NewInt_eq)
  show "ref_ok (snd (NewInt v h)) r"
    using assms by (auto simp: ref_ok_def NewInt_def intro: less_SucI)
  show "frame h r (snd (NewInt v h)) r" by (simp add: frame_def NewInt_def)
qed

section \<open>Deleting, updating and adding\<close>

lemma map_swap_remove: "i < length xs \<Longrightarrow> map f (swap_remove xs i) = swap_remove (map f xs) i"
  by (rule nth_equalityI) (simp_all add: nth_swap_remove)

lemma set_swap_remove: "set (swap_remove xs i) \<subseteq> set xs"
proof
  fix x
  assume "x \<in> set (swap_remove xs i)"
  then obtain j where "j < length xs - 1" "x = swap_remove xs i ! j" by (auto simp: in_set_conv_nth)
  then show "x \<in> set xs" by (auto simp: nth_swap_remove)
qed

lemma distinct_swap_remove: "distinct xs \<Longrightarrow> distinct (swap_remove xs i)"
  by (auto simp: distinct_conv_nth nth_swap_remove)

lemma columns_len:
  assumes "registry_safe r"
  shows "length (reserve0 r) = length (ids r)" "length (reserve1 r) = length (ids r)"
proof -
  have "columns_ok r" using assms by (simp only: registry_safe_def)
  then show "length (reserve0 r) = length (ids r)" "length (reserve1 r) = length (ids r)"
    unfolding columns_ok_def by blast+
qed

lemma nums_swap_remove: "i < length xs \<Longrightarrow> nums h (swap_remove xs i) = swap_remove (nums h xs) i"
  by (simp add: nums_def map_swap_remove)

lemma ref_deletePool_refines:
  assumes "ref_ok h r" and "registry_safe r"
  obtains r' e where "ref_deletePool k (h, r) = Some ((h, r'), e)"
    "deletePool k (read_reg h r) = Some (read_reg h r', e)" "ref_ok h r'" "frame h r h r'"
proof (cases "idToIndex r k")
  case None
  then show ?thesis using assms(1)
    by (intro that [of r "Some ErrPoolNotFound"]) (simp_all add: ref_deletePool_def deletePool_missing)
next
  case (Some i)
  let ?r = "drop_row r k i"
  have i: "i < length (ids r)" using registry_safe_indexD [OF assms(2) Some] by simp
  then have len: "i < length (reserve0 r)" "i < length (reserve1 r)"
    using columns_len [OF assms(2)] by simp_all
  have cols: "reserve0 ?r = swap_remove (reserve0 r) i" "reserve1 ?r = swap_remove (reserve1 r) i"
    by (simp_all add: drop_row_def)
  have sub: "owned ?r \<subseteq> owned r"
    unfolding owned_def cols set_append by (intro Un_mono set_swap_remove)
  have "distinct (reserve0 ?r @ reserve1 ?r)"
    using assms(1) set_swap_remove [of "reserve0 r" i] set_swap_remove [of "reserve1 r" i]
    by (auto simp: cols ref_ok_def distinct_swap_remove)
  with sub assms(1) have "ref_ok h ?r" by (auto simp: ref_ok_def)
  moreover have "frame h r h ?r" using sub by (auto simp: frame_def)
  moreover have "drop_row (read_reg h r) k i = read_reg h ?r"
    using len by (simp add: drop_row_def read_reg_def nums_swap_remove Let_def)
  ultimately show ?thesis
    using deletePool_eq [OF assms(2) Some] deletePool_eq [of "read_reg h r" k i] assms(2) Some
    by (intro that [of ?r None]) (simp_all add: ref_deletePool_def)
qed

lemma ref_updatePool_refines:
  assumes "ref_ok h r" and "registry_safe r" and "r0 \<notin> owned r" and "r1 \<notin> owned r"
  shows "(case ref_updatePool r0 r1 k (h, r) of
      None \<Rightarrow> updatePool (val h r0) (val h r1) k (read_reg h r) = None
    | Some ((h', r'), e) \<Rightarrow> updatePool (val h r0) (val h r1) k (read_reg h r) = Some (read_reg h' r', e) \<and>
        r' = r \<and> ref_ok h' r \<and> frame h r h' r)"
proof (cases "idToIndex r k")
  case None
  then show ?thesis using assms(1) by (simp add: ref_updatePool_def updatePool_def)
next
  case (Some i)
  have i: "i < length (reserve0 r)" "i < length (reserve1 r)"
    using registry_safe_indexD [OF assms(2) Some] columns_len [OF assms(2)] by simp_all
  have own: "reserve0 r ! i \<in> owned r" "reserve1 r ! i \<in> owned r" using i by (simp_all add: owned_def)
  then obtain a b where ab: "reserve0 r ! i = Some a" "reserve1 r ! i = Some b"
    using assms(1) unfolding ref_ok_def by blast
  have d: "distinct (reserve0 r)" "distinct (reserve1 r)" "set (reserve0 r) \<inter> set (reserve1 r) = {}"
    using assms(1) by (simp_all add: ref_ok_def)
  have n: "None \<notin> set (reserve0 r)" "None \<notin> set (reserve1 r)"
    using ref_ok_None [OF assms(1)] by (simp_all add: owned_def)
  have o: "Some a \<in> set (reserve0 r)" "Some b \<in> set (reserve1 r)"
    using i ab by (metis nth_mem)+
  then have o': "Some b \<notin> set (reserve0 r)" "Some a \<notin> set (reserve1 r)" using d(3) by blast+
  show ?thesis
  proof (cases "r0 = None \<or> r1 = None")
    case True
    then show ?thesis using Some i ab
      by (auto simp: ref_updatePool_def updatePool_def set_ref_def val_def split: Option.bind_splits)
  next
    case False
    then obtain p q where pq: "r0 = Some p" "r1 = Some q" by auto
    with assms(4) own ab have "q \<noteq> a" by auto
    let ?h1 = "h\<lparr>store := (store h)(a := store h p)\<rparr>"
    let ?h2 = "?h1\<lparr>store := (store ?h1)(b := store h q)\<rparr>"
    have run: "ref_updatePool r0 r1 k (h, r) = Some ((?h2, r), None)"
      using Some i ab pq \<open>q \<noteq> a\<close> by (simp add: ref_updatePool_def set_ref_def)
    have "nums ?h2 (reserve0 r) = (nums h (reserve0 r))[i := store h p]"
      by (simp only: nums_other [OF n(1) o'(1)] nums_update [OF d(1) n(1) i(1) ab(1)])
    moreover have "nums ?h2 (reserve1 r) = (nums h (reserve1 r))[i := store h q]"
      by (simp only: nums_update [OF d(2) n(2) i(2) ab(2)] nums_other [OF n(2) o'(2)])
    ultimately have "updatePool (val h r0) (val h r1) k (read_reg h r) = Some (read_reg ?h2 r, None)"
      using Some i pq by (simp add: updatePool_def val_def read_reg_def)
    moreover have "ref_ok ?h2 r" using assms(1) by (simp add: ref_ok_def)
    moreover have "frame h r ?h2 r" using o by (auto simp: frame_def owned_def)
    ultimately show ?thesis by (simp add: run)
  qed
qed

lemma ref_addPool_refines:
  assumes "ref_ok h r" and "ref_addPool t0 t1 p ty f tid pid w (h, r) = (w', (h', r'), e)"
  shows "addPool t0 t1 p ty f tid pid w (read_reg h r) = (w', read_reg h' r', e) \<and>
    ref_ok h' r' \<and> frame h r h' r'"
proof (cases e)
  case (Some err)
  then have "r' = r" "h' = h"
    using assms(2) by (auto simp: ref_addPool_def NewInt_def Let_def split: sum.splits if_splits prod.splits)
  with assms Some show ?thesis
    by (auto simp: ref_addPool_def addPool_def NewInt_def Let_def split: sum.splits if_splits prod.splits)
next
  case None
  then obtain k x y w1 where k: "pid p = Inr k" "idToIndex r k = None" "tid w t0 = (w1, Inr x)"
    "tid w1 t1 = (w', Inr y)"
    and h': "h' = snd (NewInt 0 (snd (NewInt 0 h)))"
    and r': "r' = \<lparr>ids = ids r @ [k], token0 = token0 r @ [x], token1 = token1 r @ [y],
      reserve0 = reserve0 r @ [Some (brk h)], reserve1 = reserve1 r @ [Some (Suc (brk h))],
      pooltype = pooltype r @ [ty], fee = fee r @ [f], idToIndex = (idToIndex r)(k \<mapsto> length (ids r))\<rparr>"
    using assms(2) by (auto simp: ref_addPool_def NewInt_def Let_def split: sum.splits if_splits prod.splits)
  note N = read_reg_NewInt [OF assms(1), of 0]
  note M = read_reg_NewInt [OF N(2), of 0]
  have new: "Some (brk h) \<notin> owned r" "Some (Suc (brk h)) \<notin> owned r"
    using assms(1) by (auto simp: ref_ok_def)
  have own: "owned r' = owned r \<union> {Some (brk h), Some (Suc (brk h))}" by (auto simp: owned_def r')
  have "\<exists>p < brk h'. q = Some p" if "q \<in> owned r'" for q
    using that assms(1) unfolding own by (auto simp: ref_ok_def h' NewInt_def intro: less_SucI)
  moreover have "distinct (reserve0 r' @ reserve1 r')"
    using assms(1) new by (simp add: ref_ok_def r' owned_def)
  ultimately have "ref_ok h' r'" by (simp add: ref_ok_def)
  moreover have "frame h r h' r'" by (simp add: frame_def own h' NewInt_def)
  moreover have "nums h' (reserve0 r) = nums h (reserve0 r)" "nums h' (reserve1 r) = nums h (reserve1 r)"
    using N(1) M(1) by (simp_all add: h' read_reg_def)
  then have "read_reg h' r' = append_row (read_reg h r) k x y ty f"
    by (simp add: read_reg_def append_row_def r' nums_def) (simp add: h' NewInt_def)
  then have "addPool t0 t1 p ty f tid pid w (read_reg h r) = (w', read_reg h' r', e)"
    using k None by (simp add: addPool_def append_row_def)
  ultimately show ?thesis by blast
qed

section \<open>Viewing\<close>

definition view_refs :: "RefView list \<Rightarrow> bigref list" where
  "view_refs vs = concat (map (\<lambda>v. [rv_Reserve0 v, rv_Reserve1 v]) vs)"

text \<open>The two numbers a row view allocates.\<close>

lemma ref_row_view_eq:
  assumes "ref_ok h r" and "registry_safe r" and "i < length (ids r)"
  obtains h' where "ref_row_view r i h = Some (\<lparr>rv_ID = ids r ! i, rv_Token0 = token0 r ! i,
      rv_Token1 = token1 r ! i, rv_Reserve0 = Some (brk h), rv_Reserve1 = Some (Suc (brk h)),
      rv_Type = pooltype r ! i, rv_FeeBps = fee r ! i\<rparr>, h')"
    "brk h' = Suc (Suc (brk h))" "read_reg h' r = read_reg h r" "ref_ok h' r" "frame h r h' r"
    "store h' (brk h) = nums h (reserve0 r) ! i" "store h' (Suc (brk h)) = nums h (reserve1 r) ! i"
proof -
  have i: "i < length (reserve0 r)" "i < length (reserve1 r)"
    using assms(3) columns_len [OF assms(2)] by simp_all
  then have "reserve0 r ! i \<in> owned r" "reserve1 r ! i \<in> owned r" by (simp_all add: owned_def)
  then obtain a b where ab: "reserve0 r ! i = Some a" "reserve1 r ! i = Some b" "b < brk h"
    using assms(1) unfolding ref_ok_def by blast
  let ?h1 = "snd (NewInt (store h a) h)" let ?h2 = "snd (NewInt (store ?h1 b) ?h1)"
  note N = read_reg_NewInt [OF assms(1), of "store h a"]
  note M = read_reg_NewInt [OF N(2), of "store ?h1 b"]
  have b: "store ?h1 b = store h b" using ab(3) by (simp add: NewInt_def)
  have run: "ref_row_view r i h = Some (\<lparr>rv_ID = ids r ! i, rv_Token0 = token0 r ! i,
      rv_Token1 = token1 r ! i, rv_Reserve0 = Some (brk h), rv_Reserve1 = Some (Suc (brk h)),
      rv_Type = pooltype r ! i, rv_FeeBps = fee r ! i\<rparr>, ?h2)"
    using assms(2,3) i ab by (simp add: ref_row_view_def new_set_def NewInt_def)
  show ?thesis
  proof (rule that [OF run])
    show "read_reg ?h2 r = read_reg h r" using N(1) M(1) by simp
    show "ref_ok ?h2 r" "frame h r ?h2 r" using M(2,3) N(3) frame_trans by blast+
  qed (use i ab b in \<open>simp_all add: NewInt_def nums_def\<close>)
qed

lemma ref_view_rows_spec:
  assumes "ref_ok h r" and "registry_safe r" and "\<forall>i \<in> set is. i < length (ids r)"
  shows "\<exists>vs h'. ref_view_rows r is h = Some (vs, h') \<and>
    map (read_view h') vs = map (row (read_reg h r)) is \<and> read_reg h' r = read_reg h r \<and>
    ref_ok h' r \<and> frame h r h' r \<and> distinct (view_refs vs) \<and>
    set (view_refs vs) \<subseteq> Some ` {brk h..<brk h'}"
  using assms
proof (induction "is" arbitrary: h)
  case Nil
  then show ?case by (simp add: view_refs_def)
next
  case (Cons i "is")
  from Cons.prems(3) have i: "i < length (ids r)" by simp
  obtain h1 v where v: "ref_row_view r i h = Some (v, h1)" "v = \<lparr>rv_ID = ids r ! i, rv_Token0 = token0 r ! i,
      rv_Token1 = token1 r ! i, rv_Reserve0 = Some (brk h), rv_Reserve1 = Some (Suc (brk h)),
      rv_Type = pooltype r ! i, rv_FeeBps = fee r ! i\<rparr>"
    and h1: "brk h1 = Suc (Suc (brk h))" "read_reg h1 r = read_reg h r" "ref_ok h1 r" "frame h r h1 r"
    "store h1 (brk h) = nums h (reserve0 r) ! i" "store h1 (Suc (brk h)) = nums h (reserve1 r) ! i"
    using ref_row_view_eq [OF Cons.prems(1,2) i] by metis
  obtain vs h2 where h2: "ref_view_rows r is h1 = Some (vs, h2)"
    "map (read_view h2) vs = map (row (read_reg h1 r)) is" "read_reg h2 r = read_reg h1 r"
    "ref_ok h2 r" "frame h1 r h2 r" "distinct (view_refs vs)"
    "set (view_refs vs) \<subseteq> Some ` {brk h1..<brk h2}"
    using Cons.IH [OF h1(3) Cons.prems(2)] Cons.prems(3) by auto
  have new: "Some (brk h) \<notin> owned r" "Some (Suc (brk h)) \<notin> owned r"
    using Cons.prems(1) by (auto simp: ref_ok_def)
  then have "store h2 (brk h) = store h1 (brk h)" "store h2 (Suc (brk h)) = store h1 (Suc (brk h))"
    using h2(5) h1(1) by (simp_all add: frame_def)
  then have row: "read_view h2 v = row (read_reg h r) i"
    using h1(5,6) by (simp add: read_view_def row_def val_def v(2))
  have refs: "view_refs (v # vs) = Some (brk h) # Some (Suc (brk h)) # view_refs vs"
    by (simp add: view_refs_def v(2))
  have "brk h1 \<le> brk h2" using h2(5) by (simp add: frame_def)
  then have "distinct (view_refs (v # vs)) \<and> set (view_refs (v # vs)) \<subseteq> Some ` {brk h..<brk h2}"
    unfolding refs using h2(6,7) h1(1) by force
  moreover have "ref_view_rows r (i # is) h = Some (v # vs, h2)" using v(1) h2(1) by simp
  moreover have "map (read_view h2) (v # vs) = map (row (read_reg h r)) (i # is)"
    using row h2(2) h1(2) by simp
  ultimately show ?case using h2(3,4) h1(2) frame_trans [OF h1(4) h2(5)] by metis
qed

lemma ref_viewRegistry_refines:
  assumes "ref_ok h r" and "registry_safe r"
  obtains vs h' where "ref_viewRegistry (h, r) = Some (vs, h')"
    "viewRegistry (read_reg h r) = Some (map (read_view h') vs)" "read_reg h' r = read_reg h r"
    "ref_ok h' r" "frame h r h' r" "distinct (view_refs vs)" "set (view_refs vs) \<subseteq> Some ` {brk h..<brk h'}"
proof -
  have "\<forall>i \<in> set [0..<length (ids r)]. i < length (ids r)" by simp
  from ref_view_rows_spec [OF assms this] obtain vs h' where
    V: "ref_view_rows r [0..<length (ids r)] h = Some (vs, h')"
    "map (read_view h') vs = map (row (read_reg h r)) [0..<length (ids r)]"
    "read_reg h' r = read_reg h r" "ref_ok h' r" "frame h r h' r" "distinct (view_refs vs)"
    "set (view_refs vs) \<subseteq> Some ` {brk h..<brk h'}" by blast
  have "viewRegistry (read_reg h r) = Some (map (read_view h') vs)"
    using viewRegistry_eq [of "read_reg h r"] assms(2) V(2) by simp
  with V show ?thesis by (intro that [of vs h']) (simp_all add: ref_viewRegistry_def)
qed

section \<open>Loading\<close>

definition filled :: "Heap \<Rightarrow> RefView list \<Rightarrow> bigref list \<Rightarrow> bigref list \<Rightarrow> nat \<Rightarrow> RefRegistry" where
  "filled h0 us q0s q1s m =
     \<lparr>ids = map rv_ID us @ replicate m 0, token0 = map rv_Token0 us @ replicate m 0,
      token1 = map rv_Token1 us @ replicate m 0, reserve0 = q0s @ replicate m None,
      reserve1 = q1s @ replicate m None, pooltype = map rv_Type us @ replicate m 0,
      fee = map rv_FeeBps us @ replicate m 0, idToIndex = last_index (map (read_view h0) us)\<rparr>"

text \<open>The copies made so far are new, distinct, and have the values of the originals, which are
  as they were.\<close>

definition fill_inv :: "Heap \<Rightarrow> Heap \<Rightarrow> RefView list \<Rightarrow> bigref list \<Rightarrow> bigref list \<Rightarrow> bool" where
  "fill_inv h0 h us q0s q1s \<longleftrightarrow> brk h0 \<le> brk h \<and> (\<forall>p < brk h0. store h p = store h0 p) \<and>
     distinct (q0s @ q1s) \<and> set (q0s @ q1s) \<subseteq> Some ` {brk h0..<brk h} \<and>
     nums h q0s = map (\<lambda>v. store h0 (the (rv_Reserve0 v))) us \<and>
     nums h q1s = map (\<lambda>v. store h0 (the (rv_Reserve1 v))) us"

definition view_refs_ok :: "Heap \<Rightarrow> RefView \<Rightarrow> bool" where
  "view_refs_ok h v \<longleftrightarrow>
     (\<exists>p q. rv_Reserve0 v = Some p \<and> rv_Reserve1 v = Some q \<and> p < brk h \<and> q < brk h)"

lemma ref_fill_row_step:
  assumes "fill_inv h0 h us q0s q1s" and "view_refs_ok h0 v"
  obtains h' q0 q1 where "ref_fill_row (length us, v) (h, filled h0 us q0s q1s (Suc m)) =
      Some (h', filled h0 (us @ [v]) (q0s @ [q0]) (q1s @ [q1]) m)"
    "fill_inv h0 h' (us @ [v]) (q0s @ [q0]) (q1s @ [q1])"
proof -
  obtain p q where pq: "rv_Reserve0 v = Some p" "rv_Reserve1 v = Some q" "p < brk h0" "q < brk h0"
    using assms(2) by (auto simp: view_refs_ok_def)
  have F: "brk h0 \<le> brk h" "store h p = store h0 p" "store h q = store h0 q"
    using assms(1) pq(3,4) by (simp_all add: fill_inv_def)
  have "length (nums h q0s) = length us" "length (nums h q1s) = length us"
    using assms(1) by (simp_all add: fill_inv_def)
  then have len: "length q0s = length us" "length q1s = length us" by simp_all
  have old: "None \<notin> set (q0s @ q1s)" "Some (brk h) \<notin> set (q0s @ q1s)" "Some (Suc (brk h)) \<notin> set (q0s @ q1s)"
    using assms(1) unfolding fill_inv_def by auto
  let ?h1 = "h\<lparr>store := (store h)(brk h := store h p)\<rparr>\<lparr>brk := Suc (brk h)\<rparr>"
  let ?h2 = "?h1\<lparr>store := (store ?h1)(brk ?h1 := store h q)\<rparr>\<lparr>brk := Suc (brk ?h1)\<rparr>"
  have nums_old: "nums ?h2 ps = nums h ps" if "set ps \<subseteq> set (q0s @ q1s)" for ps
  proof (rule nums_cong)
    fix x
    assume "x \<in> set ps"
    with that have "x \<in> set (q0s @ q1s)" by (rule subsetD)
    with old have "x \<noteq> None" "x \<noteq> Some (brk h)" "x \<noteq> Some (Suc (brk h))" by metis+
    then show "store ?h2 (the x) = store h (the x)" by (cases x) auto
  qed
  have cols: "set_idx (map g us @ replicate (Suc m) d) (length us) y = Some ((map g us @ [y]) @ replicate m d)"
    for g :: "RefView \<Rightarrow> 'z" and d y using set_idx_replicate [of "map g us" m d y] by simp
  have "set_idx (qs @ replicate (Suc m) d) (length us) y = Some ((qs @ [y]) @ replicate m d)"
    if "length qs = length us" for qs :: "bigref list" and d y
    using set_idx_replicate [of qs m d y] that by simp
  moreover have "q \<noteq> brk h" using pq(4) F(1) by simp
  ultimately have "ref_fill_row (length us, v) (h, filled h0 us q0s q1s (Suc m)) =
      Some (?h2, filled h0 (us @ [v]) (q0s @ [Some (brk h)]) (q1s @ [Some (Suc (brk h))]) m)"
    using len pq(1,2)
    by (simp add: ref_fill_row_def filled_def cols new_set_def NewInt_eq last_index_snoc read_view_def
        del: replicate_Suc)
  moreover have "fill_inv h0 ?h2 (us @ [v]) (q0s @ [Some (brk h)]) (q1s @ [Some (Suc (brk h))])"
    unfolding fill_inv_def
  proof (intro conjI)
    show "nums ?h2 (q0s @ [Some (brk h)]) = map (\<lambda>v. store h0 (the (rv_Reserve0 v))) (us @ [v])"
      using nums_old [of q0s] assms(1) F(2) pq(1) by (simp add: fill_inv_def) (simp add: nums_def)
    show "nums ?h2 (q1s @ [Some (Suc (brk h))]) = map (\<lambda>v. store h0 (the (rv_Reserve1 v))) (us @ [v])"
      using nums_old [of q1s] assms(1) F(3) pq(2) by (simp add: fill_inv_def) (simp add: nums_def)
  qed (use assms(1) old F(1) in \<open>auto simp: fill_inv_def\<close>)
  ultimately show ?thesis by (rule that)
qed

lemma ref_fill_rows:
  assumes "fill_inv h0 h us q0s q1s" and "list_all (view_refs_ok h0) ws"
  shows "\<exists>h' q0s' q1s'. foldM ref_fill_row (enumerate (length us) ws) (h, filled h0 us q0s q1s (length ws)) =
      Some (h', filled h0 (us @ ws) q0s' q1s' 0) \<and> fill_inv h0 h' (us @ ws) q0s' q1s'"
  using assms
proof (induction ws arbitrary: h us q0s q1s)
  case Nil
  then show ?case by (intro exI [of _ h] exI [of _ q0s] exI [of _ q1s]) simp
next
  case (Cons v ws)
  have "view_refs_ok h0 v" using Cons.prems(2) by simp
  from ref_fill_row_step [OF Cons.prems(1) this, of "length ws"] obtain h' q0 q1 where
    s: "ref_fill_row (length us, v) (h, filled h0 us q0s q1s (length (v # ws))) =
      Some (h', filled h0 (us @ [v]) (q0s @ [q0]) (q1s @ [q1]) (length ws))"
    "fill_inv h0 h' (us @ [v]) (q0s @ [q0]) (q1s @ [q1])" by auto
  from Cons.IH [OF s(2)] Cons.prems(2) s(1) show ?case by simp
qed

lemma ref_load_refines:
  assumes "list_all (view_refs_ok h) vs"
  obtains h' r where "ref_load vs h = Some (h', r)"
    "NewUniswapV2RegistryFromViews (map (read_view h) vs) = Some (read_reg h' r)" "ref_ok h' r"
    "brk h \<le> brk h'" "\<And>p. p < brk h \<Longrightarrow> store h' p = store h p \<and> Some p \<notin> owned r"
proof -
  have "fill_inv h h [] [] []" by (simp add: fill_inv_def nums_def)
  from ref_fill_rows [OF this assms] obtain h' q0s q1s where
    l: "foldM ref_fill_row (enumerate 0 vs) (h, filled h [] [] [] (length vs)) =
      Some (h', filled h vs q0s q1s 0)" and F: "fill_inv h h' vs q0s q1s" by auto
  let ?r = "filled h vs q0s q1s 0"
  have own: "owned ?r = set (q0s @ q1s)" by (simp add: owned_def filled_def)
  have "ref_load vs h = Some (h', ?r)"
    using l by (simp add: ref_load_def Let_def) (simp add: filled_def last_index_def)
  moreover have "list_all row_complete (map (read_view h) vs)"
    using assms by (auto simp: list_all_iff view_refs_ok_def row_complete_def read_view_def val_def)
  then have "NewUniswapV2RegistryFromViews (map (read_view h) vs) = Some (loaded (map (read_view h) vs) 0)"
    by (rule load_complete)
  moreover have "loaded (map (read_view h) vs) 0 = read_reg h' ?r"
  proof -
    have "store h (the (rv_Reserve0 v)) = the (val h (rv_Reserve0 v))"
      "store h (the (rv_Reserve1 v)) = the (val h (rv_Reserve1 v))" if "v \<in> set vs" for v
      using assms that by (auto simp: list_all_iff view_refs_ok_def val_def)
    with F show ?thesis
      by (simp add: fill_inv_def loaded_def read_reg_def filled_def read_view_def comp_def)
  qed
  moreover have "ref_ok h' ?r"
    unfolding ref_ok_def own using F by (auto simp: fill_inv_def filled_def)
  moreover have "brk h \<le> brk h'" "\<And>p. p < brk h \<Longrightarrow> store h' p = store h p \<and> Some p \<notin> owned ?r"
    unfolding own using F by (auto simp: fill_inv_def)
  ultimately show ?thesis using that by metis
qed

section \<open>Interleaving with clients\<close>

text \<open>
  What the system does to the heap: its operations, with pointers from outside that are not the
  registry's own, views it hands out, and numbers others allocate. Clients may also write, to
  numbers that are not the registry's.
\<close>

inductive system_step ::
  "'w token_to_id \<Rightarrow> ('w \<Rightarrow> to_id) \<Rightarrow> 'w \<times> Heap \<times> RefRegistry \<Rightarrow> 'w \<times> Heap \<times> RefRegistry \<Rightarrow> bool"
  for tid pid where
  add: "ref_addPool t0 t1 p ty f tid (pid w) w (h, r) = (w', (h', r'), e) \<Longrightarrow>
    system_step tid pid (w, h, r) (w', h', r')"
| update: "r0 \<notin> owned r \<Longrightarrow> r1 \<notin> owned r \<Longrightarrow> ref_updatePool r0 r1 k (h, r) = Some ((h', r'), e) \<Longrightarrow>
    system_step tid pid (w, h, r) (w, h', r')"
| delete: "ref_deletePool k (h, r) = Some ((h', r'), e) \<Longrightarrow> system_step tid pid (w, h, r) (w, h', r')"
| view: "ref_viewRegistry (h, r) = Some (vs, h') \<Longrightarrow> system_step tid pid (w, h, r) (w, h', r)"
| alloc: "NewInt v h = (p, h') \<Longrightarrow> system_step tid pid (w, h, r) (w, h', r)"

definition ref_inv :: "'w \<times> Heap \<times> RefRegistry \<Rightarrow> bool" where
  "ref_inv = (\<lambda>(w, h, r). ref_ok h r \<and> registry_wf r)"

lemma registry_wf_read [simp]: "registry_wf (read_reg h r) \<longleftrightarrow> registry_wf r"
  by (simp add: registry_wf_def)

lemma addPool_wf:
  assumes "registry_wf r" and "addPool t0 t1 p ty f tid pid w r = (w', r', e)"
  shows "registry_wf r'"
  using assms(2) append_row_wf [OF assms(1)] assms(1)
  by (auto simp: addPool_cases pools_of_def split: sum.splits option.splits prod.splits)

lemma system_step_inv:
  assumes "system_step tid pid (w, h, r) (w', h', r')" and "ref_ok h r" and "registry_wf r"
  shows "ref_ok h' r' \<and> registry_wf r' \<and> frame h r h' r'"
proof -
  have safe: "registry_safe r" using assms(3) by blast
  show ?thesis using assms(1)
  proof cases
    case (add t0 t1 p ty f e)
    with ref_addPool_refines [OF assms(2) add(1)]
    have A: "addPool t0 t1 p ty f tid (pid w) w (read_reg h r) = (w', read_reg h' r', e)"
      "ref_ok h' r'" "frame h r h' r'" by simp_all
    have "registry_wf (read_reg h' r')"
      using addPool_wf [OF _ A(1)] assms(3) by simp
    with A(2,3) show ?thesis by simp
  next
    case (update r0 r1 k e)
    with ref_updatePool_refines [OF assms(2) safe update(2,3), of k] assms(3) show ?thesis by simp
  next
    case (delete k e)
    obtain r2 e2 where "ref_deletePool k (h, r) = Some ((h, r2), e2)"
      "deletePool k (read_reg h r) = Some (read_reg h r2, e2)" "ref_ok h r2" "frame h r h r2"
      by (rule ref_deletePool_refines [OF assms(2) safe])
    moreover have "registry_wf (read_reg h r2)"
      by (rule reg.del_total [of "read_reg h r" k]) (use assms(3) calculation(2) in auto)
    ultimately show ?thesis using delete by simp
  next
    case (view vs)
    show ?thesis
      by (rule ref_viewRegistry_refines [OF assms(2) safe]) (use view assms(3) in simp)
  next
    case (alloc v p)
    with read_reg_NewInt [OF assms(2), of v] assms(3) show ?thesis by simp
  qed
qed

interpretation pointers: transition_invariant ref_inv "system_step tid pid" ref_inv for tid pid
proof (unfold_locales, goal_cases)
  case (1 s)
  then show ?case .
next
  case (2 s t)
  then show ?case
    using system_step_inv [of tid pid] by (cases s; cases t) (fastforce simp: ref_inv_def)
qed

lemma system_steps_frame:
  assumes "(system_step tid pid)\<^sup>*\<^sup>* (w, h, r) (w', h', r')" and "ref_ok h r" and "registry_wf r"
  shows "ref_ok h' r' \<and> registry_wf r' \<and> frame h r h' r'"
  using assms(1)
proof (induction "(w', h', r')" arbitrary: w' h' r' rule: rtranclp_induct)
  case base
  with assms(2,3) show ?case by simp
next
  case (step y)
  obtain w1 h1 r1 where y: "y = (w1, h1, r1)" by (metis prod_cases3)
  have I: "ref_ok h1 r1 \<and> registry_wf r1 \<and> frame h r h1 r1" by (rule step.hyps(3) [OF y])
  with system_step_inv [OF step.hyps(2) [unfolded y]] show ?case using frame_trans by blast
qed

section \<open>Properties\<close>

text \<open>
  C13. The operations on pointers refine the operations on values. When the registry's numbers are
  its own and all different, adding, updating from numbers that are not the registry's, deleting
  and viewing do on the values exactly what the value operations do, with the same results, errors
  and panics, and the numbers stay the registry's own.
\<close>

theorem pointers_refine_values:
  assumes "ref_ok h r" and "registry_safe r"
  shows "(case ref_addPool t0 t1 p ty f tid pid w (h, r) of (w', (h', r'), e) \<Rightarrow>
      addPool t0 t1 p ty f tid pid w (read_reg h r) = (w', read_reg h' r', e) \<and> ref_ok h' r') \<and>
    (ra \<notin> owned r \<and> rb \<notin> owned r \<longrightarrow> (case ref_updatePool ra rb k (h, r) of
       None \<Rightarrow> updatePool (val h ra) (val h rb) k (read_reg h r) = None
     | Some ((h', r'), e) \<Rightarrow>
         updatePool (val h ra) (val h rb) k (read_reg h r) = Some (read_reg h' r', e) \<and>
         r' = r \<and> ref_ok h' r)) \<and>
    (\<exists>r' e. ref_deletePool k (h, r) = Some ((h, r'), e) \<and>
       deletePool k (read_reg h r) = Some (read_reg h r', e) \<and> ref_ok h r') \<and>
    (\<exists>vs h'. ref_viewRegistry (h, r) = Some (vs, h') \<and>
       viewRegistry (read_reg h r) = Some (map (read_view h') vs) \<and> read_reg h' r = read_reg h r \<and>
       ref_ok h' r)"
proof (intro conjI impI, goal_cases)
  case 1
  show ?case
    using ref_addPool_refines [OF assms(1), of t0 t1 p ty f tid pid w] by (auto split: prod.split)
next
  case 2
  then show ?case
    using ref_updatePool_refines [OF assms, of ra rb k] by (auto split: option.splits)
next
  case 3
  show ?case by (rule ref_deletePool_refines [OF assms, of k]) blast
next
  case 4
  show ?case by (rule ref_viewRegistry_refines [OF assms]) blast
qed

definition example_heap :: Heap where
  "example_heap = \<lparr>store = (\<lambda>p. if p = 0 then 100 else 200), brk = 2\<rparr>"

definition example_ref_view :: RefView where
  "example_ref_view = \<lparr>rv_ID = 1001, rv_Token0 = 1, rv_Token1 = 2, rv_Reserve0 = Some 0,
     rv_Reserve1 = Some 1, rv_Type = 0, rv_FeeBps = 30\<rparr>"

lemma example_load:
  obtains h r where "ref_load [example_ref_view] example_heap = Some (h, r)" "ref_ok h r" "registry_wf r"
    "ids r = [1001]" "Some 0 \<notin> owned r" "Some 1 \<notin> owned r" "val h (Some 1) = Some 200"
proof -
  have "list_all (view_refs_ok example_heap) [example_ref_view]"
    by (simp add: view_refs_ok_def example_ref_view_def example_heap_def)
  then obtain h r where l: "ref_load [example_ref_view] example_heap = Some (h, r)"
    "NewUniswapV2RegistryFromViews (map (read_view example_heap) [example_ref_view]) = Some (read_reg h r)"
    "ref_ok h r" "\<And>p. p < brk example_heap \<Longrightarrow> store h p = store example_heap p \<and> Some p \<notin> owned r"
    by (rule ref_load_refines) blast
  have reg: "read_reg h r = loaded [read_view example_heap example_ref_view] 0"
    using l(2) by (simp add: load_iff)
  then have "registry_wf (read_reg h r)" by (simp add: loaded_wf)
  moreover have "ids r = [1001]"
    using arg_cong [OF reg, of ids] by (simp add: loaded_def read_view_def example_ref_view_def)
  moreover have "Some 0 \<notin> owned r" "Some 1 \<notin> owned r" "store h 1 = store example_heap 1"
    using l(4) [of 0] l(4) [of 1] by (simp_all add: example_heap_def)
  ultimately show ?thesis using l(1,3) by (intro that [of h r]) (simp_all add: val_def example_heap_def)
qed

lemma example_update:
  assumes "ref_ok h r" and "registry_wf r" and "ids r = [1001]"
  obtains h' where "ref_updatePool (Some p) (Some q) 1001 (h, r) = Some ((h', r), None)"
proof -
  have safe: "registry_safe r" using assms(2) by blast
  have "idToIndex r 1001 = Some 0" using assms(2,3) by (force simp: registry_wf_def)
  moreover have len: "0 < length (reserve0 r)" "0 < length (reserve1 r)"
    using columns_len [OF safe] assms(3) by simp_all
  moreover have "reserve0 r ! 0 \<noteq> None" "reserve1 r ! 0 \<noteq> None"
    using ref_ok_None [OF assms(1)] len by (metis UnCI nth_mem owned_def set_append)+
  ultimately show ?thesis by (auto simp: ref_updatePool_def set_ref_def intro: that)
qed

theorem pointers_refine_values_witness:
  "\<exists>h r h'. ref_load [example_ref_view] example_heap = Some (h, r) \<and>
    ref_updatePool (Some 1) (Some 0) 1001 (h, r) = Some ((h', r), None) \<and>
    updatePool (Some 200) (val h (Some 0)) 1001 (read_reg h r) = Some (read_reg h' r, None)"
proof (rule example_load, goal_cases)
  case (1 h r)
  have safe: "registry_safe r" using 1(3) by blast
  obtain h' where u: "ref_updatePool (Some 1) (Some 0) 1001 (h, r) = Some ((h', r), None)"
    by (rule example_update [OF 1(2-4)])
  from pointers_refine_values [OF 1(2) safe, where ra = "Some 1" and rb = "Some 0" and k = 1001,
      THEN conjunct2, THEN conjunct1] 1(5,6)
  have "updatePool (val h (Some 1)) (val h (Some 0)) 1001 (read_reg h r) = Some (read_reg h' r, None)"
    by (simp add: u [simplified])
  with 1(1,7) u show ?case by auto
qed

text \<open>
  C37. Loading a snapshot copies it. The registry built from views with allocated reserves has the
  values of the views and numbers of its own; the views still read the same, and whoever made them
  may write to any number they had allocated without changing the registry.
\<close>

theorem loading_copies:
  assumes "list_all (view_refs_ok h) vs"
  shows "\<exists>h' r. ref_load vs h = Some (h', r) \<and> ref_ok h' r \<and>
    NewUniswapV2RegistryFromViews (map (read_view h) vs) = Some (read_reg h' r) \<and>
    map (read_view h') vs = map (read_view h) vs \<and>
    (\<forall>a x. a < brk h \<longrightarrow> read_reg (h'\<lparr>store := (store h')(a := x)\<rparr>) r = read_reg h' r)"
proof (rule ref_load_refines [OF assms], goal_cases)
  case (1 h' r)
  have "read_view h' v = read_view h v" if "v \<in> set vs" for v
    using assms that 1(5) by (auto simp: list_all_iff view_refs_ok_def read_view_def val_def)
  moreover have "read_reg (h'\<lparr>store := (store h')(a := x)\<rparr>) r = read_reg h' r" if "a < brk h" for a x
    using 1(5) [OF that] by (intro read_reg_foreign [OF 1(3)]) simp
  ultimately show ?case using 1(1-3) by (intro exI [of _ h'] exI [of _ r]) simp
qed

theorem loading_copies_witness:
  "\<exists>h r. ref_load [example_ref_view] example_heap = Some (h, r) \<and>
    reserve0 (read_reg h r) = [100] \<and>
    read_reg (h\<lparr>store := (store h)(0 := 5)\<rparr>) r = read_reg h r"
proof -
  have "list_all (view_refs_ok example_heap) [example_ref_view]"
    by (simp add: view_refs_ok_def example_ref_view_def example_heap_def)
  from loading_copies [OF this] obtain h r where l: "ref_load [example_ref_view] example_heap = Some (h, r)"
    "NewUniswapV2RegistryFromViews (map (read_view example_heap) [example_ref_view]) = Some (read_reg h r)"
    "\<forall>a x. a < brk example_heap \<longrightarrow> read_reg (h\<lparr>store := (store h)(a := x)\<rparr>) r = read_reg h r" by blast
  from l(2) have "read_reg h r = loaded [read_view example_heap example_ref_view] 0"
    by (simp add: load_iff)
  then have "reserve0 (read_reg h r) = reserve0 (loaded [read_view example_heap example_ref_view] 0)" by (rule arg_cong)
  also have "\<dots> = [100]"
    by (simp add: loaded_def read_view_def val_def example_heap_def example_ref_view_def)
  finally have "reserve0 (read_reg h r) = [100]" .
  moreover have "read_reg (h\<lparr>store := (store h)(0 := 5)\<rparr>) r = read_reg h r"
    using l(3) by (simp add: example_heap_def)
  ultimately show ?thesis using l(1) by blast
qed

text \<open>Writing a number nobody else holds changes one entry of the views that hold it.\<close>

lemma val_write: "val (h\<lparr>store := (store h)(a := x)\<rparr>) q = (if q = Some a then Some x else val h q)"
  by (cases q) (auto simp: val_def)

lemma view_refs_mem:
  "v \<in> set vs \<Longrightarrow> rv_Reserve0 v \<in> set (view_refs vs) \<and> rv_Reserve1 v \<in> set (view_refs vs)"
  by (auto simp: view_refs_def)

text \<open>
  C14. A view is a snapshot, and holding it is harmless to the registry. After a view has been
  taken, no sequence of additions, updates, deletions, views and allocations changes what its
  numbers read; and whoever holds the view may write to its numbers at any later time without
  changing what the registry holds.
\<close>

theorem views_are_snapshots:
  assumes "ref_ok h r" and "registry_wf r" and "ref_viewRegistry (h, r) = Some (vs, h1)"
    and "(system_step tid pid)\<^sup>*\<^sup>* (w, h1, r) (w', h2, r')"
  shows "map (read_view h2) vs = map (read_view h1) vs \<and>
    (\<forall>a x. Some a \<in> set (view_refs vs) \<longrightarrow>
       read_reg (h2\<lparr>store := (store h2)(a := x)\<rparr>) r' = read_reg h2 r')"
proof -
  have safe: "registry_safe r" using assms(2) by blast
  have V: "ref_ok h1 r" "frame h r h1 r" "set (view_refs vs) \<subseteq> Some ` {brk h..<brk h1}"
    by (rule ref_viewRegistry_refines [OF assms(1) safe], use assms(3) in simp)+
  from system_steps_frame [OF assms(4) V(1) assms(2)]
  have F: "ref_ok h2 r'" "frame h1 r h2 r'" by simp_all
  have new: "a < brk h1 \<and> Some a \<notin> owned r" if "Some a \<in> set (view_refs vs)" for a
  proof -
    have "brk h \<le> a" "a < brk h1" using that V(3) by auto
    moreover have "c < brk h" if "Some c \<in> owned r" for c
      using assms(1) that by (force simp: ref_ok_def)
    ultimately show ?thesis by fastforce
  qed
  have "val h2 q = val h1 q" if "q \<in> set (view_refs vs)" for q
    using that new F(2) V(3) by (cases q) (auto simp: val_def frame_def)
  then have "map (read_view h2) vs = map (read_view h1) vs"
    using view_refs_mem [of _ vs] by (simp add: read_view_def)
  moreover have "read_reg (h2\<lparr>store := (store h2)(a := x)\<rparr>) r' = read_reg h2 r'"
    if "Some a \<in> set (view_refs vs)" for a x
    using new [OF that] F(2) by (intro read_reg_foreign [OF F(1)]) (simp add: frame_def)
  ultimately show ?thesis by blast
qed

theorem views_are_snapshots_witness:
  "\<exists>h r vs h1 h2. ref_load [example_ref_view] example_heap = Some (h, r) \<and>
    ref_viewRegistry (h, r) = Some (vs, h1) \<and> ids r = [1001] \<and>
    ref_updatePool (Some 1) (Some 1) 1001 (h1, r) = Some ((h2, r), None) \<and>
    map (read_view h2) vs = map (read_view h1) vs"
proof (rule example_load, goal_cases)
  case (1 h r)
  have safe: "registry_safe r" using 1(3) by blast
  obtain vs h1 where v: "ref_viewRegistry (h, r) = Some (vs, h1)" "ref_ok h1 r"
    by (rule ref_viewRegistry_refines [OF 1(2) safe])
  obtain h2 where u: "ref_updatePool (Some 1) (Some 1) 1001 (h1, r) = Some ((h2, r), None)"
    by (rule example_update [OF v(2) 1(3,4)])
  have "system_step (\<lambda>w a. (w, Inr 0)) (\<lambda>w a. Inr 0) ((), h1, r) ((), h2, r)"
    by (rule system_step.update [OF 1(6,6) u])
  then have "(system_step (\<lambda>w a. (w, Inr 0)) (\<lambda>w a. Inr 0))\<^sup>*\<^sup>* ((), h1, r) ((), h2, r)" ..
  from views_are_snapshots [OF 1(2,3) v(1) this] 1(1,4) v(1) u show ?case by blast
qed

section \<open>The cached view\<close>

record RefState =
  heap :: Heap
  columns :: RefRegistry
  cached :: "RefView list option"

definition ref_updateCachedView :: "RefState \<Rightarrow> RefState go" where
  "ref_updateCachedView st = do {
     (newView, h) \<leftarrow> ref_viewRegistry (heap st, columns st);
     Some (st\<lparr>heap := h, cached := Some newView\<rparr>) }"

text \<open>\<^verbatim>\<open>copy(viewCopy, view)\<close> copies the structs, and with them the pointers.\<close>

definition ref_View :: "RefState \<Rightarrow> RefView list" where
  "ref_View st = (case cached st of None \<Rightarrow> [] | Some view \<Rightarrow> view)"

definition write_num :: "nat \<Rightarrow> int \<Rightarrow> RefState \<Rightarrow> RefState" where
  "write_num a x st = st\<lparr>heap := (heap st)\<lparr>store := (store (heap st))(a := x)\<rparr>\<rparr>"

lemma view_refs_apart:
  assumes "distinct (view_refs vs)" and "v \<in> set vs"
  shows "rv_Reserve0 v \<noteq> rv_Reserve1 v"
    and "u \<in> set vs \<Longrightarrow> u \<noteq> v \<Longrightarrow> rv_Reserve0 v \<noteq> rv_Reserve0 u \<and> rv_Reserve0 v \<noteq> rv_Reserve1 u"
proof -
  have "rv_Reserve0 v \<noteq> rv_Reserve1 v \<and>
    (u \<in> set vs \<longrightarrow> u \<noteq> v \<longrightarrow> rv_Reserve0 v \<noteq> rv_Reserve0 u \<and> rv_Reserve0 v \<noteq> rv_Reserve1 u)"
    using assms
  proof (induction vs)
    case (Cons x vs)
    then have d: "distinct (view_refs vs)" "rv_Reserve0 x \<notin> set (view_refs vs)"
      "rv_Reserve1 x \<notin> set (view_refs vs)" "rv_Reserve0 x \<noteq> rv_Reserve1 x"
      by (auto simp: view_refs_def)
    with Cons.IH Cons.prems(2) view_refs_mem [of u vs] view_refs_mem [of v vs] show ?case
      by (auto; metis)
  qed simp
  then show "rv_Reserve0 v \<noteq> rv_Reserve1 v"
    and "u \<in> set vs \<Longrightarrow> u \<noteq> v \<Longrightarrow> rv_Reserve0 v \<noteq> rv_Reserve0 u \<and> rv_Reserve0 v \<noteq> rv_Reserve1 u"
    by simp_all
qed

text \<open>
  C38. \<^verbatim>\<open>View\<close> copies the structs but shares the numbers. Right after a refresh of the cached view,
  a caller that changes a reserve of a pool in the view it was given changes it for every other
  reader as well, those who read before and those who read later, and for this pool alone; the
  registry is not affected, and the next refresh shows its reserves again.
\<close>

theorem View_shares_reserves:
  assumes "ref_ok (heap st0) (columns st0)" and "registry_wf (columns st0)"
    and "ref_updateCachedView st0 = Some st" and "v \<in> set (ref_View st)" and "rv_Reserve0 v = Some a"
    and "st' = write_num a x st"
  shows "ref_View st' = ref_View st \<and>
    read_view (heap st') v = (read_view (heap st) v)\<lparr>Reserve0 := Some x\<rparr> \<and>
    (\<forall>u \<in> set (ref_View st). u \<noteq> v \<longrightarrow> read_view (heap st') u = read_view (heap st) u) \<and>
    read_reg (heap st') (columns st') = read_reg (heap st) (columns st) \<and>
    (\<exists>st''. ref_updateCachedView st' = Some st'' \<and>
       map (read_view (heap st'')) (ref_View st'') = map (read_view (heap st)) (ref_View st))"
proof -
  have safe: "registry_safe (columns st0)" using assms(2) by blast
  obtain vs h where V: "ref_viewRegistry (heap st0, columns st0) = Some (vs, h)"
    "viewRegistry (read_reg (heap st0) (columns st0)) = Some (map (read_view h) vs)"
    "read_reg h (columns st0) = read_reg (heap st0) (columns st0)" "ref_ok h (columns st0)"
    "distinct (view_refs vs)" "set (view_refs vs) \<subseteq> Some ` {brk (heap st0)..<brk h}"
    by (rule ref_viewRegistry_refines [OF assms(1) safe])
  have st: "st = st0\<lparr>heap := h, cached := Some vs\<rparr>"
    using assms(3) V(1) by (simp add: ref_updateCachedView_def)
  have v: "v \<in> set vs" using assms(4) by (simp add: ref_View_def st)
  let ?h = "h\<lparr>store := (store h)(a := x)\<rparr>"
  have st': "st' = st0\<lparr>heap := ?h, cached := Some vs\<rparr>"
    using assms(6) by (simp add: write_num_def st)
  have "Some a \<in> Some ` {brk (heap st0)..<brk h}" using V(6) view_refs_mem [OF v] assms(5) by auto
  then have "Some a \<notin> owned (columns st0)" using assms(1) by (force simp: ref_ok_def)
  from read_reg_foreign [OF V(4) this]
  have reg: "read_reg ?h (columns st0) = read_reg h (columns st0)" by simp
  have "rv_Reserve1 v \<noteq> Some a" using view_refs_apart(1) [OF V(5) v] assms(5) by simp
  then have "read_view ?h v = (read_view h v)\<lparr>Reserve0 := Some x\<rparr>"
    using assms(5) by (simp add: read_view_def val_write)
  moreover have "read_view ?h u = read_view h u" if "u \<in> set vs" "u \<noteq> v" for u
    using view_refs_apart(2) [OF V(5) v that] assms(5) by (auto simp: read_view_def val_write)
  moreover have ok: "ref_ok ?h (columns st0)" using V(4) by (simp add: ref_ok_def)
  obtain ws h' where "ref_viewRegistry (?h, columns st0) = Some (ws, h')"
    "viewRegistry (read_reg ?h (columns st0)) = Some (map (read_view h') ws)"
    by (rule ref_viewRegistry_refines [OF ok safe])
  then have "\<exists>st''. ref_updateCachedView st' = Some st'' \<and>
      map (read_view (heap st'')) (ref_View st'') = map (read_view h) vs"
    using V(2,3) by (simp add: ref_updateCachedView_def st' reg ref_View_def)
  ultimately show ?thesis using reg by (simp add: st st' ref_View_def)
qed

theorem View_shares_reserves_witness:
  "\<exists>h r st v a. ref_load [example_ref_view] example_heap = Some (h, r) \<and>
    ref_updateCachedView \<lparr>heap = h, columns = r, cached = None\<rparr> = Some st \<and>
    ref_View st = [v] \<and> rv_Reserve0 v = Some a \<and>
    Reserve0 (read_view (heap (write_num a 7 st)) v) = Some 7 \<and>
    read_reg (heap (write_num a 7 st)) r = read_reg (heap st) r"
proof (rule example_load, goal_cases)
  case (1 h r)
  let ?initial = "\<lparr>heap = h, columns = r, cached = None\<rparr>"
  have safe: "registry_safe r" using 1(3) by blast
  obtain vs h1 where v: "ref_viewRegistry (h, r) = Some (vs, h1)"
    "viewRegistry (read_reg h r) = Some (map (read_view h1) vs)"
    "set (view_refs vs) \<subseteq> Some ` {brk h..<brk h1}"
    by (rule ref_viewRegistry_refines [OF 1(2) safe])
  have "length vs = 1"
    using v(2) viewRegistry_eq [of "read_reg h r"] safe 1(4) by (auto dest: arg_cong [of _ _ length])
  then obtain x where x: "vs = [x]" by (cases vs) auto
  then have "rv_Reserve0 x \<in> Some ` {brk h..<brk h1}" using v(3) view_refs_mem [of x vs] by auto
  then obtain a where a: "rv_Reserve0 x = Some a" by auto
  let ?st = "?initial\<lparr>heap := h1, cached := Some vs\<rparr>"
  have st: "ref_updateCachedView ?initial = Some ?st" using v(1) by (simp add: ref_updateCachedView_def)
  have view: "ref_View ?st = [x]" by (simp add: ref_View_def x)
  have "x \<in> set (ref_View ?st)" unfolding view by simp
  from View_shares_reserves [OF _ _ st this a refl, of 7] 1(2,3)
  have "Reserve0 (read_view (heap (write_num a 7 ?st)) x) = Some 7"
    "read_reg (heap (write_num a 7 ?st)) (columns (write_num a 7 ?st)) = read_reg (heap ?st) (columns ?st)"
    by simp_all
  moreover have "columns (write_num a 7 ?st) = r" "columns ?st = r" by (simp_all add: write_num_def)
  ultimately have "Reserve0 (read_view (heap (write_num a 7 ?st)) x) = Some 7 \<and>
      read_reg (heap (write_num a 7 ?st)) r = read_reg (heap ?st) r" by metis
  with 1(1) st view a show ?case by blast
qed

end
