(* ===== verification/Locking.thy ===== *)
theory Locking
  imports Reconcile_Props
begin

text \<open>
  The lock \<^verbatim>\<open>s.mu\<close> and the calls out (\<^verbatim>\<open>src/system.go\<close>). Each routine is given by its skeleton: the
  order in which it takes the lock, gives it back and calls the functions of its configuration,
  with a choice for every branch and a loop for every loop. What a call does is a parameter: it
  may return, never return, or call the deletion methods before it returns. Shown: whichever calls
  outside the lock hang, nobody else is blocked for good, and what goes wrong when the error
  handler deletes a pool.
\<close>

section \<open>Skeletons\<close>

text \<open>The functions of \<^verbatim>\<open>Config\<close>, the client, the wait between two attempts, and the logger.\<close>

datatype callee =
    Get_Client | Filter_Logs | Retry_Delay | Test_Bloom | In_Blocked_List | Pool_Initializer
  | Discover_Pools | Updated_In_Block | Get_Reserves | Token_Address_To_ID | Pool_Address_To_ID
  | Pool_ID_To_Address | Register_Pools | Error_Handler | Log_Line

datatype cmd =
    Lock
  | Unlock
  | Ask callee
  | Choose "cmd list" "cmd list"
  | Loop "cmd list"
  | Hang  \<comment> \<open>no code of the system: a call that never returns\<close>

text \<open>\<^verbatim>\<open>s.mu.Lock(); defer s.mu.Unlock(); ...\<close>: the deferred call runs at every return.\<close>

definition with_lock :: "cmd list \<Rightarrow> cmd list" where
  "with_lock body = Lock # body @ [Unlock]"

definition errorHandler_code :: "cmd list" where
  "errorHandler_code = [Ask Log_Line, Ask Error_Handler]"

definition getLogsWithRetry_code :: "cmd list" where
  "getLogsWithRetry_code =
     [Loop [Ask Filter_Logs, Ask Retry_Delay, Ask Log_Line],
      Choose [Ask Log_Line]
        [Ask Filter_Logs, Choose [] [Choose [Ask Retry_Delay] [Ask Log_Line]]]]"

definition applyUpdates_code :: "cmd list" where
  "applyUpdates_code = [Loop [Ask Pool_Address_To_ID]]"

definition handleNewBlock_code :: "cmd list" where
  "handleNewBlock_code =
     [Ask Get_Client,
      Choose []
        (getLogsWithRetry_code @
         [Ask Log_Line,
          Choose []
            ([Ask Updated_In_Block, Choose [] errorHandler_code,
              Ask Discover_Pools, Choose [] errorHandler_code, Choose [] [Ask Log_Line]] @
             with_lock (applyUpdates_code @
               [Loop [Ask In_Blocked_List, Choose [] [Ask Pool_Address_To_ID]]]) @
             [Loop errorHandler_code])]),
      Ask Log_Line]"

definition listen_code :: "cmd list" where
  "listen_code = [Ask Test_Bloom, Choose [] (handleNewBlock_code @ [Choose [] errorHandler_code])]"

definition addPool_code :: "cmd list" where
  "addPool_code =
     [Ask Pool_Address_To_ID,
      Choose [] [Ask Token_Address_To_ID, Choose [] [Ask Token_Address_To_ID]]]"

definition applyInitializations_code :: "cmd list" where
  "applyInitializations_code = [Choose [] [Ask Register_Pools, Loop addPool_code]]"

definition runPendingInitializations_code :: "cmd list" where
  "runPendingInitializations_code =
     with_lock [] @
     [Choose []
        [Ask Log_Line, Ask Get_Client,
         Choose errorHandler_code
           ([Ask Pool_Initializer] @ with_lock applyInitializations_code @
            [Choose [] [Ask Log_Line], Loop errorHandler_code])]]"

definition runStateReconciliation_code :: "cmd list" where
  "runStateReconciliation_code =
     [Choose []
        [Ask Get_Client,
         Choose errorHandler_code
           [Loop [Ask Pool_ID_To_Address, Choose [] errorHandler_code],
            Ask Get_Reserves,
            Loop [Choose [] errorHandler_code],
            Choose [] (with_lock [Ask Log_Line, Loop [Choose [] errorHandler_code]])]]]"

definition DeletePool_code :: "cmd list" where
  "DeletePool_code = with_lock []"

definition DeletePools_code :: "cmd list" where
  "DeletePools_code = with_lock []"

definition pruneBlockedPools_code :: "cmd list" where
  "pruneBlockedPools_code =
     [Ask Log_Line,
      Choose []
        [Loop [Ask Pool_ID_To_Address, Choose errorHandler_code [Ask In_Blocked_List]],
         Choose [] ([Ask Log_Line] @ DeletePools_code @ [Loop [Choose [] errorHandler_code]])]]"

text \<open>The goroutines of \<^verbatim>\<open>newUniswapV2System\<close> and any number of callers of the public methods; what
  each runs in one turn. \<^verbatim>\<open>View\<close> and \<^verbatim>\<open>LastUpdatedAtBlock\<close> take no lock and call nothing.\<close>

datatype thread = T_Listener | T_Initializer | T_Reconciler | T_Pruner | T_Caller nat

fun turns_of :: "thread \<Rightarrow> cmd list list" where
  "turns_of T_Listener = [listen_code]"
| "turns_of T_Initializer = [runPendingInitializations_code]"
| "turns_of T_Reconciler = [runStateReconciliation_code]"
| "turns_of T_Pruner = [pruneBlockedPools_code]"
| "turns_of (T_Caller n) = [DeletePool_code, DeletePools_code]"

lemmas routine_codes = listen_code_def handleNewBlock_code_def getLogsWithRetry_code_def
  applyUpdates_code_def runPendingInitializations_code_def applyInitializations_code_def
  addPool_code_def runStateReconciliation_code_def pruneBlockedPools_code_def
  DeletePool_code_def DeletePools_code_def errorHandler_code_def with_lock_def

section \<open>Execution\<close>

record LConf =
  owner :: "thread option"
  code :: "thread \<Rightarrow> cmd list"

definition goes :: "thread \<Rightarrow> cmd list \<Rightarrow> LConf \<Rightarrow> LConf" where
  "goes t cs c = c\<lparr>code := (code c)(t := cs)\<rparr>"

lemma goes_simps [simp]:
  "owner (goes t cs c) = owner c" "code (goes t cs c) u = (if u = t then cs else code c u)"
  by (simp_all add: goes_def)

text \<open>
  A step of one thread. \<open>h d\<close> is the set of things a call of \<open>d\<close> may do with the system before
  it returns. \<^verbatim>\<open>sync.RWMutex\<close> is not reentrant: \<^verbatim>\<open>Lock\<close> waits while anyone has it, its caller
  included, and \<^verbatim>\<open>Unlock\<close> releases it whoever calls.
\<close>

inductive thread_step :: "(callee \<Rightarrow> cmd list set) \<Rightarrow> thread \<Rightarrow> LConf \<Rightarrow> LConf \<Rightarrow> bool"
  for h t where
  new_turn: "code c t = [] \<Longrightarrow> body \<in> set (turns_of t) \<Longrightarrow> thread_step h t c (goes t body c)"
| locks: "code c t = Lock # cs \<Longrightarrow> owner c = None \<Longrightarrow>
    thread_step h t c ((goes t cs c)\<lparr>owner := Some t\<rparr>)"
| unlocks: "code c t = Unlock # cs \<Longrightarrow> owner c \<noteq> None \<Longrightarrow>
    thread_step h t c ((goes t cs c)\<lparr>owner := None\<rparr>)"
| asks: "code c t = Ask d # cs \<Longrightarrow> body \<in> h d \<Longrightarrow> thread_step h t c (goes t (body @ cs) c)"
| left: "code c t = Choose xs ys # cs \<Longrightarrow> thread_step h t c (goes t (xs @ cs) c)"
| right: "code c t = Choose xs ys # cs \<Longrightarrow> thread_step h t c (goes t (ys @ cs) c)"
| again: "code c t = Loop xs # cs \<Longrightarrow> thread_step h t c (goes t (xs @ Loop xs # cs) c)"
| leaves: "code c t = Loop xs # cs \<Longrightarrow> thread_step h t c (goes t cs c)"

inductive_cases thread_stepE: "thread_step h t c c'"

definition lock_start :: LConf where
  "lock_start = \<lparr>owner = None, code = (\<lambda>_. [])\<rparr>"

text \<open>Steps of the threads in \<open>T\<close> alone, and of all threads.\<close>

definition runs_of :: "thread set \<Rightarrow> (callee \<Rightarrow> cmd list set) \<Rightarrow> LConf \<Rightarrow> LConf \<Rightarrow> bool" where
  "runs_of T h = (\<lambda>c c'. \<exists>t \<in> T. thread_step h t c c')\<^sup>*\<^sup>*"

abbreviation lock_run :: "(callee \<Rightarrow> cmd list set) \<Rightarrow> LConf \<Rightarrow> LConf \<Rightarrow> bool" where
  "lock_run \<equiv> runs_of UNIV"

lemma runs_of_refl [simp]: "runs_of T h c c"
  by (simp add: runs_of_def)

lemma runs_of_step: "runs_of T h c c' \<Longrightarrow> t \<in> T \<Longrightarrow> thread_step h t c' c'' \<Longrightarrow> runs_of T h c c''"
  unfolding runs_of_def by (rule rtranclp.rtrancl_into_rtrancl) auto

lemma runs_of_first: "t \<in> T \<Longrightarrow> thread_step h t c c' \<Longrightarrow> runs_of T h c' c'' \<Longrightarrow> runs_of T h c c''"
  unfolding runs_of_def by (rule converse_rtranclp_into_rtranclp) auto

lemma runs_of_trans: "runs_of T h c c' \<Longrightarrow> runs_of T h c' c'' \<Longrightarrow> runs_of T h c c''"
  unfolding runs_of_def by (rule rtranclp_trans)

lemma runs_of_mono: "runs_of T h c c' \<Longrightarrow> T \<subseteq> U \<Longrightarrow> runs_of U h c c'"
  unfolding runs_of_def by (rule rtranclp_mono [THEN predicate2D]) auto

section \<open>The lock discipline\<close>

text \<open>What the routines call while they hold the lock.\<close>

definition called_locked :: "callee \<Rightarrow> bool" where
  "called_locked d \<longleftrightarrow> d \<in> {Pool_Address_To_ID, In_Blocked_List, Register_Pools,
     Token_Address_To_ID, Error_Handler, Log_Line}"

text \<open>Whether the lock is held after the code, when it is held or not before; \<^const>\<open>None\<close> when the
  code would take a lock it holds, release one it does not hold, return from a branch in another
  state than from the other, or make another call with the lock held.\<close>

fun held_after :: "bool \<Rightarrow> cmd list \<Rightarrow> bool option" where
  "held_after b [] = Some b"
| "held_after b (Lock # cs) = (if b then None else held_after True cs)"
| "held_after b (Unlock # cs) = (if b then held_after False cs else None)"
| "held_after b (Ask d # cs) = (if b \<and> \<not> called_locked d then None else held_after b cs)"
| "held_after b (Choose xs ys # cs) =
     (case held_after b xs of
        None \<Rightarrow> None
      | Some b' \<Rightarrow> if held_after b ys = Some b' then held_after b' cs else None)"
| "held_after b (Loop xs # cs) = (if held_after b xs = Some b then held_after b cs else None)"
| "held_after b (Hang # cs) = (if b then None else held_after b cs)"

lemma held_after_append:
  "held_after b (xs @ ys) = (case held_after b xs of None \<Rightarrow> None | Some b' \<Rightarrow> held_after b' ys)"
  by (induction b xs rule: held_after.induct) (auto split: option.split)

text \<open>Every routine leaves the lock as it found it.\<close>

lemma turns_disciplined: "body \<in> set (turns_of t) \<Longrightarrow> held_after False body = Some False"
  by (cases t) (auto simp: routine_codes called_locked_def)

text \<open>
  The calls a system has to be able to rely on: one made with the lock held returns and does not
  call back. Any other may also hang or delete pools.
\<close>

definition callees_ok :: "(callee \<Rightarrow> cmd list set) \<Rightarrow> bool" where
  "callees_ok h \<longleftrightarrow> (\<forall>d. if called_locked d then h d = {[]}
     else h d \<noteq> {} \<and> h d \<subseteq> {[], [Hang], DeletePool_code, DeletePools_code})"

section \<open>Invariant\<close>

definition lock_inv :: "LConf \<Rightarrow> bool" where
  "lock_inv c \<longleftrightarrow> (\<forall>t. held_after (owner c = Some t) (code c t) = Some False)"

lemma lock_invD: "lock_inv c \<Longrightarrow> held_after (owner c = Some t) (code c t) = Some False"
  by (simp add: lock_inv_def)

lemma callees_okD:
  assumes "callees_ok h"
  shows "called_locked d \<Longrightarrow> h d = {[]}" and "h d \<noteq> {}"
    and "body \<in> h d \<Longrightarrow> held_after False body = Some False"
proof -
  have h: "if called_locked d then h d = {[]}
     else h d \<noteq> {} \<and> h d \<subseteq> {[], [Hang], DeletePool_code, DeletePools_code}"
    using assms by (simp add: callees_ok_def)
  show "called_locked d \<Longrightarrow> h d = {[]}" "h d \<noteq> {}" using h by (auto split: if_splits)
  assume "body \<in> h d"
  with h have "body \<in> {[], [Hang], DeletePool_code, DeletePools_code}" by (auto split: if_splits)
  then show "held_after False body = Some False"
    by (auto simp: DeletePool_code_def DeletePools_code_def with_lock_def)
qed

text \<open>A step keeps what is to be held after the code of the thread that makes it.\<close>

lemma step_disciplined:
  assumes "thread_step h t c c'" and "held_after (owner c = Some t) (code c t) = Some False"
    and "\<And>d body. body \<in> h d \<Longrightarrow> held_after False body = Some False"
    and "\<And>d. owner c = Some t \<Longrightarrow> called_locked d \<Longrightarrow> h d = {[]}"
  shows "held_after (owner c' = Some t) (code c' t) = Some False"
  using assms(1)
proof cases
  case (new_turn body)
  with assms(2) turns_disciplined show ?thesis by simp
next
  case (asks d cs body)
  show ?thesis
  proof (cases "owner c = Some t")
    case True
    with asks assms(2) have "called_locked d" by (auto split: if_splits)
    with assms(4) asks True assms(2) show ?thesis by simp
  next
    case False
    with asks assms(2) assms(3) [OF asks(3)] show ?thesis
      by (simp add: held_after_append)
  qed
next
  case (again xs cs)
  with assms(2) show ?thesis by (simp add: held_after_append split: if_splits)
qed (use assms(2) in \<open>auto simp: held_after_append split: option.splits if_splits\<close>)

lemma step_others:
  assumes "thread_step h t c c'" and "u \<noteq> t"
  shows "code c' u = code c u"
  using assms by (auto elim: thread_stepE)

lemma lock_inv_step:
  assumes "thread_step h t c c'" and "callees_ok h" and "lock_inv c"
  shows "lock_inv c'"
  unfolding lock_inv_def
proof
  fix u
  show "held_after (owner c' = Some u) (code c' u) = Some False"
  proof (cases "u = t")
    case True
    with step_disciplined [OF assms(1) lock_invD [OF assms(3)] callees_okD(3,1) [OF assms(2)]]
    show ?thesis by simp
  next
    case False
    have "owner c' = Some u \<longleftrightarrow> owner c = Some u"
      using assms(1)
    proof cases
      case (unlocks cs)
      with lock_invD [OF assms(3), of t] have "owner c = Some t" by (auto split: if_splits)
      with False unlocks show ?thesis by simp
    qed (use False in auto)
    with lock_invD [OF assms(3), of u] step_others [OF assms(1) False] show ?thesis by simp
  qed
qed

lemma lock_inv_start: "lock_inv lock_start"
  by (simp add: lock_inv_def lock_start_def)

interpretation locking: transition_invariant "\<lambda>c. c = lock_start" "\<lambda>c c'. callees_ok h \<and> (\<exists>t. thread_step h t c c')" lock_inv
  for h
  by unfold_locales (auto intro: lock_inv_start lock_inv_step)

lemma lock_inv_run:
  assumes "runs_of T h c c'" and "callees_ok h" and "lock_inv c"
  shows "lock_inv c'"
proof -
  have "(\<lambda>c c'. callees_ok h \<and> (\<exists>t. thread_step h t c c'))\<^sup>*\<^sup>* c c'"
    using assms(1) unfolding runs_of_def
    by (rule rtranclp_mono [THEN predicate2D, rotated]) (use assms(2) in auto)
  then show ?thesis using assms(3) by (rule locking.inv_steps)
qed

section \<open>Progress\<close>

lemma step_or_wait:
  assumes "callees_ok h" and "lock_inv c" and "code c t \<noteq> []"
  shows "(\<exists>c'. thread_step h t c c') \<or>
    (\<exists>u cs. u \<noteq> t \<and> owner c = Some u \<and> code c t = Lock # cs) \<or>
    (\<exists>cs. owner c \<noteq> Some t \<and> code c t = Hang # cs)"
proof -
  note I = lock_invD [OF assms(2), of t]
  obtain x cs where x: "code c t = x # cs" using assms(3) by (cases "code c t") auto
  show ?thesis
  proof (cases x)
    case Lock
    then have "owner c \<noteq> Some t" using I x by auto
    then show ?thesis using x Lock thread_step.locks [of c t cs h] by (cases "owner c") auto
  next
    case Unlock
    then have "owner c = Some t" using I x by (auto split: if_splits)
    then show ?thesis using x Unlock thread_step.unlocks [of c t cs h] by auto
  next
    case (Ask d)
    obtain body where "body \<in> h d" using callees_okD(2) [OF assms(1), of d] by blast
    then show ?thesis using x Ask thread_step.asks [of c t d cs body h] by auto
  next
    case (Choose xs ys)
    then show ?thesis using x thread_step.left [of c t xs ys cs h] by auto
  next
    case (Loop xs)
    then show ?thesis using x thread_step.leaves [of c t xs cs h] by auto
  next
    case Hang
    then show ?thesis using I x by (auto split: if_splits)
  qed
qed

text \<open>The holder gives the lock back by steps of its own, at most as many as its code is long.\<close>

lemma holder_releases:
  assumes "callees_ok h" and "lock_inv c" and "owner c = Some u"
  shows "\<exists>c'. runs_of {u} h c c' \<and> owner c' = None \<and> (\<forall>t. t \<noteq> u \<longrightarrow> code c' t = code c t)"
  using assms(2,3)
proof (induction "size_list size (code c u)" arbitrary: c rule: less_induct)
  case less
  note I = lock_invD [OF less.prems(1), of u, unfolded less.prems(2)]
  have go: ?case
    if d: "thread_step h u c d" "owner d = Some u" "size_list size (code d u) < size_list size (code c u)" for d
  proof -
    obtain c' where "runs_of {u} h d c'" "owner c' = None" "\<forall>t. t \<noteq> u \<longrightarrow> code c' t = code d t"
      using less.hyps [OF d(3) lock_inv_step [OF d(1) assms(1) less.prems(1)] d(2)] by blast
    with step_others [OF d(1)] runs_of_first [of u "{u}" h c d c'] d(1) show ?thesis by auto
  qed
  from I obtain x cs where x: "code c u = x # cs" by (cases "code c u") auto
  show ?case
  proof (cases x)
    case Unlock
    then have "thread_step h u c ((goes u cs c)\<lparr>owner := None\<rparr>)"
      using x less.prems(2) by (intro thread_step.unlocks) simp_all
    then show ?thesis
      using runs_of_first [of u "{u}" h c _ _] by (intro exI [of _ "(goes u cs c)\<lparr>owner := None\<rparr>"]) auto
  next
    case (Ask d)
    then have "[] \<in> h d" using I x callees_okD(1) [OF assms(1), of d] by (auto split: if_splits)
    then have "thread_step h u c (goes u ([] @ cs) c)" using x Ask by (intro thread_step.asks) simp_all
    then show ?thesis by (rule go) (use x less.prems(2) in simp_all)
  next
    case (Choose xs ys)
    then have "thread_step h u c (goes u (xs @ cs) c)" using x by (intro thread_step.left) simp
    then show ?thesis by (rule go) (use x Choose less.prems(2) in simp_all)
  next
    case (Loop xs)
    then have "thread_step h u c (goes u cs c)" using x by (intro thread_step.leaves) simp
    then show ?thesis by (rule go) (use x less.prems(2) in simp_all)
  qed (use I x in auto)
qed

text \<open>Code all of whose calls can return.\<close>

fun can_return :: "(callee \<Rightarrow> cmd list set) \<Rightarrow> cmd list \<Rightarrow> bool" where
  "can_return h [] \<longleftrightarrow> True"
| "can_return h (Ask d # cs) \<longleftrightarrow> [] \<in> h d \<and> can_return h cs"
| "can_return h (Choose xs ys # cs) \<longleftrightarrow> can_return h xs \<and> can_return h ys \<and> can_return h cs"
| "can_return h (Loop xs # cs) \<longleftrightarrow> can_return h xs \<and> can_return h cs"
| "can_return h (Hang # cs) \<longleftrightarrow> False"
| "can_return h (Lock # cs) \<longleftrightarrow> can_return h cs"
| "can_return h (Unlock # cs) \<longleftrightarrow> can_return h cs"

lemma can_return_append [simp]: "can_return h (xs @ ys) \<longleftrightarrow> can_return h xs \<and> can_return h ys"
  by (induction h xs rule: can_return.induct) auto

text \<open>A thread that waits for the lock sees it free after steps of the holder alone.\<close>

lemma lock_available:
  assumes "callees_ok h" and "lock_inv c" and "code c t = Lock # cs" and "set_option (owner c) \<subseteq> T"
  shows "\<exists>d. runs_of T h c d \<and> owner d = None \<and> code d t = Lock # cs"
proof (cases "owner c")
  case None
  with assms(3) show ?thesis by (intro exI [of _ c]) simp
next
  case (Some u)
  then have "u \<noteq> t" using lock_invD [OF assms(2), of t] assms(3) by auto
  obtain d where d: "runs_of {u} h c d" "owner d = None" "\<forall>v. v \<noteq> u \<longrightarrow> code d v = code c v"
    using holder_releases [OF assms(1,2) Some] by blast
  have "runs_of T h c d" using d(1) by (rule runs_of_mono) (use assms(4) Some in simp)
  with d \<open>u \<noteq> t\<close> assms(3) show ?thesis by (intro exI [of _ d]) simp
qed

text \<open>The number of commands left, those of all branches and loop bodies included, bounds what a thread
  still has to do when it leaves its loops. Any command but the lock makes it smaller.\<close>

lemma shrinking_step:
  assumes "lock_inv c" and "code c t = x # cs" and "x \<noteq> Lock" and "can_return h (x # cs)"
  shows "\<exists>d. thread_step h t c d \<and> can_return h (code d t) \<and> set_option (owner d) \<subseteq> set_option (owner c) \<and>
    size_list size (code d t) < size_list size (x # cs)"
proof (cases x)
  case Unlock
  then have "owner c = Some t" using lock_invD [OF assms(1), of t] assms(2) by (auto split: if_splits)
  then have "thread_step h t c ((goes t cs c)\<lparr>owner := None\<rparr>)"
    using assms(2) Unlock by (intro thread_step.unlocks) simp_all
  then show ?thesis using Unlock assms(4) by (intro exI [of _ "(goes t cs c)\<lparr>owner := None\<rparr>"]) simp
next
  case (Ask d)
  then have "thread_step h t c (goes t ([] @ cs) c)"
    using assms(2,4) by (intro thread_step.asks [of _ _ d]) simp_all
  then show ?thesis using Ask assms(4) by (intro exI [of _ "goes t ([] @ cs) c"]) simp
next
  case (Choose xs ys)
  then have "thread_step h t c (goes t (xs @ cs) c)" using assms(2) by (intro thread_step.left) simp
  then show ?thesis using Choose assms(4) by (intro exI [of _ "goes t (xs @ cs) c"]) simp
next
  case (Loop xs)
  then have "thread_step h t c (goes t cs c)" using assms(2) by (intro thread_step.leaves) simp
  then show ?thesis using Loop assms(4) by (intro exI [of _ "goes t cs c"]) simp
qed (use assms(3,4) in simp_all)

lemma finishes:
  assumes "callees_ok h" and "lock_inv c" and "can_return h (code c t)"
    and "t \<in> T" and "set_option (owner c) \<subseteq> T"
  shows "\<exists>c'. runs_of T h c c' \<and> code c' t = []"
  using assms(2,3,5)
proof (induction "size_list size (code c t)" arbitrary: c rule: less_induct)
  case less
  have go: ?case
    if d: "runs_of T h c d" "can_return h (code d t)" "set_option (owner d) \<subseteq> T"
      "size_list size (code d t) < size_list size (code c t)" for d
    using less.hyps [OF d(4) lock_inv_run [OF d(1) assms(1) less.prems(1)] d(2,3)] runs_of_trans [OF d(1)]
    by blast
  show ?case
  proof (cases "code c t")
    case Nil
    then show ?thesis by (intro exI [of _ c]) simp
  next
    case (Cons x cs)
    show ?thesis
    proof (cases "x = Lock")
      case True
      then obtain d where d: "runs_of T h c d" "owner d = None" "code d t = Lock # cs"
        using lock_available [OF assms(1) less.prems(1) _ less.prems(3)] Cons by blast
      have "thread_step h t d ((goes t cs d)\<lparr>owner := Some t\<rparr>)"
        using d by (intro thread_step.locks) simp_all
      from runs_of_step [OF d(1) assms(4) this] show ?thesis
        by (rule go) (use Cons True less.prems(2) assms(4) in simp_all)
    next
      case False
      obtain d where d: "thread_step h t c d" "can_return h (code d t)"
        "set_option (owner d) \<subseteq> set_option (owner c)" "size_list size (code d t) < size_list size (code c t)"
        using shrinking_step [OF less.prems(1) Cons False] less.prems(2) Cons by auto
      show ?thesis
        by (rule go [OF runs_of_step [OF runs_of_refl assms(4) d(1)] d(2) _ d(4)])
          (use d(3) less.prems(3) in blast)
    qed
  qed
qed

text \<open>
  C11. Nobody is blocked for good by the others, whatever the calls made without the lock do.
  Assume only that a call made with the lock held returns and does not call back; any other may
  return, never return, or delete pools first. In every state that the four goroutines and any
  number of callers can reach: only the holder of the lock is about to release it; a thread in the
  middle of its turn can go on, unless it waits for the lock and another thread holds it, or is,
  without the lock, in a call that never returns; the holder can always give the lock back by steps
  of its own; and a thread whose remaining calls can return can end its turn by steps of its own
  and of the one that now holds the lock, while all others stand still.
\<close>

theorem lock_never_blocks_for_good:
  assumes "callees_ok h" and "lock_run h lock_start c"
  shows "(\<forall>t cs. code c t = Unlock # cs \<longrightarrow> owner c = Some t) \<and>
    (code c t \<noteq> [] \<longrightarrow> (\<exists>c'. thread_step h t c c') \<or>
       (\<exists>u cs. u \<noteq> t \<and> owner c = Some u \<and> code c t = Lock # cs) \<or>
       (\<exists>cs. owner c \<noteq> Some t \<and> code c t = Hang # cs)) \<and>
    (\<forall>u. owner c = Some u \<longrightarrow>
       (\<exists>c'. runs_of {u} h c c' \<and> owner c' = None \<and> (\<forall>v. v \<noteq> u \<longrightarrow> code c' v = code c v))) \<and>
    (can_return h (code c t) \<longrightarrow>
       (\<exists>c'. runs_of ({t} \<union> set_option (owner c)) h c c' \<and> code c' t = []))"
proof -
  have I: "lock_inv c" by (rule lock_inv_run [OF assms(2,1) lock_inv_start])
  have "owner c = Some v" if "code c v = Unlock # cs" for v cs
    using lock_invD [OF I, of v] that by (auto split: if_splits)
  then show ?thesis
    using step_or_wait [OF assms(1) I] holder_releases [OF assms(1) I] finishes [OF assms(1) I, of t "{t} \<union> set_option (owner c)"]
    by auto
qed

section \<open>Runs of one thread\<close>

text \<open>Executing the code of one thread, command by command, for concrete runs.\<close>

lemma goes_again: "goes t cs (goes t ds c) = goes t cs c" "goes t (code c t) c = c"
  by (simp_all add: goes_def)

lemma goes_owner: "(goes t cs c)\<lparr>owner := x\<rparr> = goes t cs (c\<lparr>owner := x\<rparr>)"
  by (cases c) (simp add: goes_def)

lemma run_turn:
  "code c t = [] \<Longrightarrow> body \<in> set (turns_of t) \<Longrightarrow> lock_run h (goes t body c) c' \<Longrightarrow> lock_run h c c'"
  by (rule runs_of_first [OF UNIV_I thread_step.new_turn])

lemma run_lock:
  assumes "owner c = None" and "lock_run h (goes t cs (c\<lparr>owner := Some t\<rparr>)) c'"
  shows "lock_run h (goes t (Lock # cs) c) c'"
proof (rule runs_of_first [OF UNIV_I thread_step.locks [where t = t and cs = cs]])
  show "lock_run h ((goes t cs (goes t (Lock # cs) c))\<lparr>owner := Some t\<rparr>) c'"
    using assms(2) by (simp add: goes_again goes_owner)
qed (simp_all add: assms(1))

lemma run_ask:
  assumes "body \<in> h d" and "lock_run h (goes t (body @ cs) c) c'"
  shows "lock_run h (goes t (Ask d # cs) c) c'"
  by (rule runs_of_first [OF UNIV_I thread_step.asks [where t = t and d = d and cs = cs]])
    (use assms in \<open>simp_all add: goes_again\<close>)

lemma run_right: "lock_run h (goes t (ys @ cs) c) c' \<Longrightarrow> lock_run h (goes t (Choose xs ys # cs) c) c'"
  by (rule runs_of_first [OF UNIV_I thread_step.right [where t = t and xs = xs and ys = ys and cs = cs]]) (simp_all add: goes_again)

lemma run_again: "lock_run h (goes t (xs @ Loop xs # cs) c) c' \<Longrightarrow> lock_run h (goes t (Loop xs # cs) c) c'"
  by (rule runs_of_first [OF UNIV_I thread_step.again [where t = t and xs = xs and cs = cs]]) (simp_all add: goes_again)

lemma run_leave: "lock_run h (goes t cs c) c' \<Longrightarrow> lock_run h (goes t (Loop xs # cs) c) c'"
  by (rule runs_of_first [OF UNIV_I thread_step.leaves [where t = t and xs = xs and cs = cs]]) (simp_all add: goes_again)

lemma run_returns: "[] \<in> h d \<Longrightarrow> lock_run h (goes t cs c) c' \<Longrightarrow> lock_run h (goes t (Ask d # cs) c) c'"
  by (rule run_ask [where body = "[]"]) simp_all

text \<open>A run of the reconciler up to its fetch of the reserves.\<close>

definition after_fetch :: "cmd list" where
  "after_fetch = [Loop [Choose [] errorHandler_code],
     Choose [] (with_lock [Ask Log_Line, Loop [Choose [] errorHandler_code]])]"

lemma run_to_fetch:
  assumes "[] \<in> h Get_Client" and "code c T_Reconciler = []"
    and "lock_run h (goes T_Reconciler (Ask Get_Reserves # after_fetch) c) c'"
  shows "lock_run h c c'"
proof (rule run_turn [OF assms(2)])
  show "lock_run h (goes T_Reconciler runStateReconciliation_code c) c'"
    unfolding runStateReconciliation_code_def
    by (rule run_right, simp only: append.simps, rule run_returns, rule assms(1),
        rule run_right, simp only: append.simps, rule run_leave)
      (rule assms(3) [unfolded after_fetch_def])
qed simp

text \<open>From there into the critical section, up to a call of the error handler.\<close>

definition after_error :: "cmd list" where
  "after_error = [Loop [Choose [] errorHandler_code], Unlock]"

lemma run_to_error:
  assumes "[] \<in> h Get_Reserves" and "[] \<in> h Log_Line" and "owner c = None"
    and "lock_run h (goes T_Reconciler (Ask Error_Handler # after_error) (c\<lparr>owner := Some T_Reconciler\<rparr>)) c'"
  shows "lock_run h (goes T_Reconciler (Ask Get_Reserves # after_fetch) c) c'"
  unfolding after_fetch_def with_lock_def
  by (rule run_returns, rule assms(1), rule run_leave, rule run_right, simp only: append.simps,
      rule run_lock, rule assms(3), rule run_returns, rule assms(2), rule run_again,
      simp only: append.simps, rule run_right, simp only: append.simps errorHandler_code_def,
      rule run_returns, rule assms(2))
    (rule assms(4) [unfolded after_error_def errorHandler_code_def])

section \<open>An error handler that deletes\<close>

definition locked_out :: "LConf \<Rightarrow> bool" where
  "locked_out c \<longleftrightarrow> owner c = Some T_Reconciler \<and> (\<exists>cs. code c T_Reconciler = Lock # cs) \<and>
     (\<forall>t. t \<noteq> T_Reconciler \<longrightarrow> held_after False (code c t) = Some False)"

lemma locked_out_no_lock:
  "locked_out c \<Longrightarrow> code c t = Lock # cs \<Longrightarrow> \<not> thread_step h t c c'"
  by (auto simp: locked_out_def elim: thread_stepE)

lemma locked_out_step:
  assumes "locked_out c" and "thread_step h t c c'"
    and "\<And>d body. body \<in> h d \<Longrightarrow> held_after False body = Some False"
  shows "locked_out c'"
proof -
  have t: "t \<noteq> T_Reconciler"
    using assms(1,2) locked_out_no_lock by (auto simp: locked_out_def)
  then have o: "owner c \<noteq> Some t" "owner c = Some T_Reconciler" using assms(1) by (simp_all add: locked_out_def)
  have d: "held_after (owner c' = Some t) (code c' t) = Some False"
    by (rule step_disciplined [OF assms(2) _ assms(3)]) (use assms(1) t o in \<open>simp_all add: locked_out_def\<close>)
  have "owner c' = owner c"
    using assms(2)
  proof cases
    case (unlocks cs)
    then have "held_after False (code c t) = None" by simp
    then show ?thesis using assms(1) t by (simp add: locked_out_def)
  qed (use o in auto)
  with d o t assms(1) step_others [OF assms(2)] show ?thesis
    unfolding locked_out_def by (metis option.inject)
qed

lemma locked_out_run:
  assumes "lock_run h c c'" and "locked_out c"
    and "\<And>d body. body \<in> h d \<Longrightarrow> held_after False body = Some False"
  shows "locked_out c'"
  using assms(1) unfolding runs_of_def
  by induction (use assms(2,3) locked_out_step in blast)+

text \<open>
  C12. The reconciler calls the user's error handler while it holds the lock. When a pool it wants
  to update was deleted since it compared the views, the section under the lock hands
  \<^verbatim>\<open>ErrPoolNotFound\<close> for it to the handler; if the handler then calls \<^verbatim>\<open>DeletePool\<close>, as it may
  everywhere else, the reconciler waits for itself: the system can get to a state from which, in
  whatever order the threads go on, the reconciler has the lock and waits for it, and no thread
  that comes to take the lock, to apply a block, to add pools or to delete some, ever takes a step.
\<close>

theorem error_handler_must_not_delete:
  assumes "state_inv s" and "update_complete u" and "pools_of (registry s) (pu_id u) = None"
    and "DeletePool_code \<in> h Error_Handler" and "h Error_Handler \<subseteq> {[], DeletePool_code}"
    and "\<forall>d. d \<noteq> Error_Handler \<longrightarrow> h d = {[]}"
  shows "(\<exists>s'. recon_apply [u] s = Some s' \<and>
      handled s' = handled s @ [UpdateError 0 ErrPoolNotFound 0 (pu_id u) None None]) \<and>
    (\<exists>c. lock_run h lock_start c \<and> (\<forall>c'. lock_run h c c' \<longrightarrow>
      owner c' = Some T_Reconciler \<and> (\<exists>cs. code c' T_Reconciler = Lock # cs) \<and>
      (\<forall>t cs c''. code c' t = Lock # cs \<longrightarrow> \<not> thread_step h t c' c'')))"
proof
  obtain s' where "recon_apply [u] s = Some s'" "handled s' = handled s @ lost_errors (pools_of (registry s)) [u]"
    by (rule recon_apply_spec [OF assms(1), of "[u]"]) (use assms(2) in simp_all)
  with assms(3) show "\<exists>s'. recon_apply [u] s = Some s' \<and>
      handled s' = handled s @ [UpdateError 0 ErrPoolNotFound 0 (pu_id u) None None]"
    by (simp add: lost_errors_def)
next
  have returns: "[] \<in> h Get_Client" "[] \<in> h Get_Reserves" "[] \<in> h Log_Line" using assms(6) by simp_all
  have bodies: "held_after False body = Some False" if "body \<in> h d" for d body
    using that assms(5,6) by (cases "d = Error_Handler") (auto simp: DeletePool_code_def with_lock_def)
  let ?c = "goes T_Reconciler (DeletePool_code @ after_error) (lock_start\<lparr>owner := Some T_Reconciler\<rparr>)"
  have "lock_run h lock_start ?c"
    by (rule run_to_fetch, rule returns(1), simp add: lock_start_def, rule run_to_error, rule returns(2),
        rule returns(3), simp add: lock_start_def, rule run_ask, rule assms(4), rule runs_of_refl)
  moreover have "locked_out ?c"
    by (simp add: locked_out_def DeletePool_code_def with_lock_def lock_start_def)
  moreover have "owner c' = Some T_Reconciler \<and> (\<exists>cs. code c' T_Reconciler = Lock # cs) \<and>
      (\<forall>t cs c''. code c' t = Lock # cs \<longrightarrow> \<not> thread_step h t c' c'')"
    if run: "lock_run h ?c c'" for c'
  proof -
    have "locked_out ?c"
      by (simp add: locked_out_def DeletePool_code_def with_lock_def lock_start_def)
    with run have "locked_out c'" by (rule locked_out_run) (rule bodies)
    then show ?thesis using locked_out_no_lock [of c'] by (auto simp: locked_out_def)
  qed
  ultimately show "\<exists>c. lock_run h lock_start c \<and> (\<forall>c'. lock_run h c c' \<longrightarrow>
      owner c' = Some T_Reconciler \<and> (\<exists>cs. code c' T_Reconciler = Lock # cs) \<and>
      (\<forall>t cs c''. code c' t = Lock # cs \<longrightarrow> \<not> thread_step h t c' c''))"
    by blast
qed

text \<open>The hypotheses can be met: a handler that deletes, and an update for a pool not tracked.\<close>

theorem error_handler_must_not_delete_witness:
  "\<exists>c. lock_run (\<lambda>d. if d = Error_Handler then {DeletePool_code} else {[]}) lock_start c \<and>
    owner c = Some T_Reconciler \<and> (\<exists>cs. code c T_Reconciler = Lock # cs)"
proof -
  let ?h = "\<lambda>d. if d = Error_Handler then {DeletePool_code} else {[]}"
  let ?u = "\<lparr>pu_id = 5, pu_reserve0 = Some 1, pu_reserve1 = Some 2\<rparr>"
  have u: "update_complete ?u" "pools_of (registry empty_state) (pu_id ?u) = None"
    by (simp_all add: update_complete_def empty_state_def initial_state_def)
  have h: "DeletePool_code \<in> ?h Error_Handler" "?h Error_Handler \<subseteq> {[], DeletePool_code}"
    "\<forall>d. d \<noteq> Error_Handler \<longrightarrow> ?h d = {[]}" by simp_all
  obtain c where "lock_run ?h lock_start c" "\<forall>c'. lock_run ?h c c' \<longrightarrow>
      owner c' = Some T_Reconciler \<and> (\<exists>cs. code c' T_Reconciler = Lock # cs)"
    using error_handler_must_not_delete [OF empty_state_inv u h] by blast
  then show ?thesis using runs_of_refl [of UNIV ?h c] by blast
qed

text \<open>One caller has the lock, another waits for it, and the reconciler hangs in its fetch; the caller
  that waits can still finish.\<close>

lemma example_lock_run:
  obtains c where "lock_run (\<lambda>d. if d = Get_Reserves then {[Hang]} else {[]}) lock_start c"
    "owner c = Some (T_Caller 0)" "code c (T_Caller 1) = DeletePools_code"
    "code c T_Reconciler = Hang # after_fetch"
proof -
  let ?h = "\<lambda>d. if d = Get_Reserves then {[Hang]} else {[]}"
  let ?r = "goes T_Reconciler (Hang # after_fetch) lock_start"
  let ?c = "goes (T_Caller 1) DeletePools_code (goes (T_Caller 0) [Unlock] (?r\<lparr>owner := Some (T_Caller 0)\<rparr>))"
  have "lock_run ?h lock_start ?r"
    by (rule run_to_fetch, simp, simp add: lock_start_def, rule run_ask [where body = "[Hang]"])
      (simp_all add: runs_of_refl)
  moreover have "lock_run ?h ?r ?c"
    by (rule run_turn [where t = "T_Caller 0" and body = DeletePool_code], simp add: lock_start_def, simp,
        simp only: DeletePool_code_def with_lock_def append.simps, rule run_lock, simp add: lock_start_def,
        rule run_turn [where t = "T_Caller 1" and body = DeletePools_code])
      (simp_all add: lock_start_def)
  ultimately have "lock_run ?h lock_start ?c" by (rule runs_of_trans)
  then show ?thesis by (rule that) simp_all
qed

theorem lock_never_blocks_for_good_witness:
  "\<exists>c c'. lock_run (\<lambda>d. if d = Get_Reserves then {[Hang]} else {[]}) lock_start c \<and>
    owner c = Some (T_Caller 0) \<and> code c (T_Caller 1) \<noteq> [] \<and> code c T_Reconciler = Hang # after_fetch \<and>
    runs_of {T_Caller 1, T_Caller 0} (\<lambda>d. if d = Get_Reserves then {[Hang]} else {[]}) c c' \<and>
    code c' (T_Caller 1) = []"
proof (rule example_lock_run, goal_cases)
  case (1 c)
  let ?h = "\<lambda>d. if d = Get_Reserves then {[Hang]} else {[]}"
  have "callees_ok ?h" by (simp add: callees_ok_def called_locked_def)
  note W = lock_never_blocks_for_good [OF this 1(1), of "T_Caller 1"]
  have "can_return ?h (code c (T_Caller 1))" "code c (T_Caller 1) \<noteq> []"
    using 1(3) by (simp_all add: DeletePools_code_def with_lock_def)
  moreover have "{T_Caller 1} \<union> set_option (owner c) = {T_Caller 1, T_Caller 0}" using 1(2) by auto
  ultimately obtain c' where "runs_of {T_Caller 1, T_Caller 0} ?h c c'" "code c' (T_Caller 1) = []"
    using W by metis
  with 1 \<open>code c (T_Caller 1) \<noteq> []\<close> show ?case by (intro exI [of _ c] exI [of _ c']) simp
qed

end
