(* ===== verification/Spec2Isabelle.thy ===== *)
theory Spec2Isabelle
  imports Whitelist_Props Heap_Registry Locking
begin

text \<open>
  A model of the Uniswap V2 indexing system (Go, \<^verbatim>\<open>src/\<close>) and its correctness.

  The program. A \<^verbatim>\<open>UniswapV2System\<close> (\<^verbatim>\<open>src/system.go\<close>) keeps a registry of liquidity pools
  (\<^verbatim>\<open>src/registry.go\<close>) and a cached view of it for lock-free readers. Four goroutines work on it:
  the listener applies each block's Sync events and queues discovered pools; the initializer
  drains the queue through the pool initializer (\<^verbatim>\<open>src/initializer/pool.go\<close>) and registers and adds
  the pools; the reconciler refetches reserves (\<^verbatim>\<open>src/reserves/reserves.go\<close>) and corrects drift;
  the pruner removes blocked pools. Callers may read the view and delete pools. Logs are parsed by
  \<^verbatim>\<open>src/logs\<close>; errors are the types of \<^verbatim>\<open>src/errors.go\<close>; metrics those of \<^verbatim>\<open>src/metrics.go\<close>.

  Conventions. A computation that may panic has type \<^typ>\<open>'a go\<close>, with \<^const>\<open>None\<close> the panic;
  Go errors are values of \<^typ>\<open>go_error\<close>. Machine integers are words, a Go \<^verbatim>\<open>int\<close> a 64-bit word
  read with \<^const>\<open>sint\<close>. Slices are lists with checked indexing. A map whose iteration order
  reaches a result is a list of keys with a permutation as argument. State is passed explicitly.
  The injected functions are fields of \<^typ>\<open>('w, 'c) Deps\<close>: functions of an outside world \<open>'w\<close>
  (persistence, chain, block list, schedule) that may change between any two steps.

  Theories, in order.
  \<^item> \<open>Prelude\<close>: machine types, panics, slices, \<^verbatim>\<open>*big.Int\<close> values, fallible loops, map order,
    and the locale \<open>transition_invariant\<close> of step relations that keep an invariant.
  \<^item> \<open>Bytes\<close>: big-endian byte strings (\<^verbatim>\<open>SetBytes\<close>).
  \<^item> \<open>Errors\<close>: \<^verbatim>\<open>errors.go\<close>; messages, causes, \<^verbatim>\<open>errors.As\<close> as a search of the cause chain.
  \<^item> \<open>Registry\<close>, \<open>Registry_Spec\<close>: \<^verbatim>\<open>registry.go\<close> on the values of reserves; its contract
    \<open>pool_store\<close> (a map from IDs to views) and the proof that it keeps it.
  \<^item> \<open>Heap_Registry\<close>: \<^verbatim>\<open>registry.go\<close> and the cached view on pointers into a heap, refining the
    values; ownership of the numbers, snapshots, and what readers share.
  \<^item> \<open>Logs\<close>: \<^verbatim>\<open>logs/\<close>; the loops over logs and closed forms of their results.
  \<^item> \<open>Fan_Out\<close>: the goroutine batch with a semaphore and a wait group, as a locale with invariant,
    results, progress and termination; \<open>Reserves\<close> and \<open>Initializer\<close> interpret it on
    \<^verbatim>\<open>reserves.go\<close> and \<^verbatim>\<open>initializer/pool.go\<close>.
  \<^item> \<open>Config\<close>: configuration, \<^verbatim>\<open>validate\<close>, constructors, and the state, split into the fields that
    change (\<open>State\<close>) and those that do not (\<open>Deps\<close>).
  \<^item> \<open>System\<close>, \<open>Maintenance\<close>: the routines of \<^verbatim>\<open>system.go\<close>, each cut into the phases between which
    others can run, and composed as the code composes them.
  \<^item> \<open>Contracts\<close>: what the system relies on in its dependencies, as the locales \<open>chain_deps\<close>
    (shapes of answers) and \<open>persistent_deps\<close> (IDs returned are the ones looked up later).
    \<open>Wiring\<close> interprets them on the repository's own parsers, initializer and reader with the
    persistence layer of the test suite (\<^verbatim>\<open>system_test.go\<close>), and holds the inputs of the witnesses.
  \<^item> \<open>Block_Props\<close>, \<open>Init_Props\<close>, \<open>Maintenance_Props\<close>, \<open>Reconcile_Props\<close>: the invariant
    \<open>state_inv\<close> (exact index, view equal to the registry, no duplicate in the queue, error counters
    equal to the errors reported) and what each routine does on every branch.
  \<^item> \<open>Concurrency\<close>: each goroutine as a step relation with a program counter, interleaved with
    callers and the environment (\<open>sys_step\<close>); where a step would panic (\<open>sys_panics\<close>).
  \<^item> \<open>Concurrency_Props\<close>: every step keeps \<open>conf_inv\<close>, which adds to \<open>state_inv\<close> what each
    goroutine holds between its steps, and changes the pools only in its own way.
  \<^item> \<open>Turns\<close>: a goroutine's undisturbed turn is a run of its routine.
  \<^item> \<open>Running_Props\<close>: construction, safety, refinement of the abstract tracker, and a gauge the
    interleaving lets drift.
  \<^item> \<open>Whitelist_Props\<close>: no interleaving shows readers a pool from outside the whitelist.
  \<^item> \<open>Locking\<close>: the lock \<^verbatim>\<open>s.mu\<close> and the calls out. Each routine of \<^verbatim>\<open>system.go\<close> as the order in
    which it locks, unlocks and calls the configured functions (data left out, branches and loop
    counts free), run by the four goroutines and any number of callers; calls may hang or call
    back. Lock discipline, progress, and the deadlock of a handler that deletes.
  \<^item> \<open>Collectors\<close>: the metrics of \<^verbatim>\<open>metrics.go\<close> and their registration, which \<open>Config\<close> uses.

  Atomicity. In \<open>Concurrency\<close> a section under \<^verbatim>\<open>s.mu\<close> is one step; \<open>Locking\<close> shows that one
  thread at a time is in such a section and can always leave it. One step is also the error reporting of one phase, which
  commutes with every step but those that report errors themselves; a scan outside the lock (the
  pruner's and the reconciler's address lookups, the fetch of a block) is one step that sees the
  outside world at one instant, which its environment may change before and after. Readers see
  the cached view, which each section stores once, at its end; the block handler stores the block
  number just before it, so a reader of both can for a moment see the new number with the old view.

  Bounds. The retry loop runs over the range the code computes, \<open>1 + LogMaxRetries\<close> in 64-bit
  arithmetic. Loops over slices recurse on the list. No fuel is used anywhere: the batch programs
  and the goroutines are step relations, and what ends is shown to end by a decreasing measure.

  Properties. C1 to C40, numbered by importance, are stated in the theories of their components;
  each has its statement in words before it, and those with hypotheses a witness after it. The
  ones on faults state exactly when they happen: repeated IDs in a snapshot, a limit of 0,
  negative retries, inconsistent persistence, a reconciler overtaken by a block, pools the
  persistence layer knows but the registry does not, a drifting gauge, shared numbers in views, a
  handler that deletes pools, a registerer that holds the names.

  Not modelled. \<^verbatim>\<open>src/abi/abi.go\<close>, \<^verbatim>\<open>logs/events.go\<close> and \<^verbatim>\<open>logs/sync.go\<close>: a JSON constant that
  third-party code parses and the event topics and selectors taken from it, which are parameters
  here. Logging, timers and tickers, observed durations, Prometheus itself, the Ethereum client
  and the conversions of go-ethereum are parameters or left out; a nil logger is the panic it is.
  Cancellation of the context appears where it changes a result: at the waits and retries, and in
  the batches. Every block received is a block: the owner of \<^verbatim>\<open>newBlockEventer\<close> neither closes
  the channel nor sends nil, either of which would hand \<^verbatim>\<open>listenBlockEventer\<close> a nil block, and
  what its methods then do is code outside the repository. Memory exhaustion and values above
  \<open>2 ^ 53\<close> in \<^verbatim>\<open>float64\<close> metrics are left out.
\<close>

end
